(* ===== verification/Goat_Prelude.thy ===== *)
theory Goat_Prelude
  imports Main "HOL-Library.Word"
begin

text \<open>
  The prelude of the GOAT development: the machine types, the Go runtime notions the
  components share (errors, contexts, panics and blocking, channels, \<^verbatim>\<open>select\<close>), the
  reachability scheme of the interleaving models, and the generic lemmas on lists and maps.

  A Go call that may not return is modelled by an outcome: \<open>Ret\<close> for a call that returns,
  \<open>Panic\<close> for a run-time panic (send on or close of a closed channel, index out of range,
  \<^verbatim>\<open>log.Panic\<close>), \<open>Block\<close> for a call that cannot proceed in the present state.
\<close>

section \<open>Machine types and lemma collections\<close>

type_synonym u64 = "64 word"
type_synonym i64 = "64 word"
type_synonym u32 = "32 word"
type_synonym i32 = "32 word"
type_synonym bytes = "8 word list"

text \<open>A gRPC \<^verbatim>\<open>metadata.MD\<close> is a Go \<^verbatim>\<open>map[string][]string\<close>; a nil map is \<open>None\<close> where the
  code tells nil and empty apart.\<close>

type_synonym MD = "string \<rightharpoonup> string list"

named_theorems chan_simps \<open>equations of the channel operations\<close>
named_theorems rpc_simps \<open>equations of the protobuf accessors\<close>
named_theorems goat_defs \<open>definitions that component proofs unfold\<close>

section \<open>Errors\<close>

text \<open>\<^verbatim>\<open>anypb.Any\<close> and the protobuf \<^verbatim>\<open>google.rpc.Status\<close>, as messages.\<close>

datatype any = Any string bytes

record Status =
  stCode :: i32
  stMessage :: string
  stDetails :: "any list"

text \<open>
  The errors the code builds or distinguishes. \<open>StatusErr\<close> is an error of the
  \<^verbatim>\<open>grpc/status\<close> package, \<open>Errorf\<close> one made by \<^verbatim>\<open>fmt.Errorf\<close> or \<^verbatim>\<open>errors.New\<close>, \<open>Wrap\<close> one made by
  \<^verbatim>\<open>pkg/errors.Wrap\<close>, \<open>External\<close> an error of the transport, the codec or the application.
  A nil error is \<open>None\<close>.
\<close>

datatype gerr =
    Canceled
  | DeadlineExceeded
  | EOF
  | StatusErr Status
  | Errorf string
  | Wrap gerr string
  | External string

text \<open>\<^verbatim>\<open>errors.Is\<close>: the error or one it wraps is the target.\<close>

fun errors_Is :: "gerr \<Rightarrow> gerr \<Rightarrow> bool" where
  "errors_Is (Wrap e m) t = (Wrap e m = t \<or> errors_Is e t)"
| "errors_Is e t = (e = t)"

section \<open>Contexts\<close>

text \<open>
  What the code reads of a \<^verbatim>\<open>context.Context\<close>: \<^verbatim>\<open>Err()\<close> (nil until it is done), the deadline in
  nanoseconds on an unbounded time line (a \<^verbatim>\<open>time.Time\<close> is wider than 64 bits), and the incoming and outgoing metadata attached to it.
\<close>

record Context =
  ctxErr :: "gerr option"
  ctxDeadline :: "int option"
  ctxIncoming :: "MD option"
  ctxOutgoing :: "MD option"

definition Background :: Context where
  "Background = \<lparr>ctxErr = None, ctxDeadline = None, ctxIncoming = None, ctxOutgoing = None\<rparr>"

definition ctx_done :: "Context \<Rightarrow> bool" where
  "ctx_done ctx \<longleftrightarrow> ctxErr ctx \<noteq> None"

text \<open>\<^verbatim>\<open>cancel()\<close>: the first cancellation decides \<^verbatim>\<open>Err()\<close>.\<close>

definition ctx_cancel :: "Context \<Rightarrow> Context" where
  "ctx_cancel ctx = (if ctx_done ctx then ctx else ctx\<lparr>ctxErr := Some Canceled\<rparr>)"

lemma ctx_cancel_done [simp]: "ctx_done (ctx_cancel ctx)"
  by (simp add: ctx_cancel_def ctx_done_def)

lemma ctx_cancel_idem [simp]: "ctx_cancel (ctx_cancel ctx) = ctx_cancel ctx"
  by (simp add: ctx_cancel_def ctx_done_def)

section \<open>Times and durations\<close>

text \<open>Go's integer division truncates towards zero. A \<^verbatim>\<open>time.Duration\<close> is a signed 64-bit count of
  nanoseconds; \<^verbatim>\<open>time.Until\<close> saturates at its bounds.\<close>

definition go_quot :: "int \<Rightarrow> int \<Rightarrow> int" where
  "go_quot a b = sgn a * sgn b * (\<bar>a\<bar> div \<bar>b\<bar>)"

definition time_Until :: "int \<Rightarrow> int \<Rightarrow> i64" where
  "time_Until deadline now = word_of_int (max (- (2 ^ 63)) (min (2 ^ 63 - 1) (deadline - now)))"

lemma sint_range_id: "- (2 ^ 63) \<le> i \<Longrightarrow> i < 2 ^ 63 \<Longrightarrow> sint (word_of_int i :: i64) = i"
  by (simp add: signed_take_bit_int_eq_self sint_sbintrunc')

lemma sint_time_Until:
  "sint (time_Until deadline now) = max (- (2 ^ 63)) (min (2 ^ 63 - 1) (deadline - now))"
  unfolding time_Until_def by (rule sint_range_id) auto

section \<open>Outcomes and select\<close>

datatype 'a go = Ret 'a | Panic | Block

fun go_bind :: "'a go \<Rightarrow> ('a \<Rightarrow> 'b go) \<Rightarrow> 'b go" where
  "go_bind (Ret x) f = f x"
| "go_bind Panic f = Panic"
| "go_bind Block f = Block"

lemma go_bind_Ret_iff: "go_bind m f = Ret y \<longleftrightarrow> (\<exists>x. m = Ret x \<and> f x = Ret y)"
  by (cases m) auto

lemma go_bind_Panic_iff: "go_bind m f = Panic \<longleftrightarrow> m = Panic \<or> (\<exists>x. m = Ret x \<and> f x = Panic)"
  by (cases m) auto

lemma go_bind_Block_iff: "go_bind m f = Block \<longleftrightarrow> m = Block \<or> (\<exists>x. m = Ret x \<and> f x = Block)"
  by (cases m) auto

text \<open>
  \<^verbatim>\<open>select\<close> with two cases: \<open>Block\<close> when neither is ready, the ready one when exactly one is, and
  either one (the scheduler's choice \<open>pick\<close>) when both are.
\<close>

fun select2 :: "bool \<Rightarrow> 'a go \<Rightarrow> 'a go \<Rightarrow> 'a go" where
  "select2 pick Block b = b"
| "select2 pick a Block = a"
| "select2 pick a b = (if pick then a else b)"

lemma select2_Block_iff [simp]: "select2 pick a b = Block \<longleftrightarrow> a = Block \<and> b = Block"
  by (cases a; cases b) auto

lemma select2_Block_right [simp]: "select2 pick a Block = a"
  by (cases a) auto

text \<open>The case \<^verbatim>\<open><-ctx.Done()\<close> of a \<^verbatim>\<open>select\<close>.\<close>

definition on_done :: "Context \<Rightarrow> (gerr \<Rightarrow> 'a) \<Rightarrow> 'a go" where
  "on_done ctx f = (case ctxErr ctx of None \<Rightarrow> Block | Some e \<Rightarrow> Ret (f e))"

lemma on_done_not_Panic [simp]: "on_done ctx f \<noteq> Panic"
  by (simp add: on_done_def split: option.split)

lemma on_done_Block_iff [simp]: "on_done ctx f = Block \<longleftrightarrow> ctxErr ctx = None"
  by (simp add: on_done_def split: option.split)

lemma on_done_Ret_iff [simp]: "on_done ctx f = Ret x \<longleftrightarrow> (\<exists>e. ctxErr ctx = Some e \<and> x = f e)"
  by (auto simp: on_done_def split: option.split)

lemma select2_RetD: "select2 pick a b = Ret x \<Longrightarrow> a = Ret x \<or> b = Ret x"
  by (cases a; cases b) (auto split: if_splits)

lemma select2_PanicD: "select2 pick a b = Panic \<Longrightarrow> a = Panic \<or> b = Panic"
  by (cases a; cases b) (auto split: if_splits)

section \<open>Channels\<close>

text \<open>
  A channel: its capacity, the values sent and not yet taken, the receivers parked on it and
  whether it is closed. A send proceeds when the buffer has room or a receiver is parked, so a
  channel of capacity 0 passes a value only to a waiting receiver. (With several receivers Go
  hands a value to the one parked first; every channel of the modelled code whose order matters
  has one receiver.)
\<close>

record 'a chan =
  cap :: nat
  buf :: "'a list"
  waiting :: nat
  closed :: bool

definition make_chan :: "nat \<Rightarrow> 'a chan" where
  "make_chan n = \<lparr>cap = n, buf = [], waiting = 0, closed = False\<rparr>"

definition chan_send :: "'a chan \<Rightarrow> 'a \<Rightarrow> 'a chan go" where
  "chan_send c v =
     (if closed c then Panic
      else if length (buf c) < cap c + waiting c then Ret (c\<lparr>buf := buf c @ [v]\<rparr>)
      else Block)"

text \<open>A receive: \<open>Some v\<close> for a value, \<open>None\<close> for a closed and drained channel
  (the \<^verbatim>\<open>!ok\<close> of a two-valued receive).\<close>

definition chan_recv :: "'a chan \<Rightarrow> ('a option \<times> 'a chan) go" where
  "chan_recv c =
     (case buf c of
        v # vs \<Rightarrow> Ret (Some v, c\<lparr>buf := vs, waiting := waiting c - 1\<rparr>)
      | [] \<Rightarrow> if closed c then Ret (None, c) else Block)"

text \<open>A receiver that finds nothing parks on the channel.\<close>

definition chan_park :: "'a chan \<Rightarrow> 'a chan" where
  "chan_park c = c\<lparr>waiting := waiting c + 1\<rparr>"

definition chan_close :: "'a chan \<Rightarrow> 'a chan go" where
  "chan_close c = (if closed c then Panic else Ret (c\<lparr>closed := True\<rparr>))"

text \<open>A channel never holds more than its capacity and its parked receivers allow.\<close>

definition chan_ok :: "'a chan \<Rightarrow> bool" where
  "chan_ok c \<longleftrightarrow> length (buf c) \<le> cap c + waiting c"

lemma make_chan_simps [simp]:
  "cap (make_chan n) = n" "buf (make_chan n) = []"
  "waiting (make_chan n) = 0" "closed (make_chan n) = False"
  by (simp_all add: make_chan_def)

lemma chan_ok_make [simp]: "chan_ok (make_chan n)"
  by (simp add: chan_ok_def)

lemma chan_send_Ret_iff [chan_simps]:
  "chan_send c v = Ret c' \<longleftrightarrow>
     \<not> closed c \<and> length (buf c) < cap c + waiting c \<and> c' = c\<lparr>buf := buf c @ [v]\<rparr>"
  by (auto simp: chan_send_def)

lemma chan_send_Block_iff [chan_simps]:
  "chan_send c v = Block \<longleftrightarrow> \<not> closed c \<and> cap c + waiting c \<le> length (buf c)"
  by (auto simp: chan_send_def)

lemma chan_send_Panic_iff [chan_simps]: "chan_send c v = Panic \<longleftrightarrow> closed c"
  by (auto simp: chan_send_def)

lemma chan_recv_Some_iff [chan_simps]:
  "chan_recv c = Ret (Some v, c') \<longleftrightarrow>
     (\<exists>vs. buf c = v # vs \<and> c' = c\<lparr>buf := vs, waiting := waiting c - 1\<rparr>)"
  by (auto simp: chan_recv_def split: list.splits)

lemma chan_recv_None_iff [chan_simps]:
  "chan_recv c = Ret (None, c') \<longleftrightarrow> buf c = [] \<and> closed c \<and> c' = c"
  by (auto simp: chan_recv_def split: list.splits)

lemma chan_recv_Block_iff [chan_simps]: "chan_recv c = Block \<longleftrightarrow> buf c = [] \<and> \<not> closed c"
  by (auto simp: chan_recv_def split: list.splits)

lemma chan_recv_not_Panic [simp]: "chan_recv c \<noteq> Panic"
  by (auto simp: chan_recv_def split: list.splits)

lemma chan_close_Ret_iff [chan_simps]:
  "chan_close c = Ret c' \<longleftrightarrow> \<not> closed c \<and> c' = c\<lparr>closed := True\<rparr>"
  by (auto simp: chan_close_def)

lemma chan_close_Panic_iff [chan_simps]: "chan_close c = Panic \<longleftrightarrow> closed c"
  by (simp add: chan_close_def)

lemma chan_close_not_Block [simp]: "chan_close c \<noteq> Block"
  by (simp add: chan_close_def)

lemma chan_ok_send: "chan_ok c \<Longrightarrow> chan_send c v = Ret c' \<Longrightarrow> chan_ok c'"
  by (auto simp: chan_simps chan_ok_def)

lemma chan_ok_recv: "chan_ok c \<Longrightarrow> chan_recv c = Ret (r, c') \<Longrightarrow> chan_ok c'"
  by (auto simp: chan_recv_def chan_ok_def split: list.splits if_splits)

section \<open>Reachability\<close>

text \<open>The interleaving models are an initial predicate and a step relation over one system
  state; what holds in every reachable state is proved once, in the locale.\<close>

inductive reach :: "('s \<Rightarrow> bool) \<Rightarrow> ('s \<Rightarrow> 's \<Rightarrow> bool) \<Rightarrow> 's \<Rightarrow> bool" for init step where
  reach_init: "init s \<Longrightarrow> reach init step s"
| reach_step: "reach init step s \<Longrightarrow> step s t \<Longrightarrow> reach init step t"

locale invariant_system =
  fixes init :: "'s \<Rightarrow> bool" and step :: "'s \<Rightarrow> 's \<Rightarrow> bool" and inv :: "'s \<Rightarrow> bool"
  assumes inv_init: "init s \<Longrightarrow> inv s"
    and inv_step: "inv s \<Longrightarrow> step s t \<Longrightarrow> inv t"
begin

lemma reach_inv: "reach init step s \<Longrightarrow> inv s"
  by (induction rule: reach.induct) (auto intro: inv_init inv_step)

lemma steps_inv: "step\<^sup>*\<^sup>* s t \<Longrightarrow> inv s \<Longrightarrow> inv t"
  by (induction rule: rtranclp_induct) (auto intro: inv_step)

end

lemma reach_steps: "step\<^sup>*\<^sup>* s t \<Longrightarrow> reach init step s \<Longrightarrow> reach init step t"
  by (induction rule: rtranclp_induct) (auto intro: reach_step)

text \<open>A refinement mapping: every step of the detailed system is a step of the abstract one or changes nothing
  there, so what is reachable is reachable in the abstract system.\<close>

locale refinement_map =
  fixes init :: "'s \<Rightarrow> bool" and step :: "'s \<Rightarrow> 's \<Rightarrow> bool"
    and ainit :: "'a \<Rightarrow> bool" and astep :: "'a \<Rightarrow> 'a \<Rightarrow> bool" and abst :: "'s \<Rightarrow> 'a"
  assumes abs_init: "init s \<Longrightarrow> ainit (abst s)"
    and abs_step: "reach init step s \<Longrightarrow> step s t \<Longrightarrow> abst t = abst s \<or> astep (abst s) (abst t)"
begin

lemma reach_abs: "reach init step s \<Longrightarrow> reach ainit astep (abst s)"
proof (induction rule: reach.induct)
  case (reach_init s)
  then show ?case by (intro reach.reach_init abs_init)
next
  case (reach_step s t)
  from abs_step[OF this(1,2)] reach_step.IH show ?case by (auto intro: reach.reach_step)
qed

end

section \<open>Lists, options and maps\<close>

lemma nth_list_update_if:
  "i < length xs \<Longrightarrow> (xs[i := v]) ! j = (if i = j then v else xs ! j)"
  by (auto simp: nth_list_update)

lemma butlast_snoc_nonempty: "1 < length xs \<Longrightarrow> butlast xs \<noteq> []"
  by (cases xs rule: rev_cases) auto

lemma map_upd_eq_Some_iff:
  "(m(k \<mapsto> v)) j = Some w \<longleftrightarrow> (if j = k then w = v else m j = Some w)"
  by auto

lemma map_del_eq_Some_iff:
  "(m(k := None)) j = Some w \<longleftrightarrow> j \<noteq> k \<and> m j = Some w"
  by auto

end
