(* ===== verification/Go_Strings.thy ===== *)
theory Go_Strings
  imports Goat_Prelude
begin

text \<open>
  The parts of Go's standard library the code computes with: \<^verbatim>\<open>strings.ToLower\<close>,
  \<^verbatim>\<open>strings.HasSuffix\<close>, \<^verbatim>\<open>strings.LastIndex\<close> for a one-byte pattern, \<^verbatim>\<open>strconv.ParseInt(s, 10, 64)\<close>,
  the \<^verbatim>\<open>%d\<close> verb, and \<^verbatim>\<open>base64.URLEncoding\<close>. A Go string is its bytes, a \<^typ>\<open>string\<close>.
  The lemmas are the round trips the components need: decimal printing against \<open>ParseInt\<close>,
  base-64 encoding against decoding.
\<close>

section \<open>Package strings\<close>

definition is_ascii :: "char \<Rightarrow> bool" where
  "is_ascii c \<longleftrightarrow> (of_char c :: nat) < 128"

definition ascii_lower :: "char \<Rightarrow> char" where
  "ascii_lower c =
     (if 65 \<le> (of_char c :: nat) \<and> (of_char c :: nat) \<le> 90 then char_of (of_char c + 32 :: nat) else c)"

text \<open>
  \<^verbatim>\<open>strings.ToLower\<close> works bytewise on an ASCII string; on any other it maps code points by the
  Unicode tables, which are the parameter \<open>uni\<close>.
\<close>

definition ToLower :: "(string \<Rightarrow> string) \<Rightarrow> string \<Rightarrow> string" where
  "ToLower uni s = (if list_all is_ascii s then map ascii_lower s else uni s)"

definition HasSuffix :: "string \<Rightarrow> string \<Rightarrow> bool" where
  "HasSuffix s suf \<longleftrightarrow> length suf \<le> length s \<and> drop (length s - length suf) s = suf"

text \<open>The last index of a byte; \<open>None\<close> is Go's \<open>-1\<close>.\<close>

fun LastIndexByte :: "string \<Rightarrow> char \<Rightarrow> nat option" where
  "LastIndexByte [] c = None"
| "LastIndexByte (x # xs) c =
     (case LastIndexByte xs c of
        Some i \<Rightarrow> Some (Suc i)
      | None \<Rightarrow> if x = c then Some 0 else None)"

text \<open>A lower-case ASCII string is a fixed point of \<open>ToLower\<close>.\<close>

definition is_lower_ascii :: "string \<Rightarrow> bool" where
  "is_lower_ascii s \<longleftrightarrow>
     list_all (\<lambda>c. is_ascii c \<and> \<not> (65 \<le> (of_char c :: nat) \<and> (of_char c :: nat) \<le> 90)) s"

lemma ascii_lower_id:
  "\<not> (65 \<le> (of_char c :: nat) \<and> (of_char c :: nat) \<le> 90) \<Longrightarrow> ascii_lower c = c"
  by (auto simp: ascii_lower_def)

lemma ToLower_lower_ascii [simp]: "is_lower_ascii s \<Longrightarrow> ToLower uni s = s"
  by (auto simp: is_lower_ascii_def ToLower_def list_all_iff intro!: map_idI ascii_lower_id)

lemma HasSuffix_iff: "HasSuffix s suf \<longleftrightarrow> (\<exists>p. s = p @ suf)"
proof
  assume "HasSuffix s suf"
  then have "s = take (length s - length suf) s @ suf"
    by (metis HasSuffix_def append_take_drop_id)
  then show "\<exists>p. s = p @ suf" ..
qed (auto simp: HasSuffix_def)

lemma LastIndexByte_None_iff: "LastIndexByte s c = None \<longleftrightarrow> c \<notin> set s"
  by (induction s) (auto split: option.split)

lemma LastIndexByte_append:
  "c \<notin> set q \<Longrightarrow> LastIndexByte (p @ c # q) c = Some (length p)"
  by (induction p) (auto simp: LastIndexByte_None_iff split: option.split)

lemma LastIndexByte_Some:
  "LastIndexByte s c = Some i \<Longrightarrow> i < length s \<and> s ! i = c \<and> c \<notin> set (drop (Suc i) s)"
proof (induction s arbitrary: i)
  case Nil
  then show ?case by simp
next
  case (Cons x xs)
  show ?case
  proof (cases "LastIndexByte xs c")
    case None
    with Cons.prems show ?thesis
      by (auto simp: LastIndexByte_None_iff split: if_splits)
  next
    case (Some j)
    with Cons.prems Cons.IH[OF Some] show ?thesis by auto
  qed
qed

section \<open>Decimal numbers\<close>

definition digit_char :: "nat \<Rightarrow> char" where
  "digit_char d = char_of (48 + d)"

definition digit_val :: "char \<Rightarrow> nat option" where
  "digit_val c =
     (let n = of_char c :: nat in if 48 \<le> n \<and> n \<le> 57 then Some (n - 48) else None)"

text \<open>The digits of a number, most significant first, as the \<^verbatim>\<open>%d\<close> verb writes them.\<close>

fun nat_digits :: "nat \<Rightarrow> string" where
  "nat_digits n = (if n < 10 then [digit_char n] else nat_digits (n div 10) @ [digit_char (n mod 10)])"

declare nat_digits.simps [simp del]

definition format_d :: "int \<Rightarrow> string" where
  "format_d i = (if i < 0 then CHR ''-'' # nat_digits (nat (- i)) else nat_digits (nat i))"

text \<open>The value of a string of decimal digits; \<open>None\<close> when a byte is not a digit.\<close>

fun digits_val :: "nat \<Rightarrow> string \<Rightarrow> nat option" where
  "digits_val acc [] = Some acc"
| "digits_val acc (c # cs) =
     (case digit_val c of None \<Rightarrow> None | Some d \<Rightarrow> digits_val (10 * acc + d) cs)"

text \<open>
  \<^verbatim>\<open>strconv.ParseInt(s, 10, 64)\<close>: an optional sign, at least one digit, digits only, and the value
  in range; \<open>None\<close> is a non-nil error (syntax or range).
\<close>

definition ParseInt :: "string \<Rightarrow> i64 option" where
  "ParseInt s =
     (let neg = (s \<noteq> [] \<and> hd s = CHR ''-'');
          ds = (if s \<noteq> [] \<and> (hd s = CHR ''+'' \<or> hd s = CHR ''-'') then tl s else s)
      in if ds = [] then None
         else case digits_val 0 ds of
           None \<Rightarrow> None
         | Some un \<Rightarrow>
             if \<not> neg \<and> 2 ^ 63 \<le> un then None
             else if neg \<and> 2 ^ 63 < un then None
             else Some (if neg then - of_nat un else of_nat un))"

lemma digit_val_char [simp]: "d < 10 \<Longrightarrow> digit_val (digit_char d) = Some d"
  by (simp add: digit_val_def digit_char_def of_char_of)

lemma digit_char_not_sign: "d < 10 \<Longrightarrow> digit_char d \<noteq> CHR ''-'' \<and> digit_char d \<noteq> CHR ''+''"
proof -
  assume "d < 10"
  then have "(of_char (digit_char d) :: nat) = 48 + d"
    by (simp add: digit_char_def of_char_of)
  then show ?thesis
    by (auto dest!: arg_cong[of _ _ "of_char :: char \<Rightarrow> nat"])
qed

lemma digits_val_append:
  "digits_val acc (xs @ ys) = (case digits_val acc xs of None \<Rightarrow> None | Some a \<Rightarrow> digits_val a ys)"
  by (induction xs arbitrary: acc) (auto split: option.split)

lemma digits_val_nat_digits: "digits_val 0 (nat_digits n) = Some n"
proof (induction n rule: nat_digits.induct)
  case (1 n)
  show ?case
  proof (cases "n < 10")
    case True
    then show ?thesis by (simp add: nat_digits.simps[of n])
  next
    case False
    with "1.IH" show ?thesis
      by (simp add: nat_digits.simps[of n] digits_val_append)
  qed
qed

lemma nat_digits_not_Nil [simp]: "nat_digits n \<noteq> []"
  by (subst nat_digits.simps) simp

lemma hd_nat_digits: "hd (nat_digits n) \<noteq> CHR ''-'' \<and> hd (nat_digits n) \<noteq> CHR ''+''"
proof (induction n rule: nat_digits.induct)
  case (1 n)
  then show ?case
    by (cases "n < 10") (auto simp: nat_digits.simps[of n] digit_char_not_sign)
qed

text \<open>Printing a non-negative \<^verbatim>\<open>int64\<close> and parsing it back is the identity.\<close>

lemma ParseInt_format_d:
  "0 \<le> i \<Longrightarrow> i < 2 ^ 63 \<Longrightarrow> ParseInt (format_d i) = Some (word_of_int i)"
  by (auto simp: ParseInt_def format_d_def Let_def digits_val_nat_digits hd_nat_digits
      not_le nat_less_iff of_nat_nat)

section \<open>base64.URLEncoding\<close>

text \<open>
  The URL-safe alphabet with padding. \<open>encode\<close> takes three bytes to four characters and pads the
  last group. \<open>decode\<close> drops carriage returns and newlines wherever they stand, requires groups of
  four characters, allows padding in the last group only, and ignores the unused low bits of a
  padded group, as the non-strict decoder does. The error's byte offset is not modelled.
\<close>

definition b64_char :: "nat \<Rightarrow> char" where
  "b64_char n =
     char_of (if n < 26 then n + 65 else if n < 52 then n + 71 else if n < 62 then n - 4
              else if n = 62 then 45 else 95 :: nat)"

definition b64_val :: "char \<Rightarrow> nat option" where
  "b64_val c =
     (let n = of_char c :: nat
      in if 65 \<le> n \<and> n \<le> 90 then Some (n - 65)
         else if 97 \<le> n \<and> n \<le> 122 then Some (n - 71)
         else if 48 \<le> n \<and> n \<le> 57 then Some (n + 4)
         else if n = 45 then Some 62
         else if n = 95 then Some 63
         else None)"

fun b64_encode_nats :: "nat list \<Rightarrow> string" where
  "b64_encode_nats [] = []"
| "b64_encode_nats [a] = [b64_char (a div 4), b64_char ((a mod 4) * 16), CHR ''='', CHR ''='']"
| "b64_encode_nats [a, b] =
     [b64_char (a div 4), b64_char ((a mod 4) * 16 + b div 16), b64_char ((b mod 16) * 4), CHR ''='']"
| "b64_encode_nats (a # b # c # rest) =
     b64_char (a div 4) # b64_char ((a mod 4) * 16 + b div 16) #
     b64_char ((b mod 16) * 4 + c div 64) # b64_char (c mod 64) # b64_encode_nats rest"

fun b64_decode_nats :: "string \<Rightarrow> nat list option" where
  "b64_decode_nats [] = Some []"
| "b64_decode_nats (w # x # y # z # rest) =
     (case (b64_val w, b64_val x, b64_val y, b64_val z) of
        (Some p, Some q, Some r, Some s) \<Rightarrow>
          (case b64_decode_nats rest of
             None \<Rightarrow> None
           | Some ns \<Rightarrow> Some ([p * 4 + q div 16, (q mod 16) * 16 + r div 4, (r mod 4) * 64 + s] @ ns))
      | (Some p, Some q, Some r, None) \<Rightarrow>
          if z = CHR ''='' \<and> rest = [] then Some [p * 4 + q div 16, (q mod 16) * 16 + r div 4] else None
      | (Some p, Some q, None, _) \<Rightarrow>
          if y = CHR ''='' \<and> z = CHR ''='' \<and> rest = [] then Some [p * 4 + q div 16] else None
      | _ \<Rightarrow> None)"
| "b64_decode_nats _ = None"

definition is_newline :: "char \<Rightarrow> bool" where
  "is_newline c \<longleftrightarrow> (of_char c :: nat) = 10 \<or> (of_char c :: nat) = 13"

definition URLEncode :: "string \<Rightarrow> string" where
  "URLEncode s = b64_encode_nats (map of_char s)"

definition URLDecode :: "string \<Rightarrow> string option" where
  "URLDecode s = map_option (map char_of) (b64_decode_nats (filter (\<lambda>c. \<not> is_newline c) s))"

lemma of_char_b64_char:
  "of_char (b64_char n) =
     (if n < 26 then n + 65 else if n < 52 then n + 71 else if n < 62 then n - 4
      else if n = 62 then 45 else 95 :: nat)"
  by (simp add: b64_char_def of_char_of)

lemma b64_val_char [simp]: "n < 64 \<Longrightarrow> b64_val (b64_char n) = Some n"
  unfolding b64_val_def of_char_b64_char Let_def by auto

lemma b64_char_not_newline [simp]: "\<not> is_newline (b64_char n)"
  unfolding is_newline_def of_char_b64_char by auto

lemma b64_pad [simp]: "b64_val CHR ''='' = None" "\<not> is_newline CHR ''=''"
  by (simp_all add: b64_val_def is_newline_def)

lemma b64_group3:
  assumes "a < (256::nat)" "b < 256" "c < 256"
  shows "a div 4 < 64" "(a mod 4) * 16 + b div 16 < 64"
    "(b mod 16) * 4 + c div 64 < 64" "c mod 64 < 64"
    "(a div 4) * 4 + ((a mod 4) * 16 + b div 16) div 16 = a"
    "(((a mod 4) * 16 + b div 16) mod 16) * 16 + ((b mod 16) * 4 + c div 64) div 4 = b"
    "(((b mod 16) * 4 + c div 64) mod 4) * 64 + c mod 64 = c"
proof -
  have b16: "b div 16 < 16" and c64: "c div 64 < 4" using assms by auto
  then have "((a mod 4) * 16 + b div 16) div 16 = a mod 4"
    and q: "((a mod 4) * 16 + b div 16) mod 16 = b div 16"
    and r: "((b mod 16) * 4 + c div 64) div 4 = b mod 16"
    and s: "((b mod 16) * 4 + c div 64) mod 4 = c div 64"
    by (simp_all add: mod_less)
  then show "(a div 4) * 4 + ((a mod 4) * 16 + b div 16) div 16 = a"
    "(((a mod 4) * 16 + b div 16) mod 16) * 16 + ((b mod 16) * 4 + c div 64) div 4 = b"
    "(((b mod 16) * 4 + c div 64) mod 4) * 64 + c mod 64 = c"
    by simp_all
  have "a mod 4 < 4" "b mod 16 < 16" by simp_all
  with b16 c64 show "(a mod 4) * 16 + b div 16 < 64" "(b mod 16) * 4 + c div 64 < 64"
    by linarith+
qed (use assms in auto)

text \<open>The padded groups are the full group with the missing bytes 0.\<close>

lemma b64_decode_encode_nats:
  "list_all (\<lambda>n. n < 256) ns \<Longrightarrow> b64_decode_nats (b64_encode_nats ns) = Some ns"
proof (induction ns rule: b64_encode_nats.induct)
  case (2 a)
  then show ?case using b64_group3[of a 0 0] by simp
next
  case (3 a b)
  then show ?case using b64_group3[of a b 0] by simp
next
  case (4 a b c rest)
  then have lt: "a < 256" "b < 256" "c < 256" by simp_all
  then have "b div 16 < 16" "c div 64 < 4" by auto
  then have "c div 64 div 4 = 0" "(b div 16 mod 16) * 16 + b mod 16 = b" "b div 16 div 16 = 0"
    by (simp_all only: mod_less div_less div_mult_mod_eq)
  with 4 b64_group3(1-4)[OF lt] b64_group3(7)[OF lt] show ?case by simp
qed simp

lemma b64_encode_no_newline: "list_all (\<lambda>c. \<not> is_newline c) (b64_encode_nats ns)"
  by (induction ns rule: b64_encode_nats.induct) auto

lemma URLDecode_URLEncode [simp]: "URLDecode (URLEncode s) = Some s"
proof -
  have lt: "list_all (\<lambda>n. n < 256) (map of_char s :: nat list)"
    by (simp add: list_all_iff)
  then have "filter (\<lambda>c. \<not> is_newline c) (URLEncode s) = URLEncode s"
    using b64_encode_no_newline by (simp add: URLEncode_def list_all_iff filter_id_conv)
  with lt show ?thesis
    by (simp add: URLDecode_def URLEncode_def b64_decode_encode_nats comp_def)
qed

text \<open>What the pair promises to the metadata code, as an interface.\<close>

locale byte_codec =
  fixes enc :: "string \<Rightarrow> string" and dec :: "string \<Rightarrow> string option"
  assumes dec_enc: "dec (enc v) = Some v"
begin

lemma enc_inj: "enc v = enc w \<Longrightarrow> v = w"
  by (metis dec_enc option.inject)

end

interpretation url: byte_codec URLEncode URLDecode
  by unfold_locales simp

end
