(* ===== verification/Goat_Rpc.thy ===== *)
theory Goat_Rpc
  imports Go_Strings "HOL-Library.Char_ord" "HOL-Library.List_Lexorder"
begin

text \<open>
  The wire messages of \<^verbatim>\<open>gen/goatorepo/rpc.pb.go\<close> with their nil-safe accessors, and the
  third-party functions the code calls, as one record of parameters. A nil message pointer is
  \<open>None\<close>. A slice is an option only where the code tells a nil slice from an empty one
  (\<^verbatim>\<open>Body.Data\<close>, \<^verbatim>\<open>Trailer.Metadata\<close>, \<^verbatim>\<open>RequestHeader.ProxyNext\<close>).
\<close>

section \<open>Messages\<close>

record KeyValue =
  kvKey :: string
  kvValue :: string

record RequestHeader =
  hMethod :: string
  hHeaders :: "KeyValue list"
  hSource :: string
  hDestination :: string
  hProxyRecord :: "string list"
  hProxyNext :: "string list option"

record ResponseStatus =
  rsCode :: i32
  rsMessage :: string
  rsDetails :: "any list"

record Body =
  bData :: "bytes option"

record Trailer =
  tMetadata :: "KeyValue list option"

record Reset =
  rType :: string

record Rpc =
  rpcId :: u64
  rpcHeader :: "RequestHeader option"
  rpcStatus :: "ResponseStatus option"
  rpcBody :: "Body option"
  rpcTrailer :: "Trailer option"
  rpcReset :: "Reset option"

section \<open>Accessors\<close>

text \<open>The generated getters return the zero value on a nil receiver.\<close>

definition GetMethod :: "RequestHeader option \<Rightarrow> string" where
  "GetMethod x = (case x of Some h \<Rightarrow> hMethod h | None \<Rightarrow> [])"

definition GetHeaders :: "RequestHeader option \<Rightarrow> KeyValue list" where
  "GetHeaders x = (case x of Some h \<Rightarrow> hHeaders h | None \<Rightarrow> [])"

definition GetSource :: "RequestHeader option \<Rightarrow> string" where
  "GetSource x = (case x of Some h \<Rightarrow> hSource h | None \<Rightarrow> [])"

definition GetDestination :: "RequestHeader option \<Rightarrow> string" where
  "GetDestination x = (case x of Some h \<Rightarrow> hDestination h | None \<Rightarrow> [])"

definition GetCode :: "ResponseStatus option \<Rightarrow> i32" where
  "GetCode x = (case x of Some s \<Rightarrow> rsCode s | None \<Rightarrow> 0)"

definition GetMessage :: "ResponseStatus option \<Rightarrow> string" where
  "GetMessage x = (case x of Some s \<Rightarrow> rsMessage s | None \<Rightarrow> [])"

definition GetDetails :: "ResponseStatus option \<Rightarrow> any list" where
  "GetDetails x = (case x of Some s \<Rightarrow> rsDetails s | None \<Rightarrow> [])"

definition GetData :: "Body option \<Rightarrow> bytes option" where
  "GetData x = (case x of Some b \<Rightarrow> bData b | None \<Rightarrow> None)"

definition GetMetadata :: "Trailer option \<Rightarrow> KeyValue list option" where
  "GetMetadata x = (case x of Some t \<Rightarrow> tMetadata t | None \<Rightarrow> None)"

definition GetType :: "Reset option \<Rightarrow> string" where
  "GetType x = (case x of Some r \<Rightarrow> rType r | None \<Rightarrow> [])"

lemmas getter_defs [rpc_simps] =
  GetMethod_def GetHeaders_def GetSource_def GetDestination_def GetCode_def GetMessage_def
  GetDetails_def GetData_def GetMetadata_def GetType_def

text \<open>\<^verbatim>\<open>len\<close> of a slice that may be nil.\<close>

definition nil_len :: "'a list option \<Rightarrow> nat" where
  "nil_len x = (case x of None \<Rightarrow> 0 | Some xs \<Rightarrow> length xs)"

text \<open>
  A message after a trip over the wire: protobuf writes no empty repeated or bytes field, so a slice that is empty but not
  nil comes back nil; nothing else changes.
\<close>

definition nil_empty :: "'a list option \<Rightarrow> 'a list option" where
  "nil_empty x = (case x of Some [] \<Rightarrow> None | _ \<Rightarrow> x)"

definition wire_header :: "RequestHeader \<Rightarrow> RequestHeader" where
  "wire_header h = h\<lparr>hProxyNext := nil_empty (hProxyNext h)\<rparr>"

definition wire_rpc :: "Rpc \<Rightarrow> Rpc" where
  "wire_rpc m = m\<lparr>rpcHeader := map_option wire_header (rpcHeader m),
     rpcBody := map_option (\<lambda>b. b\<lparr>bData := nil_empty (bData b)\<rparr>) (rpcBody m),
     rpcTrailer := map_option (\<lambda>t. t\<lparr>tMetadata := nil_empty (tMetadata t)\<rparr>) (rpcTrailer m)\<rparr>"

lemma nil_empty_simps [simp]:
  "nil_empty None = None" "nil_empty (Some []) = None" "xs \<noteq> [] \<Longrightarrow> nil_empty (Some xs) = Some xs"
  by (simp_all add: nil_empty_def split: list.split)

lemma wire_sel [simp]:
  "rpcHeader (wire_rpc m) = map_option wire_header (rpcHeader m)" "rpcId (wire_rpc m) = rpcId m"
  "hSource (wire_header h) = hSource h" "hDestination (wire_header h) = hDestination h"
  "hProxyRecord (wire_header h) = hProxyRecord h" "hProxyNext (wire_header h) = nil_empty (hProxyNext h)"
  by (simp_all add: wire_rpc_def wire_header_def)

text \<open>A header with only the fields a composite literal sets; the rest is the zero value.\<close>

definition header_of :: "string \<Rightarrow> string \<Rightarrow> string \<Rightarrow> KeyValue list \<Rightarrow> RequestHeader" where
  "header_of method src dst hs =
     \<lparr>hMethod = method, hHeaders = hs, hSource = src, hDestination = dst,
      hProxyRecord = [], hProxyNext = None\<rparr>"

lemma header_of_simps [simp]:
  "hMethod (header_of m s d hs) = m" "hHeaders (header_of m s d hs) = hs"
  "hSource (header_of m s d hs) = s" "hDestination (header_of m s d hs) = d"
  "hProxyRecord (header_of m s d hs) = []" "hProxyNext (header_of m s d hs) = None"
  by (simp_all add: header_of_def)

text \<open>The status code constants of \<^verbatim>\<open>grpc/codes\<close>.\<close>

abbreviation code_OK :: i32 where "code_OK \<equiv> 0"
abbreviation code_Canceled :: i32 where "code_Canceled \<equiv> 1"
abbreviation code_Unknown :: i32 where "code_Unknown \<equiv> 2"
abbreviation code_InvalidArgument :: i32 where "code_InvalidArgument \<equiv> 3"
abbreviation code_DeadlineExceeded :: i32 where "code_DeadlineExceeded \<equiv> 4"
abbreviation code_Internal :: i32 where "code_Internal \<equiv> 13"

section \<open>Third-party functions\<close>

text \<open>
  The functions of \<^verbatim>\<open>google.golang.org/grpc\<close> the code calls, and what Go leaves open:
  \<^item> \<open>uniLower\<close>: \<^verbatim>\<open>strings.ToLower\<close> on a string that is not ASCII;
  \<^item> \<open>mdRange\<close>: the order in which \<^verbatim>\<open>range\<close> visits the keys of a map;
  \<^item> \<open>mdJoin\<close>: \<^verbatim>\<open>metadata.Join\<close>;
  \<^item> \<open>stFromError\<close>, \<open>stFromContextError\<close>: \<^verbatim>\<open>status.FromError\<close>, \<^verbatim>\<open>status.FromContextError\<close>;
  \<^item> \<open>stErr\<close>: \<^verbatim>\<open>status.FromProto(p).Err()\<close>;
  \<^item> \<open>errText\<close>: the \<^verbatim>\<open>Error()\<close> text of an error.
\<close>

record env =
  uniLower :: "string \<Rightarrow> string"
  mdRange :: "MD \<Rightarrow> string list"
  mdJoin :: "MD list \<Rightarrow> MD"
  stFromError :: "gerr \<Rightarrow> Status \<times> bool"
  stFromContextError :: "gerr \<Rightarrow> Status"
  stErr :: "Status \<Rightarrow> gerr option"
  errText :: "gerr \<Rightarrow> string"

text \<open>The values a map holds for a key; a missing key reads as the nil slice.\<close>

definition md_get :: "MD \<Rightarrow> string \<Rightarrow> string list" where
  "md_get m k = (case m k of None \<Rightarrow> [] | Some vs \<Rightarrow> vs)"

text \<open>\<^verbatim>\<open>metadata.Join\<close>: the values of a key, in the order the maps are presented.\<close>

definition join_ok :: "env \<Rightarrow> bool" where
  "join_ok env \<longleftrightarrow>
     (\<forall>mds k. mdJoin env mds k =
        (if \<exists>m \<in> set mds. m k \<noteq> None then Some (concat (map (\<lambda>m. md_get m k) mds)) else None))"

text \<open>\<^verbatim>\<open>range\<close> visits every key of a (finite) map once.\<close>

definition range_ok :: "env \<Rightarrow> bool" where
  "range_ok env \<longleftrightarrow>
     (\<forall>m. finite (dom m) \<longrightarrow> distinct (mdRange env m) \<and> set (mdRange env m) = dom m)"

text \<open>\<^verbatim>\<open>Status.Err\<close>: nil for code OK, otherwise the status as an error.\<close>

definition err_ok :: "env \<Rightarrow> bool" where
  "err_ok env \<longleftrightarrow> (\<forall>s. stErr env s = (if stCode s = code_OK then None else Some (StatusErr s)))"

text \<open>\<^verbatim>\<open>status.FromError\<close>: the status of a status error; code \<open>Unknown\<close> and the error's text, with
  \<open>False\<close>, for an error that is neither a status error nor wraps one.\<close>

fun has_status :: "gerr \<Rightarrow> bool" where
  "has_status (StatusErr s) = True"
| "has_status (Wrap e m) = has_status e"
| "has_status e = False"

definition from_error_ok :: "env \<Rightarrow> bool" where
  "from_error_ok env \<longleftrightarrow>
     (\<forall>s. stFromError env (StatusErr s) = (s, True)) \<and>
     (\<forall>e. \<not> has_status e \<longrightarrow> stFromError env e =
        (\<lparr>stCode = code_Unknown, stMessage = errText env e, stDetails = []\<rparr>, False))"

text \<open>\<^verbatim>\<open>status.FromContextError\<close>: the code of a context error, \<open>Unknown\<close> for any other.\<close>

definition from_context_ok :: "env \<Rightarrow> bool" where
  "from_context_ok env \<longleftrightarrow>
     (\<forall>e. stCode (stFromContextError env e) =
        (if errors_Is e DeadlineExceeded then code_DeadlineExceeded
         else if errors_Is e Canceled then code_Canceled else code_Unknown))"

text \<open>
  The message codec of \<^verbatim>\<open>grpc/encoding/proto\<close>: \<^verbatim>\<open>Marshal\<close> gives a \<^verbatim>\<open>mem.BufferSlice\<close>, a list of buffers;
  \<^verbatim>\<open>Materialize\<close> flattens it (into a slice that may be nil); \<^verbatim>\<open>Unmarshal\<close> reads a flat buffer.
  What the code relies on: unmarshalling undoes marshalling, and a nil buffer is the zero message.
\<close>

record 'm codec =
  Marshal :: "'m \<Rightarrow> gerr + bytes list"
  Materialize :: "bytes list \<Rightarrow> bytes option"
  Unmarshal :: "bytes option \<Rightarrow> gerr + 'm"
  zeroMsg :: "'m"

definition codec_law :: "'m codec \<Rightarrow> bool" where
  "codec_law cd \<longleftrightarrow>
     (\<forall>msg bs. Marshal cd msg = Inr bs \<longrightarrow> Unmarshal cd (Materialize cd bs) = Inr msg) \<and>
     Unmarshal cd None = Inr (zeroMsg cd)"

text \<open>What the code reads of a \<^verbatim>\<open>grpc.StreamDesc\<close>, apart from its handler.\<close>

record StreamDesc =
  StreamName :: string
  ServerStreams :: bool
  ClientStreams :: bool

section \<open>A concrete environment\<close>

text \<open>An instance of the parameters that has the documented behaviour; the witnesses of
  properties with hypotheses on the environment use it.\<close>

fun unwrap_status :: "gerr \<Rightarrow> Status option" where
  "unwrap_status (StatusErr s) = Some s"
| "unwrap_status (Wrap e m) = unwrap_status e"
| "unwrap_status e = None"

definition sample_env :: env where
  "sample_env =
     \<lparr>uniLower = id,
      mdRange = (\<lambda>m. sorted_list_of_set (dom m)),
      mdJoin = (\<lambda>mds k. if \<exists>m \<in> set mds. m k \<noteq> None
                        then Some (concat (map (\<lambda>m. md_get m k) mds)) else None),
      stFromError = (\<lambda>e. case unwrap_status e of
          Some s \<Rightarrow> (s, True)
        | None \<Rightarrow> (\<lparr>stCode = code_Unknown, stMessage = ''error'', stDetails = []\<rparr>, False)),
      stFromContextError = (\<lambda>e.
          \<lparr>stCode = (if errors_Is e DeadlineExceeded then code_DeadlineExceeded
                     else if errors_Is e Canceled then code_Canceled else code_Unknown),
           stMessage = ''error'', stDetails = []\<rparr>),
      stErr = (\<lambda>s. if stCode s = code_OK then None else Some (StatusErr s)),
      errText = (\<lambda>e. ''error'')\<rparr>"

lemma unwrap_status_None: "\<not> has_status e \<Longrightarrow> unwrap_status e = None"
  by (induction e) auto

lemma sample_join_ok [simp]: "join_ok sample_env"
  by (simp add: join_ok_def sample_env_def)

lemma sample_range_ok [simp]: "range_ok sample_env"
  by (simp add: range_ok_def sample_env_def)

lemma sample_err_ok [simp]: "err_ok sample_env"
  by (simp add: err_ok_def sample_env_def)

lemma sample_from_error_ok [simp]: "from_error_ok sample_env"
  by (simp add: from_error_ok_def sample_env_def unwrap_status_None)

lemma sample_from_context_ok [simp]: "from_context_ok sample_env"
  by (simp add: from_context_ok_def sample_env_def)

text \<open>A codec for byte strings: one buffer, nil when empty.\<close>

definition sample_codec :: "bytes codec" where
  "sample_codec =
     \<lparr>Marshal = (\<lambda>msg. Inr [msg]),
      Materialize = (\<lambda>bs. if concat bs = [] then None else Some (concat bs)),
      Unmarshal = (\<lambda>d. Inr (case d of None \<Rightarrow> [] | Some bs \<Rightarrow> bs)),
      zeroMsg = []\<rparr>"

lemma sample_codec_law [simp]: "codec_law sample_codec"
  by (simp add: codec_law_def sample_codec_def)

text \<open>Consequences of the documented behaviour that the components use.\<close>

lemma codec_lawD:
  "codec_law cd \<Longrightarrow> Marshal cd msg = Inr bs \<Longrightarrow> Unmarshal cd (Materialize cd bs) = Inr msg"
  by (simp add: codec_law_def)

lemma err_okD:
  "err_ok env \<Longrightarrow> stErr env s = (if stCode s = code_OK then None else Some (StatusErr s))"
  by (simp add: err_ok_def)

lemma join_okD:
  "join_ok env \<Longrightarrow> mdJoin env mds k =
     (if \<exists>m \<in> set mds. m k \<noteq> None then Some (concat (map (\<lambda>m. md_get m k) mds)) else None)"
  by (simp add: join_ok_def)

lemma join_finite:
  assumes "join_ok env" "\<forall>m \<in> set mds. finite (dom m)"
  shows "finite (dom (mdJoin env mds))"
proof -
  have "dom (mdJoin env mds) = (\<Union>m \<in> set mds. dom m)"
    by (auto simp: join_okD[OF assms(1)] dom_def split: if_splits)
  with assms(2) show ?thesis by simp
qed

lemma join_Nil: "join_ok env \<Longrightarrow> mdJoin env [] = Map.empty"
  by (simp add: join_okD fun_eq_iff)

lemma range_empty: "range_ok env \<Longrightarrow> mdRange env Map.empty = []"
  by (auto simp: range_ok_def dest!: spec[of _ Map.empty])

end
