(* ===== verification/Goat_Util.thy ===== *)
theory Goat_Util
  imports Goat_Rpc
begin

text \<open>
  \<^verbatim>\<open>internal/util.go\<close>: metadata to and from wire key/values, and the stats callbacks around an RPC.
  The main lemma is the round trip of metadata through the wire form. Stats handlers are
  application code: a call to the \<open>i\<close>-th handler is recorded as an event of a trace.
\<close>

section \<open>Metadata and key/values\<close>

definition bin_suffix :: string where
  "bin_suffix = ''-bin''"

text \<open>One key/value: the value of a key ending in \<open>-bin\<close> is base-64 encoded.\<close>

definition to_kv :: "env \<Rightarrow> string \<Rightarrow> string \<Rightarrow> KeyValue" where
  "to_kv env k v =
     (let lowerK = ToLower (uniLower env) k
      in if HasSuffix lowerK bin_suffix then \<lparr>kvKey = k, kvValue = URLEncode v\<rparr>
         else \<lparr>kvKey = k, kvValue = v\<rparr>)"

definition ToKeyValue :: "env \<Rightarrow> MD list \<Rightarrow> KeyValue list" where
  "ToKeyValue env mds =
     (let m = mdJoin env mds
      in concat (map (\<lambda>k. map (to_kv env k) (md_get m k)) (mdRange env m)))"

text \<open>\<open>md[k] = append(md[k], v)\<close>\<close>

definition md_append :: "MD \<Rightarrow> string \<Rightarrow> string \<Rightarrow> MD" where
  "md_append m k v = m(k \<mapsto> md_get m k @ [v])"

fun ToMetadata_loop :: "env \<Rightarrow> MD \<Rightarrow> KeyValue list \<Rightarrow> gerr + MD" where
  "ToMetadata_loop env m [] = Inr m"
| "ToMetadata_loop env m (h # hs) =
     (let k = ToLower (uniLower env) (kvKey h); v = kvValue h
      in if HasSuffix k bin_suffix
         then (case URLDecode v of
                 None \<Rightarrow> Inl (External ''illegal base64 data'')
               | Some vv \<Rightarrow> ToMetadata_loop env (md_append m k vv) hs)
         else ToMetadata_loop env (md_append m k v) hs)"

definition ToMetadata :: "env \<Rightarrow> KeyValue list \<Rightarrow> gerr + MD" where
  "ToMetadata env kvs = ToMetadata_loop env Map.empty kvs"

text \<open>What one wire entry contributes: its lower-cased key and decoded value.\<close>

definition kv_decode :: "env \<Rightarrow> KeyValue \<Rightarrow> (string \<times> string) option" where
  "kv_decode env h =
     (let k = ToLower (uniLower env) (kvKey h)
      in if HasSuffix k bin_suffix then map_option (Pair k) (URLDecode (kvValue h))
         else Some (k, kvValue h))"

text \<open>An entry the receiver cannot decode.\<close>

definition kv_bad :: "env \<Rightarrow> KeyValue \<Rightarrow> bool" where
  "kv_bad env h \<longleftrightarrow> kv_decode env h = None"

lemma ToMetadata_loop_Cons:
  "ToMetadata_loop env m (h # hs) =
     (case kv_decode env h of
        None \<Rightarrow> Inl (External ''illegal base64 data'')
      | Some (k, v) \<Rightarrow> ToMetadata_loop env (md_append m k v) hs)"
  by (auto simp: kv_decode_def Let_def split: option.split)

declare ToMetadata_loop.simps(2) [simp del]
declare ToMetadata_loop_Cons [simp]

lemma ToMetadata_loop_fails_iff:
  "(\<exists>e. ToMetadata_loop env m hs = Inl e) \<longleftrightarrow> (\<exists>h \<in> set hs. kv_bad env h)"
  by (induction hs arbitrary: m) (auto simp: kv_bad_def split: option.splits)

text \<open>\<open>ToMetadata\<close> fails exactly when some \<open>-bin\<close> value is not valid base-64.\<close>

lemma ToMetadata_fails_iff:
  "(\<exists>e. ToMetadata env kvs = Inl e) \<longleftrightarrow> (\<exists>h \<in> set kvs. kv_bad env h)"
  by (simp add: ToMetadata_def ToMetadata_loop_fails_iff)

lemma ToMetadata_Nil [simp]: "ToMetadata env [] = Inr Map.empty"
  by (simp add: ToMetadata_def)

lemma md_get_append [simp]:
  "md_get (md_append m k v) j = (if j = k then md_get m k @ [v] else md_get m j)"
  by (simp add: md_append_def md_get_def)

lemma ToMetadata_loop_get:
  "ToMetadata_loop env m hs = Inr m' \<Longrightarrow>
     md_get m' k = md_get m k @
       map snd (filter (\<lambda>p. fst p = k) (map (the \<circ> kv_decode env) hs))"
proof (induction hs arbitrary: m)
  case (Cons h hs)
  then show ?case by (cases "kv_decode env h") (auto split: prod.splits)
qed simp

text \<open>The values of a key are the decoded values of the entries with that key, in order.\<close>

lemma ToMetadata_get:
  "ToMetadata env kvs = Inr m \<Longrightarrow>
     md_get m k = map snd (filter (\<lambda>p. fst p = k) (map (the \<circ> kv_decode env) kvs))"
  using ToMetadata_loop_get[of env Map.empty kvs m k] by (simp add: ToMetadata_def md_get_def)

section \<open>The round trip\<close>

text \<open>The entries of a lower-case ASCII key decode to themselves.\<close>

lemma kv_decode_to_kv [simp]:
  "is_lower_ascii k \<Longrightarrow> kv_decode env (to_kv env k v) = Some (k, v)"
  by (simp add: kv_decode_def to_kv_def Let_def)

lemma ToMetadata_loop_append:
  "ToMetadata_loop env m (xs @ ys) =
     (case ToMetadata_loop env m xs of Inl e \<Rightarrow> Inl e | Inr m' \<Rightarrow> ToMetadata_loop env m' ys)"
  by (induction xs arbitrary: m) (auto split: option.split)

definition md_add :: "MD \<Rightarrow> string \<Rightarrow> string list \<Rightarrow> MD" where
  "md_add m k vs = (if vs = [] then m else m(k \<mapsto> md_get m k @ vs))"

lemma md_add_append: "md_add (md_append m k v) k vs = md_add m k (v # vs)"
  by (auto simp: md_add_def md_append_def md_get_def)

lemma ToMetadata_loop_values:
  "is_lower_ascii k \<Longrightarrow> ToMetadata_loop env m (map (to_kv env k) vs) = Inr (md_add m k vs)"
  by (induction vs arbitrary: m) (simp_all add: md_add_append, simp add: md_add_def)

lemma ToMetadata_loop_keys:
  assumes "list_all is_lower_ascii ks"
  shows "ToMetadata_loop env m (concat (map (\<lambda>k. map (to_kv env k) (f k)) ks))
           = Inr (fold (\<lambda>k m. md_add m k (f k)) ks m)"
  using assms
  by (induction ks arbitrary: m) (auto simp: ToMetadata_loop_append ToMetadata_loop_values)

lemma fold_md_add:
  "distinct ks \<Longrightarrow>
     fold (\<lambda>k m. md_add m k (f k)) ks m j =
       (if j \<in> set ks \<and> f j \<noteq> [] then Some (md_get m j @ f j) else m j)"
  by (induction ks arbitrary: m) (auto simp: md_add_def md_get_def)

text \<open>The metadata a receiver reads: the sender's, less the keys without a value.\<close>

definition md_strip :: "MD \<Rightarrow> MD" where
  "md_strip m = (\<lambda>k. if md_get m k = [] then None else m k)"

lemma ToMetadata_ToKeyValue:
  assumes "range_ok env" and fin: "finite (dom (mdJoin env mds))"
    and low: "\<forall>k \<in> dom (mdJoin env mds). is_lower_ascii k"
  shows "ToMetadata env (ToKeyValue env mds) = Inr (md_strip (mdJoin env mds))"
proof -
  let ?m = "mdJoin env mds"
  have d: "distinct (mdRange env ?m)" and s: "set (mdRange env ?m) = dom ?m"
    using assms(1) fin by (auto simp: range_ok_def)
  have "ToMetadata env (ToKeyValue env mds)
      = Inr (fold (\<lambda>k m. md_add m k (md_get ?m k)) (mdRange env ?m) Map.empty)"
    using low s by (simp add: ToMetadata_def ToKeyValue_def Let_def ToMetadata_loop_keys list_all_iff)
  also have "fold (\<lambda>k m. md_add m k (md_get ?m k)) (mdRange env ?m) Map.empty = md_strip ?m"
    using d s by (auto simp: fold_md_add md_strip_def md_get_def fun_eq_iff split: option.splits)
  finally show ?thesis .
qed

lemma ToKeyValue_Nil [simp]: "join_ok env \<Longrightarrow> range_ok env \<Longrightarrow> ToKeyValue env [] = []"
  by (simp add: ToKeyValue_def join_Nil range_empty)

section \<open>Stats callbacks\<close>

text \<open>The stats events the code raises, with the fields that depend on the call; times and
  payload objects are left out. An event is recorded with the index of its handler.\<close>

datatype stats_event =
    EvTagRPC string
  | EvBegin bool bool bool
  | EvInHeader bool string MD
  | EvOutHeader bool string MD
  | EvInPayload bool nat
  | EvOutPayload bool nat
  | EvOutTrailer bool MD
  | EvEnd bool "gerr option"
  | EvTagConn
  | EvConnBegin bool
  | EvConnEnd bool

type_synonym trace = "(nat \<times> stats_event) list"

text \<open>A loop over the handlers that raises the same events at each.\<close>

definition stats_all :: "nat \<Rightarrow> stats_event list \<Rightarrow> trace" where
  "stats_all n evs = concat (map (\<lambda>i. map (Pair i) evs) [0..<n])"

text \<open>\<open>tag i m ctx\<close> is the context the \<open>i\<close>-th handler's \<^verbatim>\<open>TagRPC\<close> returns.\<close>

type_synonym tagger = "nat \<Rightarrow> string \<Rightarrow> Context \<Rightarrow> Context"

definition StatsStartServerRPC ::
  "tagger \<Rightarrow> nat \<Rightarrow> bool \<Rightarrow> string \<Rightarrow> bool \<Rightarrow> bool \<Rightarrow> Context \<Rightarrow> Context \<times> trace" where
  "StatsStartServerRPC tag n isClient method isClientStream isServerStream ctx =
     (if n = 0 then (ctx, [])
      else let incomingMetadata = (case ctxIncoming ctx of Some m \<Rightarrow> m | None \<Rightarrow> Map.empty)
           in (fold (\<lambda>i c. tag i method c) [0..<n] ctx,
               stats_all n
                 ([EvTagRPC method, EvBegin isClient isClientStream isServerStream] @
                  (if isClient then [] else [EvInHeader isClient method incomingMetadata]))))"

definition StatsEndRPC :: "nat \<Rightarrow> bool \<Rightarrow> gerr option \<Rightarrow> trace" where
  "StatsEndRPC n isClient appErr =
     stats_all n
       [EvEnd isClient
          (case appErr of None \<Rightarrow> None | Some e \<Rightarrow> if errors_Is e EOF then None else Some e)]"

text \<open>What one handler sees of a trace.\<close>

definition seen_by :: "nat \<Rightarrow> trace \<Rightarrow> stats_event list" where
  "seen_by i tr = map snd (filter (\<lambda>p. fst p = i) tr)"

lemma seen_by_append [simp]: "seen_by i (xs @ ys) = seen_by i xs @ seen_by i ys"
  by (simp add: seen_by_def)

lemma seen_by_Nil [simp]: "seen_by i [] = []"
  by (simp add: seen_by_def)

lemma seen_by_Pair: "seen_by i (map (Pair j) evs) = (if i = j then evs else [])"
  by (auto simp: seen_by_def filter_map comp_def)

text \<open>Every handler sees the events of a loop once, in order.\<close>

lemma seen_by_stats_all [simp]: "seen_by i (stats_all n evs) = (if i < n then evs else [])"
proof (induction n)
  case (Suc n)
  then show ?case by (auto simp: stats_all_def seen_by_Pair)
qed (simp add: stats_all_def)

end
