(* ===== verification/Goat_Transport.thy ===== *)
theory Goat_Transport
  imports Goat_Util
begin

text \<open>
  The transport interface \<^verbatim>\<open>types.RpcReadWriter\<close> and its implementations: a pair of channels
  (\<^verbatim>\<open>channel.go\<close>), a websocket (\<^verbatim>\<open>websocket.go\<close>), a length-prefixed byte pipe and a test connection
  (\<^verbatim>\<open>internal/testutil/\<close>). What writers promise their clients is the locale \<open>rpc_writer\<close>,
  interpreted on the channel transport and the test connection.
\<close>

unbundle bit_operations_syntax

section \<open>The interface\<close>

text \<open>
  \<open>wr ctx rpc t\<close> is the outcome of \<^verbatim>\<open>Write\<close> in transport state \<open>t\<close>; \<open>sent t\<close> is what the peer
  has still to read. A write that returns nil has appended exactly its message; one that returns
  an error has sent nothing.
\<close>

locale rpc_writer =
  fixes wr :: "Context \<Rightarrow> Rpc \<Rightarrow> 't \<Rightarrow> (gerr option \<times> 't) go"
    and sent :: "'t \<Rightarrow> Rpc list"
  assumes write_nil: "wr ctx rpc t = Ret (None, t') \<Longrightarrow> sent t' = sent t @ [rpc]"
    and write_err: "wr ctx rpc t = Ret (Some e, t') \<Longrightarrow> sent t' = sent t"

section \<open>channel.go\<close>

record chan_rw =
  inQ :: "Rpc chan"
  outQ :: "Rpc chan"

definition NewGoatOverChannel :: "Rpc chan \<Rightarrow> Rpc chan \<Rightarrow> chan_rw" where
  "NewGoatOverChannel i oq = \<lparr>inQ = i, outQ = oq\<rparr>"

definition goc_read :: "bool \<Rightarrow> Context \<Rightarrow> chan_rw \<Rightarrow> ((gerr + Rpc) \<times> chan_rw) go" where
  "goc_read pick ctx t =
     select2 pick
       (on_done ctx (\<lambda>e. (Inl e, t)))
       (go_bind (chan_recv (inQ t)) (\<lambda>(v, q).
          case v of
            None \<Rightarrow> Ret (Inl (Errorf ''read channel closed''), t\<lparr>inQ := q\<rparr>)
          | Some rpc \<Rightarrow> Ret (Inr rpc, t\<lparr>inQ := q\<rparr>)))"

definition goc_write :: "bool \<Rightarrow> Context \<Rightarrow> Rpc \<Rightarrow> chan_rw \<Rightarrow> (gerr option \<times> chan_rw) go" where
  "goc_write pick ctx rpc t =
     select2 pick
       (on_done ctx (\<lambda>e. (Some e, t)))
       (go_bind (chan_send (outQ t) rpc) (\<lambda>q. Ret (None, t\<lparr>outQ := q\<rparr>)))"

lemma goc_write_cases:
  assumes "goc_write pick ctx rpc t = Ret (r, t')"
  obtains (ctx) e where "ctxErr ctx = Some e" "r = Some e" "t' = t"
  | (sent) q where "chan_send (outQ t) rpc = Ret q" "r = None" "t' = t\<lparr>outQ := q\<rparr>"
  using select2_RetD[OF assms[unfolded goc_write_def]]
  by (auto simp: go_bind_Ret_iff)

interpretation goc: rpc_writer "goc_write pick" "\<lambda>t. buf (outQ t)" for pick
  by unfold_locales (auto elim!: goc_write_cases simp: chan_simps)

text \<open>A read that returns a message takes the oldest one; it never invents one.\<close>

lemma goc_read_Inr:
  "goc_read pick ctx t = Ret (Inr rpc, t') \<Longrightarrow>
     buf (inQ t) = rpc # buf (inQ t') \<and> outQ t' = outQ t"
  by (auto simp: goc_read_def go_bind_Ret_iff chan_simps split: option.splits dest!: select2_RetD)

text \<open>A write blocks exactly while the context is live, the queue is open and full.\<close>

lemma goc_write_Block_iff:
  "goc_write pick ctx rpc t = Block \<longleftrightarrow>
     \<not> ctx_done ctx \<and> \<not> closed (outQ t) \<and> cap (outQ t) + waiting (outQ t) \<le> length (buf (outQ t))"
  by (auto simp: goc_write_def go_bind_Block_iff chan_simps ctx_done_def)

text \<open>\<^verbatim>\<open>NewGoatOverChannel\<close> returns the two functions as one \<^verbatim>\<open>RpcReadWriter\<close> (\<^verbatim>\<open>internal/util.go\<close>), which is a writer like
  the function it was made from.\<close>

record 't fnReadWriter =
  frwR :: "Context \<Rightarrow> 't \<Rightarrow> ((gerr + Rpc) \<times> 't) go"
  frwW :: "Context \<Rightarrow> Rpc \<Rightarrow> 't \<Rightarrow> (gerr option \<times> 't) go"

definition NewFnReadWriter ::
  "(Context \<Rightarrow> 't \<Rightarrow> ((gerr + Rpc) \<times> 't) go) \<Rightarrow> (Context \<Rightarrow> Rpc \<Rightarrow> 't \<Rightarrow> (gerr option \<times> 't) go) \<Rightarrow> 't fnReadWriter" where
  "NewFnReadWriter r w = \<lparr>frwR = r, frwW = w\<rparr>"

definition frw_Read :: "'t fnReadWriter \<Rightarrow> Context \<Rightarrow> 't \<Rightarrow> ((gerr + Rpc) \<times> 't) go" where
  "frw_Read frw ctx t = frwR frw ctx t"

definition frw_Write :: "'t fnReadWriter \<Rightarrow> Context \<Rightarrow> Rpc \<Rightarrow> 't \<Rightarrow> (gerr option \<times> 't) go" where
  "frw_Write frw ctx rpc t = frwW frw ctx rpc t"

interpretation gocfn: rpc_writer "frw_Write (NewFnReadWriter (goc_read p) (goc_write q))" "\<lambda>t. buf (outQ t)" for p q
  unfolding frw_Write_def NewFnReadWriter_def fnReadWriter.simps by (rule goc.rpc_writer_axioms)

section \<open>websocket.go\<close>

datatype MessageType = MessageText | MessageBinary

text \<open>The connection's \<^verbatim>\<open>Read\<close> and \<^verbatim>\<open>Write\<close> and the protobuf codec are parameters.\<close>

record 'c goatOverWebsocket =
  wsConn :: 'c

definition errNonBinaryWebsocketMessage :: gerr where
  "errNonBinaryWebsocketMessage = Errorf ''invalid websocket message: not binary''"

definition NewGoatOverWebsocket :: "'c \<Rightarrow> 'c goatOverWebsocket" where
  "NewGoatOverWebsocket ws = \<lparr>wsConn = ws\<rparr>"

definition ws_Read ::
  "(bytes \<Rightarrow> gerr + Rpc) \<Rightarrow> (Context \<Rightarrow> 'c \<Rightarrow> (gerr + MessageType \<times> bytes) \<times> 'c) \<Rightarrow> Context \<Rightarrow> 'c goatOverWebsocket \<Rightarrow>
   (gerr + Rpc) \<times> 'c goatOverWebsocket" where
  "ws_Read unmarshal connRead ctx ws =
     (case connRead ctx (wsConn ws) of (res, c) \<Rightarrow>
        (case res of
           Inl err \<Rightarrow> Inl err
         | Inr (typ, data) \<Rightarrow>
             if typ \<noteq> MessageBinary then Inl errNonBinaryWebsocketMessage
             else (case unmarshal data of Inl err \<Rightarrow> Inl err | Inr rpc \<Rightarrow> Inr rpc),
         \<lparr>wsConn = c\<rparr>))"

definition ws_Write ::
  "(Rpc \<Rightarrow> gerr + bytes) \<Rightarrow> (Context \<Rightarrow> MessageType \<times> bytes \<Rightarrow> 'c \<Rightarrow> gerr option \<times> 'c) \<Rightarrow> Context \<Rightarrow> Rpc \<Rightarrow>
   'c goatOverWebsocket \<Rightarrow> gerr option \<times> 'c goatOverWebsocket" where
  "ws_Write marshal connWrite ctx pkt ws =
     (case marshal pkt of
        Inl err \<Rightarrow> (Some err, ws)
      | Inr data \<Rightarrow> (case connWrite ctx (MessageBinary, data) (wsConn ws) of (err, c) \<Rightarrow> (err, \<lparr>wsConn = c\<rparr>)))"

text \<open>What the callers of a protobuf codec rely on: unmarshalling undoes marshalling, but for empty slices.\<close>

definition codec_ok :: "(Rpc \<Rightarrow> gerr + bytes) \<Rightarrow> (bytes \<Rightarrow> gerr + Rpc) \<Rightarrow> bool" where
  "codec_ok marshal unmarshal \<longleftrightarrow> (\<forall>m b. marshal m = Inr b \<longrightarrow> unmarshal b = Inr (wire_rpc m))"

text \<open>What a write that succeeded gave to the connection, a read of the peer's connection that returns it decodes.\<close>

lemma ws_roundtrip:
  assumes "codec_ok marshal unmarshal" and "ws_Write marshal connWrite ctx pkt ws = (None, ws')"
  shows "\<exists>frame. connWrite ctx frame (wsConn ws) = (None, wsConn ws') \<and>
    (\<forall>connRead c c'. connRead ctx' c = (Inr frame, c') \<longrightarrow>
       ws_Read unmarshal connRead ctx' (NewGoatOverWebsocket c) = (Inr (wire_rpc pkt), NewGoatOverWebsocket c'))"
proof -
  from assms(2) obtain data where d: "marshal pkt = Inr data" by (auto simp: ws_Write_def split: sum.splits)
  with assms(1) have "unmarshal data = Inr (wire_rpc pkt)" by (simp add: codec_ok_def)
  moreover from assms(2) d have "connWrite ctx (MessageBinary, data) (wsConn ws) = (None, wsConn ws')"
    by (auto simp: ws_Write_def split: prod.splits)
  ultimately show ?thesis
    by (intro exI[of _ "(MessageBinary, data)"]) (simp add: ws_Read_def NewGoatOverWebsocket_def)
qed

section \<open>internal/testutil/pipe.go\<close>

text \<open>Big-endian \<^verbatim>\<open>uint32\<close>, as \<^verbatim>\<open>encoding/binary\<close> writes and reads it.\<close>

definition be32_bytes :: "u32 \<Rightarrow> bytes" where
  "be32_bytes n =
     [ucast (drop_bit 24 n), ucast (drop_bit 16 n), ucast (drop_bit 8 n), ucast n]"

definition be32_word :: "bytes \<Rightarrow> u32" where
  "be32_word bs =
     ucast (bs ! 3) OR push_bit 8 (ucast (bs ! 2)) OR push_bit 16 (ucast (bs ! 1))
       OR push_bit 24 (ucast (bs ! 0))"

text \<open>The bytes one \<^verbatim>\<open>Write\<close> puts on the pipe; \<^verbatim>\<open>uint32(len(data))\<close> wraps.\<close>

definition pipe_frame :: "bytes \<Rightarrow> bytes" where
  "pipe_frame data = be32_bytes (of_nat (length data)) @ data"

text \<open>
  A network connection: the bytes the reader has still to take, and how the stream ends after them
  (nothing yet, \<^verbatim>\<open>io.EOF\<close>, or another error). \<^verbatim>\<open>io.ReadFull\<close>, on which \<^verbatim>\<open>binary.Read\<close> rests too: all bytes asked for, or
  the error, \<^verbatim>\<open>io.ErrUnexpectedEOF\<close> when the stream ends in between; it waits while the stream is open.
\<close>

record net_conn =
  ncBytes :: bytes
  ncEnd :: "gerr option"

definition ErrUnexpectedEOF :: gerr where
  "ErrUnexpectedEOF = External ''unexpected EOF''"

definition ReadFull :: "nat \<Rightarrow> net_conn \<Rightarrow> ((gerr + bytes) \<times> net_conn) go" where
  "ReadFull n c =
     (if n \<le> length (ncBytes c)
      then Ret (Inr (take n (ncBytes c)), c\<lparr>ncBytes := drop n (ncBytes c)\<rparr>)
      else (case ncEnd c of
              None \<Rightarrow> Block
            | Some e \<Rightarrow> Ret (Inl (if e = EOF \<and> ncBytes c \<noteq> [] then ErrUnexpectedEOF else e), c\<lparr>ncBytes := []\<rparr>)))"

text \<open>\<^verbatim>\<open>Read\<close>: four bytes of length, then that many bytes; a message that does not decode panics.\<close>

definition pipe_Read :: "(bytes \<Rightarrow> gerr + Rpc) \<Rightarrow> net_conn \<Rightarrow> ((gerr + Rpc) \<times> net_conn) go" where
  "pipe_Read unmarshal c =
     go_bind (ReadFull 4 c) (\<lambda>(hdr, c1).
       case hdr of
         Inl err \<Rightarrow> Ret (Inl err, c1)
       | Inr sz \<Rightarrow>
           go_bind (ReadFull (unat (be32_word sz)) c1) (\<lambda>(res, c2).
             case res of
               Inl err \<Rightarrow> Ret (Inl err, c2)
             | Inr data \<Rightarrow>
                 (case unmarshal data of
                    Inl err \<Rightarrow> Panic
                  | Inr rpc \<Rightarrow> Ret (Inr rpc, c2))))"

text \<open>\<^verbatim>\<open>Write\<close>: an expired context is reported before anything is written, a marshal error panics; then two writes
  of the connection, \<open>cw\<close>, the second only when the first succeeded.\<close>

definition pipe_Write ::
  "(Rpc \<Rightarrow> gerr + bytes) \<Rightarrow> (bytes \<Rightarrow> 'c \<Rightarrow> gerr option \<times> 'c) \<Rightarrow> Context \<Rightarrow> Rpc \<Rightarrow> 'c \<Rightarrow> (gerr option \<times> 'c) go" where
  "pipe_Write marshal cw ctx pkt c =
     (case ctxErr ctx of
        Some e \<Rightarrow> Ret (Some e, c)
      | None \<Rightarrow>
          (case marshal pkt of
             Inl err \<Rightarrow> Panic
           | Inr data \<Rightarrow>
               (case cw (be32_bytes (of_nat (length data))) c of
                  (Some err, c1) \<Rightarrow> Ret (Some err, c1)
                | (None, c1) \<Rightarrow> Ret (cw data c1))))"

section \<open>internal/testutil/testutil.go\<close>

text \<open>
  The test connection: three channels, an injected error, and the numbers of calls in progress. A call enters (which
  counts it and reads the injected error), selects, and leaves. The reads in \<open>tcReadChan\<close> are results.
\<close>

record TestConn =
  tcReadChan :: "(gerr + Rpc) chan"
  tcWriteChan :: "Rpc chan"
  tcErrorChan :: "gerr chan"
  tcError :: "gerr option"
  tcReaders :: nat
  tcWriters :: nat

definition NewTestConn :: TestConn where
  "NewTestConn =
     \<lparr>tcReadChan = make_chan 0, tcWriteChan = make_chan 0, tcErrorChan = make_chan 2, tcError = None,
      tcReaders = 0, tcWriters = 0\<rparr>"

text \<open>The case of the select that takes an injected error.\<close>

definition on_error :: "TestConn \<Rightarrow> (gerr \<Rightarrow> 'a) \<Rightarrow> ('a \<times> TestConn) go" where
  "on_error c f =
     go_bind (chan_recv (tcErrorChan c)) (\<lambda>(v, q).
       case v of None \<Rightarrow> Block | Some e \<Rightarrow> Ret (f e, c\<lparr>tcErrorChan := q\<rparr>))"

definition tc_Read :: "bool \<Rightarrow> bool \<Rightarrow> Context \<Rightarrow> TestConn \<Rightarrow> ((gerr + Rpc) \<times> TestConn) go" where
  "tc_Read p q ctx c0 =
     (let c = c0\<lparr>tcReaders := tcReaders c0 + 1\<rparr>
      in go_bind
           (case tcError c of
              Some err \<Rightarrow> Ret (Inl err, c)
            | None \<Rightarrow>
                select2 p
                  (go_bind (chan_recv (tcReadChan c)) (\<lambda>(v, ch).
                     case v of None \<Rightarrow> Block | Some rr \<Rightarrow> Ret (rr, c\<lparr>tcReadChan := ch\<rparr>)))
                  (select2 q (on_done ctx (\<lambda>e. (Inl e, c))) (on_error c Inl)))
           (\<lambda>(res, c1). Ret (res, c1\<lparr>tcReaders := tcReaders c1 - 1\<rparr>)))"

definition tc_Write :: "bool \<Rightarrow> bool \<Rightarrow> Context \<Rightarrow> Rpc \<Rightarrow> TestConn \<Rightarrow> (gerr option \<times> TestConn) go" where
  "tc_Write p q ctx rpc c0 =
     (let c = c0\<lparr>tcWriters := tcWriters c0 + 1\<rparr>
      in go_bind
           (case tcError c of
              Some err \<Rightarrow> Ret (Some err, c)
            | None \<Rightarrow>
                select2 p
                  (on_done ctx (\<lambda>e. (Some e, c)))
                  (select2 q
                     (go_bind (chan_send (tcWriteChan c) rpc) (\<lambda>ch. Ret (None, c\<lparr>tcWriteChan := ch\<rparr>)))
                     (on_error c Some)))
           (\<lambda>(res, c1). Ret (res, c1\<lparr>tcWriters := tcWriters c1 - 1\<rparr>)))"

definition CurrentReaders :: "TestConn \<Rightarrow> nat" where
  "CurrentReaders c = tcReaders c"

definition CurrentWriters :: "TestConn \<Rightarrow> nat" where
  "CurrentWriters c = tcWriters c"

text \<open>\<^verbatim>\<open>InjectError\<close>: every later call fails, and one reader and one writer in progress are woken.\<close>

definition InjectError :: "gerr \<Rightarrow> TestConn \<Rightarrow> TestConn go" where
  "InjectError err c =
     (let c1 = c\<lparr>tcError := Some err\<rparr>
      in go_bind (chan_send (tcErrorChan c1) err) (\<lambda>q1.
           go_bind (chan_send q1 err) (\<lambda>q2. Ret (c1\<lparr>tcErrorChan := q2\<rparr>))))"

section \<open>Lemmas\<close>

text \<open>The test connection is a writer like the others.\<close>

lemma on_error_Ret: "on_error c f = Ret (x, c') \<Longrightarrow> \<exists>e. x = f e \<and> tcWriteChan c' = tcWriteChan c"
  by (auto simp: on_error_def go_bind_Ret_iff split: option.splits)

lemma tc_Write_cases:
  assumes "tc_Write p q ctx rpc c = Ret (r, c')"
  obtains (fail) e where "r = Some e" "tcWriteChan c' = tcWriteChan c"
  | (sent) ch where "r = None" "chan_send (tcWriteChan c) rpc = Ret ch" "tcWriteChan c' = ch"
proof (cases "tcError c")
  case (Some e)
  with assms have "r = Some e" "tcWriteChan c' = tcWriteChan c" by (auto simp: tc_Write_def)
  then show ?thesis by (rule fail)
next
  case None
  let ?c = "c\<lparr>tcWriters := tcWriters c + 1\<rparr>"
  from assms None obtain c1 where
    s: "select2 p (on_done ctx (\<lambda>e. (Some e, ?c)))
      (select2 q (go_bind (chan_send (tcWriteChan ?c) rpc) (\<lambda>ch. Ret (None, ?c\<lparr>tcWriteChan := ch\<rparr>))) (on_error ?c Some)) = Ret (r, c1)"
    and c': "tcWriteChan c' = tcWriteChan c1" by (auto simp: tc_Write_def Let_def go_bind_Ret_iff)
  from select2_RetD[OF s] show ?thesis
  proof
    assume "on_done ctx (\<lambda>e. (Some e, ?c)) = Ret (r, c1)"
    with fail c' show ?thesis by auto
  next
    assume "select2 q (go_bind (chan_send (tcWriteChan ?c) rpc) (\<lambda>ch. Ret (None, ?c\<lparr>tcWriteChan := ch\<rparr>))) (on_error ?c Some) = Ret (r, c1)"
    from select2_RetD[OF this] show ?thesis
    proof
      assume "go_bind (chan_send (tcWriteChan ?c) rpc) (\<lambda>ch. Ret (None, ?c\<lparr>tcWriteChan := ch\<rparr>)) = Ret (r, c1)"
      with sent c' show ?thesis by (auto simp: go_bind_Ret_iff)
    next
      assume "on_error ?c Some = Ret (r, c1)"
      from on_error_Ret[OF this] fail c' show ?thesis by auto
    qed
  qed
qed

interpretation tcw: rpc_writer "tc_Write p q" "\<lambda>c. buf (tcWriteChan c)" for p q
  by unfold_locales (auto elim!: tc_Write_cases simp: chan_simps)

text \<open>No call is counted twice or forgotten, and after an injected error every call fails with it.\<close>

lemma tc_counters:
  assumes "tc_Read p q ctx c = Ret (r, c')"
  shows "CurrentReaders c' = CurrentReaders c" and "CurrentWriters c' = CurrentWriters c"
  using assms
  by (auto simp: tc_Read_def Let_def go_bind_Ret_iff on_error_def CurrentReaders_def CurrentWriters_def
      split: option.splits dest!: select2_RetD)

lemma InjectError_fails:
  assumes "InjectError err c = Ret c'"
  shows "\<exists>d. tc_Read p q ctx c' = Ret (Inl err, d)" and "\<exists>d. tc_Write p q ctx rpc c' = Ret (Some err, d)"
  using assms by (auto simp: InjectError_def go_bind_Ret_iff tc_Read_def tc_Write_def Let_def)

lemma length_be32_bytes [simp]: "length (be32_bytes n) = 4"
  by (simp add: be32_bytes_def)

lemma be32_word_bytes [simp]: "be32_word (be32_bytes n) = n"
proof (rule bit_word_eqI)
  fix i assume "i < LENGTH(32)"
  then consider "i < 8" | "8 \<le> i" "i < 16" | "16 \<le> i" "i < 24" | "24 \<le> i" "i < 32"
    by force
  then show "bit (be32_word (be32_bytes n)) i = bit n i"
    by cases (auto simp: be32_word_def be32_bytes_def bit_simps)
qed

text \<open>A frame that arrives whole is read as its message, and what follows it stays.\<close>

lemma pipe_Read_frame:
  assumes "length data < 2 ^ 32" and "ncBytes c = pipe_frame data @ rest" and "unmarshal data = Inr rpc"
  shows "pipe_Read unmarshal c = Ret (Inr rpc, c\<lparr>ncBytes := rest\<rparr>)"
proof -
  have "unat (of_nat (length data) :: u32) = length data"
    using assms(1) by (simp add: unsigned_of_nat take_bit_nat_eq_self)
  with assms(2,3) show ?thesis by (simp add: pipe_Read_def ReadFull_def pipe_frame_def)
qed

fun pipe_write_all where
  "pipe_write_all marshal ctx [] c = Ret c"
| "pipe_write_all marshal ctx (m # ms) c =
     go_bind (pipe_Write marshal (\<lambda>bs c. (None, c\<lparr>ncBytes := ncBytes c @ bs\<rparr>)) ctx m c) (\<lambda>(err, c1).
       pipe_write_all marshal ctx ms c1)"

fun pipe_read_all where
  "pipe_read_all unmarshal 0 c = Ret ([], c)"
| "pipe_read_all unmarshal (Suc n) c =
     go_bind (pipe_Read unmarshal c) (\<lambda>(r, c1).
       go_bind (pipe_read_all unmarshal n c1) (\<lambda>(rs, c2). Ret (r # rs, c2)))"

lemma pipe_read_frames:
  assumes "\<forall>m \<in> set ms. \<exists>d. marshal m = Inr d \<and> unmarshal d = Inr m \<and> length d < 2 ^ 32"
    and "ncBytes c = concat (map (\<lambda>m. pipe_frame (projr (marshal m))) ms) @ rest"
  shows "pipe_read_all unmarshal (length ms) c = Ret (map Inr ms, c\<lparr>ncBytes := rest\<rparr>)"
  using assms
proof (induction ms arbitrary: c)
  case (Cons m ms)
  then obtain d where d: "marshal m = Inr d" "unmarshal d = Inr m" "length d < 2 ^ 32" by auto
  let ?rest = "concat (map (\<lambda>m. pipe_frame (projr (marshal m))) ms) @ rest"
  have "pipe_Read unmarshal c = Ret (Inr m, c\<lparr>ncBytes := ?rest\<rparr>)"
    using Cons.prems(2) d by (intro pipe_Read_frame[of d]) simp_all
  with Cons.IH[of "c\<lparr>ncBytes := ?rest\<rparr>"] Cons.prems(1) show ?case by simp
qed (simp add: net_conn.equality)

lemma pipe_write_frames:
  assumes "\<forall>m \<in> set ms. \<exists>d. marshal m = Inr d" and "ctxErr ctx = None"
  shows "pipe_write_all marshal ctx ms c =
    Ret (c\<lparr>ncBytes := ncBytes c @ concat (map (\<lambda>m. pipe_frame (projr (marshal m))) ms)\<rparr>)"
  using assms
proof (induction ms arbitrary: c)
  case (Cons m ms)
  then obtain d where "marshal m = Inr d" by auto
  with Cons show ?case by (simp add: pipe_Write_def pipe_frame_def)
qed simp

text \<open>What is written to an empty pipe is read back, message by message, in order, as long as no message has
  \<open>2 ^ 32\<close> bytes or more.\<close>

lemma pipe_roundtrip:
  assumes "\<forall>m \<in> set ms. \<exists>d. marshal m = Inr d \<and> unmarshal d = Inr m \<and> length d < 2 ^ 32"
    and "ctxErr ctx = None" and "ncBytes c = []"
  shows "go_bind (pipe_write_all marshal ctx ms c) (pipe_read_all unmarshal (length ms)) = Ret (map Inr ms, c)"
proof -
  have w: "pipe_write_all marshal ctx ms c = Ret (c\<lparr>ncBytes := concat (map (\<lambda>m. pipe_frame (projr (marshal m))) ms)\<rparr>)"
    using pipe_write_frames[of ms marshal ctx c] assms by auto
  show ?thesis unfolding w using pipe_read_frames[OF assms(1), of _ "[]"] assms(3) by simp
qed

end
