(* ===== verification/Goat_Conn_Table.thy ===== *)
theory Goat_Conn_Table
  imports Goat_Transport
begin

text \<open>
  The contract of the tables that map a peer's name to its connection, in the proxy, the demultiplexer
  and the HTTP transport: a lookup creates the connection when there is none, a removal forgets it.
  Connections are objects; the table holds references to them. The locale is interpreted in the three
  theories; its lemmas say that a peer keeps its connection and that no two peers share one.
\<close>

section \<open>The interface\<close>

text \<open>A history of a table: the lookups, as pairs of the connection found and the key, and the removals, as pairs of the
  number of lookups before and the key. A removal of the key between the lookups \<open>i\<close> and \<open>j\<close>:\<close>

definition removed_between :: "(nat \<times> string) list \<Rightarrow> string \<Rightarrow> nat \<Rightarrow> nat \<Rightarrow> bool" where
  "removed_between cs k i j \<longleftrightarrow> (\<exists>n. (n, k) \<in> set cs \<and> i < n \<and> n \<le> j)"

text \<open>\<open>tab\<close> is the table, \<open>size_of\<close> the number of connections made so far, \<open>retrieve\<close> returns a connection
  and whether it is new, \<open>remove\<close> forgets one.\<close>

locale conn_table =
  fixes tab :: "'s \<Rightarrow> string \<rightharpoonup> nat" and size_of :: "'s \<Rightarrow> nat"
    and retrieve :: "string \<Rightarrow> 's \<Rightarrow> nat \<times> bool \<times> 's" and remove :: "string \<Rightarrow> 's \<Rightarrow> 's go"
  assumes retrieve_known: "tab s k = Some r \<Longrightarrow> retrieve k s = (r, False, s)"
    and retrieve_new: "tab s k = None \<Longrightarrow>
      \<exists>s'. retrieve k s = (size_of s, True, s') \<and> tab s' = (tab s)(k \<mapsto> size_of s) \<and> size_of s' = Suc (size_of s)"
    and remove_tab: "remove k s = Ret s' \<Longrightarrow> tab s' = (tab s)(k := None) \<and> size_of s' = size_of s"
begin

text \<open>Every entry refers to a connection that was made, and no two entries to the same one.\<close>

definition tab_ok :: "'s \<Rightarrow> bool" where
  "tab_ok s \<longleftrightarrow> (\<forall>k r. tab s k = Some r \<longrightarrow> r < size_of s) \<and>
     (\<forall>k l r. tab s k = Some r \<and> tab s l = Some r \<longrightarrow> k = l)"

lemma retrieve_entry:
  assumes "retrieve k s = (r, new, s')"
  shows "tab s' k = Some r" and "new \<longleftrightarrow> tab s k = None" and "l \<noteq> k \<Longrightarrow> tab s' l = tab s l"
proof -
  have "tab s' k = Some r \<and> (new \<longleftrightarrow> tab s k = None) \<and> (\<forall>l. l \<noteq> k \<longrightarrow> tab s' l = tab s l)"
    using assms retrieve_known[of s k] retrieve_new[of s k] by (cases "tab s k") auto
  then show "tab s' k = Some r" "new \<longleftrightarrow> tab s k = None" "l \<noteq> k \<Longrightarrow> tab s' l = tab s l" by auto
qed

text \<open>A second lookup gives the same connection, which is not new.\<close>

lemma retrieve_again: "retrieve k s = (r, new, s') \<Longrightarrow> retrieve k s' = (r, False, s')"
  using retrieve_entry(1) by (rule retrieve_known)

lemma retrieve_ok: "tab_ok s \<Longrightarrow> retrieve k s = (r, new, s') \<Longrightarrow> tab_ok s'"
  using retrieve_known[of s k] retrieve_new[of s k]
  by (cases "tab s k") (fastforce simp: tab_ok_def less_Suc_eq split: if_splits)+

lemma remove_ok: "tab_ok s \<Longrightarrow> remove k s = Ret s' \<Longrightarrow> tab_ok s'"
  using remove_tab[of k s s'] by (auto simp: tab_ok_def split: if_splits)

text \<open>After a removal the next lookup makes a new connection, different from every one before.\<close>

lemma retrieve_after_remove:
  assumes "tab_ok s" and "remove k s = Ret s'" and "retrieve k s' = (r, new, s'')"
  shows "new \<and> (\<forall>l q. tab s l = Some q \<longrightarrow> q \<noteq> r)"
  using assms remove_tab[of k s s'] retrieve_new[of s' k] by (fastforce simp: tab_ok_def)

text \<open>Two lookups find the same connection exactly when they have the same key and it was not removed in between; the
  table holds what the last lookup of a key found, unless it was removed since.\<close>

definition hist_ok :: "(nat \<times> string) list \<Rightarrow> (nat \<times> string) list \<Rightarrow> 's \<Rightarrow> bool" where
  "hist_ok xs cs s \<longleftrightarrow> tab_ok s \<and> (\<forall>x \<in> set xs. fst x < size_of s) \<and> (\<forall>x \<in> set cs. fst x \<le> length xs) \<and>
     (\<forall>i < length xs. tab s (snd (xs ! i)) = Some (fst (xs ! i)) \<longleftrightarrow> \<not> removed_between cs (snd (xs ! i)) i (length xs)) \<and>
     (\<forall>i < length xs. \<forall>k. tab s k = Some (fst (xs ! i)) \<longrightarrow> k = snd (xs ! i)) \<and>
     (\<forall>j < length xs. \<forall>i < j. fst (xs ! i) = fst (xs ! j) \<longleftrightarrow>
        snd (xs ! i) = snd (xs ! j) \<and> \<not> removed_between cs (snd (xs ! i)) i j)"

lemma hist_okD:
  assumes "hist_ok xs cs s"
  shows "tab_ok s" and "i < length xs \<Longrightarrow> fst (xs ! i) < size_of s" and "x \<in> set cs \<Longrightarrow> fst x \<le> length xs"
    and "i < length xs \<Longrightarrow> tab s (snd (xs ! i)) = Some (fst (xs ! i)) \<longleftrightarrow> \<not> removed_between cs (snd (xs ! i)) i (length xs)"
    and "i < length xs \<Longrightarrow> tab s k = Some (fst (xs ! i)) \<Longrightarrow> k = snd (xs ! i)"
    and "i < j \<Longrightarrow> j < length xs \<Longrightarrow> fst (xs ! i) = fst (xs ! j) \<longleftrightarrow>
      snd (xs ! i) = snd (xs ! j) \<and> \<not> removed_between cs (snd (xs ! i)) i j"
  using assms unfolding hist_ok_def by (blast, meson nth_mem, blast+)

lemma hist_ok_init: "tab_ok s \<Longrightarrow> hist_ok [] [] s"
  by (simp add: hist_ok_def)

lemma hist_ok_same:
  "hist_ok xs cs s \<Longrightarrow> tab s' = tab s \<Longrightarrow> size_of s' = size_of s \<Longrightarrow> hist_ok xs cs s'"
  by (simp add: hist_ok_def tab_ok_def)

text \<open>What a lookup finds, compared with an earlier one.\<close>

lemma retrieve_hist:
  assumes h: "hist_ok xs cs s" and ret: "retrieve k s = (r, new, s')" and i: "i < length xs"
  shows "fst (xs ! i) = r \<longleftrightarrow> snd (xs ! i) = k \<and> \<not> removed_between cs (snd (xs ! i)) i (length xs)"
proof (cases "tab s k")
  case None
  with retrieve_new[OF None] ret have "r = size_of s" by auto
  with hist_okD(2,4)[OF h i] None show ?thesis by auto
next
  case (Some q)
  with retrieve_known[OF Some] ret have "tab s k = Some r" by simp
  with hist_okD(4)[OF h i] hist_okD(5)[OF h i, of k] show ?thesis by (metis option.inject)
qed

lemma hist_ok_retrieve:
  assumes h: "hist_ok xs cs s" and ret: "retrieve k s = (r, new, s')"
  shows "hist_ok (xs @ [(r, k)]) cs s'"
proof -
  note e = retrieve_entry[OF ret] and old = hist_okD[OF h] and rh = retrieve_hist[OF h ret]
  have ok: "tab_ok s'" by (rule retrieve_ok[OF old(1) ret])
  have size: "size_of s \<le> size_of s'"
  proof (cases "tab s k")
    case None
    from retrieve_new[OF None] ret show ?thesis by auto
  next
    case (Some q)
    from retrieve_known[OF Some] ret show ?thesis by simp
  qed
  have r: "r < size_of s'" using ok e(1) unfolding tab_ok_def by blast
  have cut: "removed_between cs l i (Suc (length xs)) = removed_between cs l i (length xs)" for l i
    using old(3) unfolding removed_between_def by (metis fst_conv le_SucI)
  have new: "\<not> removed_between cs l (length xs) n" for l n
    using old(3) unfolding removed_between_def by (metis fst_conv not_less)
  have "fst ((xs @ [(r, k)]) ! i) < size_of s'" if "i < Suc (length xs)" for i
    using that old(2)[of i] size r by (cases "i = length xs") (auto simp: nth_append)
  then have "\<forall>x \<in> set (xs @ [(r, k)]). fst x < size_of s'"
    by (metis in_set_conv_nth length_append_singleton)
  moreover have "tab s' (snd ((xs @ [(r, k)]) ! i)) = Some (fst ((xs @ [(r, k)]) ! i)) \<longleftrightarrow>
      \<not> removed_between cs (snd ((xs @ [(r, k)]) ! i)) i (Suc (length xs))" if "i < Suc (length xs)" for i
  proof (cases "i = length xs")
    case False
    with that have i: "i < length xs" by simp
    show ?thesis
      using rh[OF i] old(4)[OF i] e(1) e(3)[of "snd (xs ! i)"] i
      by (cases "snd (xs ! i) = k") (auto simp: nth_append cut)
  qed (simp add: e(1) new)
  moreover have "l = snd ((xs @ [(r, k)]) ! i)" if "i < Suc (length xs)" "tab s' l = Some (fst ((xs @ [(r, k)]) ! i))" for i l
  proof (cases "i = length xs")
    case True
    with that(2) e(1) ok show ?thesis by (auto simp: tab_ok_def)
  next
    case False
    with that have i: "i < length xs" and l: "tab s' l = Some (fst (xs ! i))" by (simp_all add: nth_append)
    show ?thesis
      using l e(1) e(3)[of l] rh[OF i] old(5)[OF i, of l] i by (cases "l = k") (auto simp: nth_append)
  qed
  moreover have "fst ((xs @ [(r, k)]) ! i) = fst ((xs @ [(r, k)]) ! j) \<longleftrightarrow>
      snd ((xs @ [(r, k)]) ! i) = snd ((xs @ [(r, k)]) ! j) \<and> \<not> removed_between cs (snd ((xs @ [(r, k)]) ! i)) i j"
    if "j < Suc (length xs)" "i < j" for i j
  proof (cases "j = length xs")
    case True
    with that rh[of i] show ?thesis by (simp add: nth_append)
  next
    case False
    with that old(6)[of i j] show ?thesis by (simp add: nth_append)
  qed
  ultimately show ?thesis using ok old(3) unfolding hist_ok_def by (simp add: le_SucI)
qed

lemma hist_ok_remove:
  assumes h: "hist_ok xs cs s" and rem: "remove k s = Ret s'"
  shows "hist_ok xs (cs @ [(length xs, k)]) s'"
proof -
  note t = remove_tab[OF rem] and old = hist_okD[OF h]
  have cut: "removed_between (cs @ [(length xs, k)]) l i j \<longleftrightarrow> removed_between cs l i j \<or> l = k \<and> i < length xs \<and> length xs \<le> j" for l i j
    by (auto simp: removed_between_def)
  have "tab s' (snd (xs ! i)) = Some (fst (xs ! i)) \<longleftrightarrow> \<not> removed_between (cs @ [(length xs, k)]) (snd (xs ! i)) i (length xs)"
    if "i < length xs" for i
    using old(4)[OF that] that t by (auto simp: cut)
  moreover have "l = snd (xs ! i)" if "i < length xs" "tab s' l = Some (fst (xs ! i))" for i l
    using old(5)[OF that(1), of l] that(2) t by (auto split: if_splits)
  moreover have "fst (xs ! i) = fst (xs ! j) \<longleftrightarrow>
      snd (xs ! i) = snd (xs ! j) \<and> \<not> removed_between (cs @ [(length xs, k)]) (snd (xs ! i)) i j" if "j < length xs" "i < j" for i j
    using old(6)[OF that(2,1)] that by (simp add: cut)
  ultimately show ?thesis
    using remove_ok[OF old(1) rem] old(3) t h unfolding hist_ok_def by auto
qed

end

section \<open>Messages of one connection\<close>

text \<open>The step relations of the three components record messages with the connection they belong to.\<close>

definition of_conn :: "nat \<Rightarrow> (nat \<times> Rpc) list \<Rightarrow> Rpc list" where
  "of_conn r xs = map snd (filter (\<lambda>x. fst x = r) xs)"

lemma of_conn_simps [simp]:
  "of_conn r [] = []" "of_conn r (xs @ ys) = of_conn r xs @ of_conn r ys"
  "of_conn r ((q, x) # xs) = (if q = r then x # of_conn r xs else of_conn r xs)"
  by (simp_all add: of_conn_def)

lemma of_conn_other: "\<forall>x \<in> set xs. fst x = r \<Longrightarrow> q \<noteq> r \<Longrightarrow> of_conn q xs = []"
  by (auto simp: of_conn_def filter_empty_conv)

lemma of_conn_fresh: "\<forall>x \<in> set xs. fst x < n \<Longrightarrow> of_conn n xs = []"
  by (auto simp: of_conn_def filter_empty_conv)

end
