(* ===== verification/Goat_Wire.thy ===== *)
theory Goat_Wire
  imports Goat_Transport
begin

text \<open>
  A codec of wire messages that satisfies what the transports rely on (\<open>codec_ok\<close>), for every message: prefix-free
  encodings of bytes, words, strings, lists, options and pairs, composed along the fields of the message. It stands
  for the protobuf codec where a property is applied; its format is not protobuf's. The locale \<open>coder\<close> is the law of a
  decoder that undoes an encoder and leaves the rest of the input.
\<close>

section \<open>Encoders and decoders\<close>

locale coder =
  fixes enc :: "'a \<Rightarrow> bytes" and dec :: "bytes \<Rightarrow> ('a \<times> bytes) option"
  assumes dec_enc: "dec (enc x @ rest) = Some (x, rest)"
begin

text \<open>No encoding is a prefix of another, and different values have different encodings.\<close>

lemma enc_prefix: "enc x @ r = enc y @ r' \<Longrightarrow> x = y \<and> r = r'"
  using dec_enc[of x r] dec_enc[of y r'] by (metis option.inject prod.inject)

lemma enc_distinct: "enc x = enc y \<Longrightarrow> x = y"
  using enc_prefix[of x "[]" y "[]"] by simp

end

fun dec_byte :: "bytes \<Rightarrow> (8 word \<times> bytes) option" where
  "dec_byte [] = None"
| "dec_byte (b # bs) = Some (b, bs)"

definition enc_byte :: "8 word \<Rightarrow> bytes" where
  "enc_byte b = [b]"

text \<open>A value read through a conversion.\<close>

definition map_dec :: "('a \<Rightarrow> 'b) \<Rightarrow> (bytes \<Rightarrow> ('a \<times> bytes) option) \<Rightarrow> bytes \<Rightarrow> ('b \<times> bytes) option" where
  "map_dec f d bs = (case d bs of None \<Rightarrow> None | Some (x, r) \<Rightarrow> Some (f x, r))"

definition enc_pair :: "('a \<Rightarrow> bytes) \<Rightarrow> ('b \<Rightarrow> bytes) \<Rightarrow> 'a \<times> 'b \<Rightarrow> bytes" where
  "enc_pair e f p = e (fst p) @ f (snd p)"

definition dec_pair ::
  "(bytes \<Rightarrow> ('a \<times> bytes) option) \<Rightarrow> (bytes \<Rightarrow> ('b \<times> bytes) option) \<Rightarrow> bytes \<Rightarrow> (('a \<times> 'b) \<times> bytes) option" where
  "dec_pair d f bs = (case d bs of None \<Rightarrow> None | Some (x, r) \<Rightarrow> map_dec (Pair x) f r)"

fun enc_option :: "('a \<Rightarrow> bytes) \<Rightarrow> 'a option \<Rightarrow> bytes" where
  "enc_option e None = [0]"
| "enc_option e (Some x) = 1 # e x"

fun dec_option :: "(bytes \<Rightarrow> ('a \<times> bytes) option) \<Rightarrow> bytes \<Rightarrow> ('a option \<times> bytes) option" where
  "dec_option d [] = None"
| "dec_option d (b # bs) = (if b = 0 then Some (None, bs) else map_dec Some d bs)"

fun enc_list :: "('a \<Rightarrow> bytes) \<Rightarrow> 'a list \<Rightarrow> bytes" where
  "enc_list e [] = [0]"
| "enc_list e (x # xs) = 1 # e x @ enc_list e xs"

text \<open>A list takes a byte for every element, so the length of the input bounds the elements.\<close>

fun dec_list_upto :: "nat \<Rightarrow> (bytes \<Rightarrow> ('a \<times> bytes) option) \<Rightarrow> bytes \<Rightarrow> ('a list \<times> bytes) option" where
  "dec_list_upto 0 d bs = None"
| "dec_list_upto (Suc n) d [] = None"
| "dec_list_upto (Suc n) d (b # bs) =
     (if b = 0 then Some ([], bs)
      else (case d bs of None \<Rightarrow> None | Some (x, r) \<Rightarrow> map_dec (Cons x) (dec_list_upto n d) r))"

definition dec_list :: "(bytes \<Rightarrow> ('a \<times> bytes) option) \<Rightarrow> bytes \<Rightarrow> ('a list \<times> bytes) option" where
  "dec_list d bs = dec_list_upto (length bs) d bs"

text \<open>A word, bit by bit; a character is a byte.\<close>

definition enc_word :: "'a::len word \<Rightarrow> bytes" where
  "enc_word w = map (\<lambda>i. if bit w i then 1 else 0) [0..<LENGTH('a)]"

definition dec_word :: "bytes \<Rightarrow> ('a::len word \<times> bytes) option" where
  "dec_word bs =
     (if length bs < LENGTH('a) then None
      else Some (horner_sum of_bool 2 (map (\<lambda>b. b = 1) (take LENGTH('a) bs)), drop LENGTH('a) bs))"

definition enc_char :: "char \<Rightarrow> bytes" where
  "enc_char c = [of_nat (of_char c)]"

definition dec_char :: "bytes \<Rightarrow> (char \<times> bytes) option" where
  "dec_char = map_dec (\<lambda>b. char_of (unat b)) dec_byte"

section \<open>Their laws\<close>

lemma coder_byte: "coder enc_byte dec_byte"
  by unfold_locales (simp add: enc_byte_def)

lemma coder_map:
  assumes "coder e d" and "\<And>x. g (f x) = x"
  shows "coder (\<lambda>x. e (f x)) (map_dec g d)"
  by unfold_locales (simp add: map_dec_def coder.dec_enc[OF assms(1)] assms(2))

lemma coder_pair: "coder e d \<Longrightarrow> coder f g \<Longrightarrow> coder (enc_pair e f) (dec_pair d g)"
  by unfold_locales (simp add: enc_pair_def dec_pair_def map_dec_def coder.dec_enc)

lemma coder_option:
  assumes "coder e d"
  shows "coder (enc_option e) (dec_option d)"
proof
  fix x rest
  show "dec_option d (enc_option e x @ rest) = Some (x, rest)"
    by (cases x) (simp_all add: map_dec_def coder.dec_enc[OF assms])
qed

lemma dec_list_upto_enc:
  "coder e d \<Longrightarrow> length xs < n \<Longrightarrow> dec_list_upto n d (enc_list e xs @ rest) = Some (xs, rest)"
proof (induction xs arbitrary: n)
  case Nil
  then show ?case by (cases n) simp_all
next
  case (Cons x xs)
  then obtain m where "n = Suc m" "length xs < m" by (cases n) auto
  with Cons show ?case by (simp add: map_dec_def coder.dec_enc)
qed

lemma length_enc_list: "length xs < length (enc_list e xs)"
  by (induction xs) auto

lemma coder_list: "coder e d \<Longrightarrow> coder (enc_list e) (dec_list d)"
  by (intro coder.intro) (simp add: dec_list_def dec_list_upto_enc trans_less_add1[OF length_enc_list])

lemma coder_word: "coder (enc_word :: 'a::len word \<Rightarrow> bytes) dec_word"
proof
  fix w :: "'a word" and rest
  have "map (\<lambda>b. b = (1 :: 8 word)) (enc_word w) = map (bit w) [0..<LENGTH('a)]"
    by (simp add: enc_word_def)
  then have "horner_sum of_bool 2 (map (\<lambda>b. b = (1 :: 8 word)) (enc_word w)) = w"
    by (simp only: horner_sum_bit_eq_take_bit take_bit_word_eq_self[OF order_refl])
  moreover have "length (enc_word w) = LENGTH('a)" by (simp add: enc_word_def)
  ultimately show "dec_word (enc_word w @ rest) = Some (w, rest)" by (simp add: dec_word_def)
qed

lemma coder_char: "coder enc_char dec_char"
proof
  fix c rest
  have "(of_char c :: nat) < 256" by simp
  then have "unat (of_nat (of_char c) :: 8 word) = of_char c" by (simp add: unat_of_nat)
  then show "dec_char (enc_char c @ rest) = Some (c, rest)" by (simp add: enc_char_def dec_char_def map_dec_def)
qed

section \<open>Messages\<close>

text \<open>The fields of a message, with a slice that may be nil as a list. A repeated or bytes field that is empty is not on the
  wire, so it comes back nil: reading what was written gives \<open>wire_rpc\<close>.\<close>

definition slice :: "'a list option \<Rightarrow> 'a list" where
  "slice x = (case x of None \<Rightarrow> [] | Some xs \<Rightarrow> xs)"

definition unslice :: "'a list \<Rightarrow> 'a list option" where
  "unslice xs = (if xs = [] then None else Some xs)"

lemma unslice_slice [simp]: "unslice (slice x) = nil_empty x"
  by (simp add: unslice_def slice_def nil_empty_def split: option.split list.split)

type_synonym header_tuple = "string \<times> KeyValue list \<times> string \<times> string \<times> string list \<times> string list"
type_synonym status_tuple = "i32 \<times> string \<times> any list"
type_synonym rpc_tuple =
  "u64 \<times> header_tuple option \<times> status_tuple option \<times> bytes option \<times> KeyValue list option \<times> string option"

definition kv_fields :: "KeyValue \<Rightarrow> string \<times> string" where
  "kv_fields kv = (kvKey kv, kvValue kv)"

definition of_kv_fields :: "string \<times> string \<Rightarrow> KeyValue" where
  "of_kv_fields = (\<lambda>(k, v). \<lparr>kvKey = k, kvValue = v\<rparr>)"

definition header_fields :: "RequestHeader \<Rightarrow> header_tuple" where
  "header_fields h =
  (hMethod h, hHeaders h, hSource h, hDestination h, hProxyRecord h, slice (hProxyNext h))"

definition of_header_fields :: "header_tuple \<Rightarrow> RequestHeader" where
  "of_header_fields = (\<lambda>(m, hs, src, dst, rec, nxt).
  \<lparr>hMethod = m, hHeaders = hs, hSource = src, hDestination = dst, hProxyRecord = rec, hProxyNext = unslice nxt\<rparr>)"

definition status_fields :: "ResponseStatus \<Rightarrow> status_tuple" where
  "status_fields st = (rsCode st, rsMessage st, rsDetails st)"

definition of_status_fields :: "status_tuple \<Rightarrow> ResponseStatus" where
  "of_status_fields = (\<lambda>(c, m, ds). \<lparr>rsCode = c, rsMessage = m, rsDetails = ds\<rparr>)"

definition rpc_fields :: "Rpc \<Rightarrow> rpc_tuple" where
  "rpc_fields m =
  (rpcId m, map_option header_fields (rpcHeader m), map_option status_fields (rpcStatus m),
   map_option (\<lambda>b. slice (bData b)) (rpcBody m), map_option (\<lambda>t. slice (tMetadata t)) (rpcTrailer m), map_option rType (rpcReset m))"

definition of_rpc_fields :: "rpc_tuple \<Rightarrow> Rpc" where
  "of_rpc_fields = (\<lambda>(i, h, st, b, t, rst).
  \<lparr>rpcId = i, rpcHeader = map_option of_header_fields h, rpcStatus = map_option of_status_fields st,
   rpcBody = map_option (\<lambda>d. \<lparr>bData = unslice d\<rparr>) b, rpcTrailer = map_option (\<lambda>md. \<lparr>tMetadata = unslice md\<rparr>) t,
   rpcReset = map_option (\<lambda>ty. \<lparr>rType = ty\<rparr>) rst\<rparr>)"

lemma of_fields:
  "of_header_fields (header_fields h) = wire_header h" "of_status_fields (status_fields st) = st"
  by (simp_all add: header_fields_def of_header_fields_def wire_header_def status_fields_def of_status_fields_def)

lemma rpc_fields_wire: "of_rpc_fields (rpc_fields m) = wire_rpc m"
proof -
  have "(\<lambda>b. b\<lparr>bData := nil_empty (bData b)\<rparr>) = (\<lambda>b. \<lparr>bData = nil_empty (bData b)\<rparr>)"
    "(\<lambda>t. t\<lparr>tMetadata := nil_empty (tMetadata t)\<rparr>) = (\<lambda>t. \<lparr>tMetadata = nil_empty (tMetadata t)\<rparr>)"
    "(\<lambda>z. \<lparr>rType = rType z\<rparr>) = (\<lambda>z. z)"
    by (simp_all add: fun_eq_iff)
  then show ?thesis
    by (cases m) (simp add: rpc_fields_def of_rpc_fields_def of_fields wire_rpc_def option.map_comp o_def option.map_ident)
qed

definition enc_string :: "string \<Rightarrow> bytes" where
  "enc_string = enc_list enc_char"

definition dec_string :: "bytes \<Rightarrow> (string \<times> bytes) option" where
  "dec_string = dec_list dec_char"

definition enc_kv :: "KeyValue \<Rightarrow> bytes" where
  "enc_kv = (\<lambda>kv. enc_pair enc_string enc_string (kv_fields kv))"

definition dec_kv :: "bytes \<Rightarrow> (KeyValue \<times> bytes) option" where
  "dec_kv = map_dec of_kv_fields (dec_pair dec_string dec_string)"

definition enc_any :: "any \<Rightarrow> bytes" where
  "enc_any = (\<lambda>a. enc_pair enc_string (enc_list enc_byte) (case a of Any u b \<Rightarrow> (u, b)))"

definition dec_any :: "bytes \<Rightarrow> (any \<times> bytes) option" where
  "dec_any = map_dec (\<lambda>(u, b). Any u b) (dec_pair dec_string (dec_list dec_byte))"

definition enc_header :: "header_tuple \<Rightarrow> bytes" where
  "enc_header =
  enc_pair enc_string (enc_pair (enc_list enc_kv) (enc_pair enc_string (enc_pair enc_string
    (enc_pair (enc_list enc_string) (enc_list enc_string)))))"

definition dec_header :: "bytes \<Rightarrow> (header_tuple \<times> bytes) option" where
  "dec_header =
  dec_pair dec_string (dec_pair (dec_list dec_kv) (dec_pair dec_string (dec_pair dec_string
    (dec_pair (dec_list dec_string) (dec_list dec_string)))))"

definition enc_status :: "status_tuple \<Rightarrow> bytes" where
  "enc_status = enc_pair enc_word (enc_pair enc_string (enc_list enc_any))"

definition dec_status :: "bytes \<Rightarrow> (status_tuple \<times> bytes) option" where
  "dec_status = dec_pair dec_word (dec_pair dec_string (dec_list dec_any))"

definition enc_rpc :: "rpc_tuple \<Rightarrow> bytes" where
  "enc_rpc =
  enc_pair enc_word (enc_pair (enc_option enc_header) (enc_pair (enc_option enc_status)
    (enc_pair (enc_option (enc_list enc_byte)) (enc_pair (enc_option (enc_list enc_kv)) (enc_option enc_string)))))"

definition dec_rpc :: "bytes \<Rightarrow> (rpc_tuple \<times> bytes) option" where
  "dec_rpc =
  dec_pair dec_word (dec_pair (dec_option dec_header) (dec_pair (dec_option dec_status)
    (dec_pair (dec_option (dec_list dec_byte)) (dec_pair (dec_option (dec_list dec_kv)) (dec_option dec_string)))))"

definition wire_marshal :: "Rpc \<Rightarrow> gerr + bytes" where
  "wire_marshal m = Inr (enc_rpc (rpc_fields m))"

definition wire_unmarshal :: "bytes \<Rightarrow> gerr + Rpc" where
  "wire_unmarshal bs =
     (case dec_rpc bs of Some (x, []) \<Rightarrow> Inr (of_rpc_fields x) | _ \<Rightarrow> Inl (Errorf ''cannot parse invalid wire-format data''))"

lemma coder_string: "coder enc_string dec_string"
  unfolding enc_string_def dec_string_def by (rule coder_list[OF coder_char])

lemma coder_kv: "coder enc_kv dec_kv"
  unfolding enc_kv_def dec_kv_def
  by (rule coder_map[OF coder_pair[OF coder_string coder_string]]) (simp add: kv_fields_def of_kv_fields_def)

lemma coder_any: "coder enc_any dec_any"
  unfolding enc_any_def dec_any_def
  by (rule coder_map[OF coder_pair[OF coder_string coder_list[OF coder_byte]]]) (simp split: any.split)

lemmas coder_intros = coder_pair coder_option coder_list coder_word coder_byte coder_string coder_kv coder_any

interpretation rpc_coder: coder enc_rpc dec_rpc
  unfolding enc_rpc_def dec_rpc_def enc_header_def dec_header_def enc_status_def dec_status_def
  by (intro coder_intros)

lemma wire_codec_ok: "codec_ok wire_marshal wire_unmarshal"
  using rpc_coder.dec_enc[of _ "[]"] by (simp add: codec_ok_def wire_marshal_def wire_unmarshal_def rpc_fields_wire)

end
