(* ===== verification/Goat_Http.thy ===== *)
theory Goat_Http
  imports Complex_Main "HOL-Library.Multiset" Goat_Conn_Table Goat_Wire
begin

text \<open>
  The HTTP transport, \<^verbatim>\<open>http.go\<close>: a table of connections by address, requests that deliver a message to
  the connection of their source, the cleaner that closes connections without recent activity, and
  the read and write of a connection. The step relation interleaves requests in progress, readers,
  writers and the cleaner; the lemmas show what a request is answered, that messages are
  delivered once, that the cleaner closes exactly the stale connections, and which calls can panic.
\<close>

section \<open>Seconds of a duration\<close>

text \<open>
  \<^verbatim>\<open>int64(d.Seconds())\<close> goes through a \<^verbatim>\<open>float64\<close>: whole seconds plus the rest divided by \<open>10 ^ 9\<close>, each
  operation rounded to 53 significant bits, half to even. \<open>f64_shift\<close> finds how far a number can
  be doubled below \<open>2 ^ 53\<close>; durations have at most 34 bits before and matter only down to \<open>10 ^ -9\<close>, so 100
  doublings are enough.
\<close>

definition round_even :: "rat \<Rightarrow> int" where
  "round_even x =
     (let f = \<lfloor>x\<rfloor>; d = x - of_int f
      in if d < 1 / 2 then f else if 1 / 2 < d then f + 1 else if even f then f else f + 1)"

fun f64_shift :: "nat \<Rightarrow> rat \<Rightarrow> nat" where
  "f64_shift 0 x = 0"
| "f64_shift (Suc n) x = (if 2 ^ 52 \<le> x then 0 else Suc (f64_shift n (2 * x)))"

definition f64 :: "rat \<Rightarrow> rat" where
  "f64 x =
     (let k = f64_shift 100 \<bar>x\<bar>
      in sgn x * (of_int (round_even (\<bar>x\<bar> * 2 ^ k)) / 2 ^ k))"

definition Duration_Seconds :: "i64 \<Rightarrow> rat" where
  "Duration_Seconds d =
     (let sec = go_quot (sint d) (10 ^ 9); nsec = sint d - sec * 10 ^ 9
      in f64 (of_int sec + f64 (of_int nsec / 10 ^ 9)))"

text \<open>The conversion to \<^verbatim>\<open>int64\<close> truncates towards zero.\<close>

definition int64_of :: "rat \<Rightarrow> i64" where
  "int64_of x = word_of_int (if 0 \<le> x then \<lfloor>x\<rfloor> else \<lceil>x\<rceil>)"

lemma round_even_int [simp]: "round_even (of_int i) = i"
  by (simp add: round_even_def)

lemma f64_int [simp]: "f64 (of_int i) = of_int i"
proof -
  define k where "k = f64_shift 100 \<bar>of_int i\<bar>"
  have "\<bar>of_int i\<bar> * (2 :: rat) ^ k = of_int (\<bar>i\<bar> * 2 ^ k)" by simp
  then have "round_even (\<bar>of_int i\<bar> * 2 ^ k) = \<bar>i\<bar> * 2 ^ k" by (simp only: round_even_int)
  then have "f64 (of_int i) = sgn (of_int i) * (of_int (\<bar>i\<bar> * 2 ^ k) / 2 ^ k)"
    unfolding f64_def Let_def k_def[symmetric] by simp
  also have "\<dots> = sgn (of_int i) * \<bar>of_int i\<bar>" by simp
  finally show ?thesis by (simp add: sgn_mult_abs)
qed

text \<open>A whole number of seconds is converted exactly.\<close>

lemma seconds_whole:
  assumes "sint d = s * 10 ^ 9"
  shows "sint (int64_of (Duration_Seconds d)) = s"
proof -
  have q: "go_quot (s * 10 ^ 9) (10 ^ 9) = s"
    unfolding go_quot_def by (simp add: abs_mult sgn_mult mult_sgn_abs)
  have "Duration_Seconds d = of_int s"
    unfolding Duration_Seconds_def Let_def assms q using f64_int[of 0] by simp
  moreover have "- (2 ^ 63) \<le> s" "s < 2 ^ 63"
    using sint_ge[of d] sint_lt[of d] assms by simp_all
  ultimately show ?thesis by (simp add: int64_of_def sint_range_id)
qed

section \<open>State\<close>

record httpReadWriter =
  hrAddr :: string
  hrReadCh :: "Rpc chan"
  hrLastActivity :: i64

text \<open>\<open>'c\<close> is the type of the clock; what it reads is an argument of the operations.\<close>

record 'c GoatOverHttp =
  ghDone :: bool
  ghCleanupInterval :: i64
  ghTimeout :: i64
  ghClock :: 'c
  ghConns :: "string \<rightharpoonup> nat"
  ghObjs :: "httpReadWriter list"

datatype 'c GoatOverHttpOption =
    WithClock 'c
  | WithConnectionCleanupInterval i64
  | WithConnectionTimeout i64

fun gh_apply :: "'c GoatOverHttpOption \<Rightarrow> 'c GoatOverHttp \<Rightarrow> 'c GoatOverHttp" where
  "gh_apply (WithClock cl) g = g\<lparr>ghClock := cl\<rparr>"
| "gh_apply (WithConnectionCleanupInterval i) g = g\<lparr>ghCleanupInterval := i\<rparr>"
| "gh_apply (WithConnectionTimeout t) g = g\<lparr>ghTimeout := t\<rparr>"

definition NewGoatOverHttp :: "'c \<Rightarrow> 'c GoatOverHttpOption list \<Rightarrow> 'c GoatOverHttp" where
  "NewGoatOverHttp realClock opts =
     fold gh_apply opts
       \<lparr>ghDone = False, ghCleanupInterval = 60 * 10 ^ 9, ghTimeout = 4 * 60 * 10 ^ 9, ghClock = realClock,
        ghConns = Map.empty, ghObjs = []\<rparr>"

definition gh_Cancel :: "'c GoatOverHttp \<Rightarrow> 'c GoatOverHttp" where
  "gh_Cancel g = g\<lparr>ghDone := True\<rparr>"

section \<open>The table of connections\<close>

definition gh_retrieve :: "string \<Rightarrow> 'c GoatOverHttp \<Rightarrow> nat \<times> bool \<times> 'c GoatOverHttp" where
  "gh_retrieve k g =
     (case ghConns g k of
        Some r \<Rightarrow> (r, False, g)
      | None \<Rightarrow>
          (length (ghObjs g), True,
           g\<lparr>ghObjs := ghObjs g @ [\<lparr>hrAddr = k, hrReadCh = make_chan 0, hrLastActivity = 0\<rparr>],
             ghConns := (ghConns g)(k \<mapsto> length (ghObjs g))\<rparr>))"

definition unregisterLocked :: "string \<Rightarrow> 'c GoatOverHttp \<Rightarrow> 'c GoatOverHttp go" where
  "unregisterLocked k g =
     go_bind
       (case ghConns g k of
          Some r \<Rightarrow>
            go_bind (chan_close (hrReadCh (ghObjs g ! r))) (\<lambda>ch.
              Ret (g\<lparr>ghObjs := (ghObjs g)[r := (ghObjs g ! r)\<lparr>hrReadCh := ch\<rparr>]\<rparr>))
        | None \<Rightarrow> Ret g)
       (\<lambda>g1. Ret (g1\<lparr>ghConns := (ghConns g1)(k := None)\<rparr>))"

definition NewConnection :: "string \<Rightarrow> 'c GoatOverHttp \<Rightarrow> nat \<times> 'c GoatOverHttp" where
  "NewConnection destination g = (case gh_retrieve destination g of (r, new, g1) \<Rightarrow> (r, g1))"

interpretation ght: conn_table ghConns "\<lambda>g. length (ghObjs g)" gh_retrieve unregisterLocked
  by unfold_locales
    (auto simp: gh_retrieve_def unregisterLocked_def go_bind_Ret_iff split: option.splits)

section \<open>Requests\<close>

text \<open>
  \<open>ServeHTTP\<close> up to the delivery: a bad request with its text, or the connection, the message and the
  address \<^verbatim>\<open>onConnect\<close> is called with when it is new. The body is absent, or the result of reading it.
\<close>

datatype http_accept = BadRequest string | Accepted nat Rpc "string option"

definition ServeHTTP_accept ::
  "(bytes \<Rightarrow> gerr + Rpc) \<Rightarrow> (string \<Rightarrow> gerr + string) \<Rightarrow> (gerr + bytes) option \<Rightarrow> 'c GoatOverHttp \<Rightarrow>
   http_accept \<times> 'c GoatOverHttp" where
  "ServeHTTP_accept unmarshal sourceToAddress body g =
     (case body of
        None \<Rightarrow> (BadRequest ''missing body'', g)
      | Some (Inl err) \<Rightarrow> (BadRequest ''body read'', g)
      | Some (Inr data) \<Rightarrow>
          (case unmarshal data of
             Inl err \<Rightarrow> (BadRequest ''proto decode'', g)
           | Inr rpc \<Rightarrow>
               (case rpcHeader rpc of
                  None \<Rightarrow> (BadRequest ''missing header/source'', g)
                | Some h \<Rightarrow>
                    if hSource h = '''' then (BadRequest ''missing header/source'', g)
                    else (case sourceToAddress (hSource h) of
                            Inl err \<Rightarrow> (BadRequest ''failed to map source'', g)
                          | Inr source \<Rightarrow>
                              (case gh_retrieve source g of (r, new, g1) \<Rightarrow>
                                 (Accepted r rpc (if new then Some source else None), g1))))))"

text \<open>The send \<^verbatim>\<open>conn.readCh <- &rpc\<close>.\<close>

definition ServeHTTP_deliver :: "nat \<Rightarrow> Rpc \<Rightarrow> 'c GoatOverHttp \<Rightarrow> 'c GoatOverHttp go" where
  "ServeHTTP_deliver r rpc g =
     go_bind (chan_send (hrReadCh (ghObjs g ! r)) rpc) (\<lambda>ch.
       Ret (g\<lparr>ghObjs := (ghObjs g)[r := (ghObjs g ! r)\<lparr>hrReadCh := ch\<rparr>]\<rparr>))"

section \<open>The cleaner\<close>

text \<open>Stale: the last activity (in seconds; 0 when there was none) is at least the timeout ago, in 64-bit
  arithmetic.\<close>

definition stale :: "i64 \<Rightarrow> i64 \<Rightarrow> httpReadWriter \<Rightarrow> bool" where
  "stale timeout now c \<longleftrightarrow> sint (int64_of (Duration_Seconds timeout)) \<le> sint (now - hrLastActivity c)"

text \<open>One tick: \<open>ks\<close> is the order in which the range over the table visits its keys; an entry deleted before
  its turn is not visited.\<close>

fun cleaner_tick :: "i64 \<Rightarrow> string list \<Rightarrow> 'c GoatOverHttp \<Rightarrow> 'c GoatOverHttp go" where
  "cleaner_tick now [] g = Ret g"
| "cleaner_tick now (k # ks) g =
     go_bind
       (case ghConns g k of
          None \<Rightarrow> Ret g
        | Some r \<Rightarrow>
            if stale (ghTimeout g) now (ghObjs g ! r) then unregisterLocked (hrAddr (ghObjs g ! r)) g else Ret g)
       (cleaner_tick now ks)"

section \<open>A connection\<close>

definition bumpActivity :: "i64 \<Rightarrow> nat \<Rightarrow> 'c GoatOverHttp \<Rightarrow> 'c GoatOverHttp" where
  "bumpActivity now r g = g\<lparr>ghObjs := (ghObjs g)[r := (ghObjs g ! r)\<lparr>hrLastActivity := now\<rparr>]\<rparr>"

definition hrw_Read :: "i64 \<Rightarrow> nat \<Rightarrow> 'c GoatOverHttp \<Rightarrow> ((gerr + Rpc) \<times> 'c GoatOverHttp) go" where
  "hrw_Read now r g =
     go_bind (chan_recv (hrReadCh (ghObjs g ! r))) (\<lambda>(v, ch).
       let g1 = g\<lparr>ghObjs := (ghObjs g)[r := (ghObjs g ! r)\<lparr>hrReadCh := ch\<rparr>]\<rparr>
       in case v of
            None \<Rightarrow> Ret (Inl (Errorf ''readCh closed''), g1)
          | Some rpc \<Rightarrow> Ret (Inr rpc, bumpActivity now r g1))"

text \<open>The request a write makes; \<open>badURL\<close> is the error of \<^verbatim>\<open>http.NewRequest\<close>, \<open>doReq\<close> the outcome of sending it.\<close>

record HttpRequest =
  hqMethod :: string
  hqURL :: string
  hqBody :: bytes
  hqHeader :: "(string \<times> string) list"

definition post_request :: "string \<Rightarrow> bytes \<Rightarrow> HttpRequest" where
  "post_request addr data =
     \<lparr>hqMethod = ''POST'', hqURL = ''http://'' @ addr, hqBody = data,
      hqHeader = [(''Content-Type'', ''application/octet-stream''), (''X-Avos-Goat-Version'', ''1.0'')]\<rparr>"

definition hrw_Write ::
  "(Rpc \<Rightarrow> gerr + bytes) \<Rightarrow> (string \<Rightarrow> gerr option) \<Rightarrow> (HttpRequest \<Rightarrow> gerr option) \<Rightarrow> i64 \<Rightarrow> nat \<Rightarrow> Rpc \<Rightarrow>
   'c GoatOverHttp \<Rightarrow> (gerr option \<times> HttpRequest option \<times> 'c GoatOverHttp) go" where
  "hrw_Write marshal badURL doReq now r rpc g =
     (let g1 = bumpActivity now r g; addr = hrAddr (ghObjs g ! r)
      in case marshal rpc of
           Inl err \<Rightarrow> Ret (Some err, None, g1)
         | Inr data \<Rightarrow>
             (case badURL (''http://'' @ addr) of
                Some err \<Rightarrow> go_bind (unregisterLocked addr g1) (\<lambda>g2. Ret (Some err, None, g2))
              | None \<Rightarrow>
                  let rq = post_request addr data
                  in (case doReq rq of
                        Some err \<Rightarrow> go_bind (unregisterLocked addr g1) (\<lambda>g2. Ret (Some err, Some rq, g2))
                      | None \<Rightarrow> Ret (None, Some rq, g1))))"

section \<open>The transport's goroutines\<close>

text \<open>
  Requests in progress (accepted, not yet delivered), the messages accepted for and read from each
  connection, the messages lost, and whether the cleaner runs. Any number of requests may be in progress, so their
  deliveries come in any order. A delivery that panics loses its message: \<^verbatim>\<open>net/http\<close> recovers the panics of its handlers
  and the program goes on.
\<close>

record 'c ht_sys =
  ht :: "'c GoatOverHttp"
  htPending :: "(nat \<times> Rpc) list"
  htAccepted :: "(nat \<times> Rpc) list"
  htGot :: "(nat \<times> Rpc) list"
  htLost :: "(nat \<times> Rpc) list"
  htCleaning :: bool

definition ht_init :: "'c ht_sys \<Rightarrow> bool" where
  "ht_init s \<longleftrightarrow> (\<exists>cl opts. ht s = NewGoatOverHttp cl opts) \<and> htPending s = [] \<and> htAccepted s = [] \<and>
     htGot s = [] \<and> htLost s = [] \<and> htCleaning s"

inductive ht_step :: "(bytes \<Rightarrow> gerr + Rpc) \<Rightarrow> (string \<Rightarrow> gerr + string) \<Rightarrow> 'c ht_sys \<Rightarrow> 'c ht_sys \<Rightarrow> bool"
  for unmarshal sourceToAddress where
  ht_accept: "ServeHTTP_accept unmarshal sourceToAddress body (ht s) = (Accepted r rpc new, g') \<Longrightarrow>
    ht_step unmarshal sourceToAddress s
      (s\<lparr>ht := g', htPending := htPending s @ [(r, rpc)], htAccepted := htAccepted s @ [(r, rpc)]\<rparr>)"
| ht_deliver: "htPending s = ys @ (r, rpc) # zs \<Longrightarrow> ServeHTTP_deliver r rpc (ht s) = Ret g' \<Longrightarrow>
    ht_step unmarshal sourceToAddress s (s\<lparr>ht := g', htPending := ys @ zs\<rparr>)"
| ht_panic: "htPending s = ys @ (r, rpc) # zs \<Longrightarrow> ServeHTTP_deliver r rpc (ht s) = Panic \<Longrightarrow>
    ht_step unmarshal sourceToAddress s (s\<lparr>htPending := ys @ zs, htLost := htLost s @ [(r, rpc)]\<rparr>)"
| ht_connect: "NewConnection k (ht s) = (r, g') \<Longrightarrow> ht_step unmarshal sourceToAddress s (s\<lparr>ht := g'\<rparr>)"
| ht_park: "r < length (ghObjs (ht s)) \<Longrightarrow>
    ht_step unmarshal sourceToAddress s (s\<lparr>ht := (ht s)\<lparr>ghObjs := (ghObjs (ht s))[r :=
      (ghObjs (ht s) ! r)\<lparr>hrReadCh := chan_park (hrReadCh (ghObjs (ht s) ! r))\<rparr>]\<rparr>\<rparr>)"
| ht_read: "r < length (ghObjs (ht s)) \<Longrightarrow> hrw_Read now r (ht s) = Ret (res, g') \<Longrightarrow>
    ht_step unmarshal sourceToAddress s (s\<lparr>ht := g',
      htGot := htGot s @ (case res of Inl e \<Rightarrow> [] | Inr rpc \<Rightarrow> [(r, rpc)])\<rparr>)"
| ht_write: "r < length (ghObjs (ht s)) \<Longrightarrow>
    hrw_Write marshal badURL doReq now r rpc (ht s) = Ret (err, rq, g') \<Longrightarrow>
    ht_step unmarshal sourceToAddress s (s\<lparr>ht := g'\<rparr>)"
| ht_tick: "htCleaning s \<Longrightarrow> distinct ks \<Longrightarrow> set ks = dom (ghConns (ht s)) \<Longrightarrow>
    cleaner_tick now ks (ht s) = Ret g' \<Longrightarrow>
    ht_step unmarshal sourceToAddress s (s\<lparr>ht := g'\<rparr>)"
| ht_cancel: "ht_step unmarshal sourceToAddress s (s\<lparr>ht := gh_Cancel (ht s)\<rparr>)"
| ht_cleaner_stop: "ghDone (ht s) \<Longrightarrow> ht_step unmarshal sourceToAddress s (s\<lparr>htCleaning := False\<rparr>)"

section \<open>The invariant of the table\<close>

text \<open>The entry of a key is a connection with that address; a connection is open exactly while it is in the table.\<close>

definition gh_ok :: "'c GoatOverHttp \<Rightarrow> bool" where
  "gh_ok g \<longleftrightarrow> (\<forall>k r. ghConns g k = Some r \<longrightarrow> r < length (ghObjs g) \<and> hrAddr (ghObjs g ! r) = k) \<and>
     (\<forall>r < length (ghObjs g). closed (hrReadCh (ghObjs g ! r)) \<longleftrightarrow> ghConns g (hrAddr (ghObjs g ! r)) \<noteq> Some r)"

lemma gh_ok_entry:
  "gh_ok g \<Longrightarrow> ghConns g k = Some r \<Longrightarrow>
     r < length (ghObjs g) \<and> hrAddr (ghObjs g ! r) = k \<and> \<not> closed (hrReadCh (ghObjs g ! r))"
  by (auto simp: gh_ok_def)

lemma gh_ok_tab: "gh_ok g \<Longrightarrow> ght.tab_ok g"
  unfolding ght.tab_ok_def using gh_ok_entry by metis

lemma gh_ok_new [simp]: "gh_ok (NewGoatOverHttp cl opts)"
proof -
  have "ghConns (fold gh_apply opts g) = ghConns g \<and> ghObjs (fold gh_apply opts g) = ghObjs g" for g :: "'a GoatOverHttp"
  proof (induction opts arbitrary: g)
    case (Cons opt opts)
    then show ?case by (cases opt) simp_all
  qed simp
  then show ?thesis by (simp add: NewGoatOverHttp_def gh_ok_def)
qed

lemma gh_ok_retrieve:
  assumes ok: "gh_ok g" and ret: "gh_retrieve k g = (r, new, g')"
  shows "gh_ok g'"
proof (cases "ghConns g k")
  case None
  let ?n = "length (ghObjs g)"
  from None ret have g': "g' = g\<lparr>ghObjs := ghObjs g @ [\<lparr>hrAddr = k, hrReadCh = make_chan 0, hrLastActivity = 0\<rparr>],
      ghConns := (ghConns g)(k \<mapsto> ?n)\<rparr>" by (auto simp: gh_retrieve_def)
  have "closed (hrReadCh (ghObjs g' ! q)) \<longleftrightarrow> ghConns g' (hrAddr (ghObjs g' ! q)) \<noteq> Some q" if "q < Suc ?n" for q
  proof (cases "q = ?n")
    case False
    with that have q: "q < ?n" by simp
    with ok None g' False show ?thesis by (auto simp: gh_ok_def nth_append)
  qed (simp add: g')
  moreover have "q < Suc ?n \<and> hrAddr (ghObjs g' ! q) = l" if "ghConns g' l = Some q" for l q
    using that gh_ok_entry[OF ok, of l q] g' by (auto simp: nth_append split: if_splits)
  ultimately show ?thesis using g' by (simp add: gh_ok_def)
next
  case (Some q)
  with ok ret show ?thesis by (simp add: gh_retrieve_def)
qed

text \<open>Unregistering never closes a channel twice; it closes exactly the connection of the key.\<close>

lemma unregisterLocked_Some:
  assumes "gh_ok g" and "ghConns g k = Some r"
  shows "unregisterLocked k g = Ret (g\<lparr>ghObjs := (ghObjs g)[r := (ghObjs g ! r)\<lparr>hrReadCh := (hrReadCh (ghObjs g ! r))\<lparr>closed := True\<rparr>\<rparr>],
    ghConns := (ghConns g)(k := None)\<rparr>)"
  using gh_ok_entry[OF assms] assms(2) by (simp add: unregisterLocked_def chan_close_def)

lemma unregisterLocked_None: "ghConns g k = None \<Longrightarrow> unregisterLocked k g = Ret g"
  by (simp add: unregisterLocked_def fun_upd_idem)

lemma unregister_ok:
  assumes ok: "gh_ok g"
  shows "\<exists>g'. unregisterLocked k g = Ret g' \<and> gh_ok g'"
proof (cases "ghConns g k")
  case (Some r)
  note e = gh_ok_entry[OF ok Some]
  let ?g = "g\<lparr>ghObjs := (ghObjs g)[r := (ghObjs g ! r)\<lparr>hrReadCh := (hrReadCh (ghObjs g ! r))\<lparr>closed := True\<rparr>\<rparr>],
    ghConns := (ghConns g)(k := None)\<rparr>"
  have "closed (hrReadCh (ghObjs ?g ! q)) \<longleftrightarrow> ghConns ?g (hrAddr (ghObjs ?g ! q)) \<noteq> Some q" if "q < length (ghObjs g)" for q
    using ok Some e that by (cases "q = r") (auto simp: gh_ok_def)
  moreover have "q < length (ghObjs g) \<and> hrAddr (ghObjs ?g ! q) = l" if "ghConns ?g l = Some q" for l q
    using that gh_ok_entry[OF ok, of l q] by (cases "q = r") (auto split: if_splits)
  ultimately show ?thesis using unregisterLocked_Some[OF ok Some] by (simp add: gh_ok_def)
qed (use ok in \<open>simp add: unregisterLocked_None\<close>)

lemma nth_upd_proj: "f c = f (xs ! r) \<Longrightarrow> f (xs[r := c] ! q) = f (xs ! q)"
  by (cases "q = r"; cases "r < length xs") (simp_all add: list_update_beyond)

text \<open>Changes of one connection that leave its address and its channel's openness alone.\<close>

lemma gh_ok_obj:
  assumes ok: "gh_ok g" and "hrAddr c = hrAddr (ghObjs g ! r)" "closed (hrReadCh c) = closed (hrReadCh (ghObjs g ! r))"
  shows "gh_ok (g\<lparr>ghObjs := (ghObjs g)[r := c]\<rparr>)"
  using ok nth_upd_proj[where f = hrAddr, OF assms(2)] nth_upd_proj[where f = "\<lambda>c. closed (hrReadCh c)", OF assms(3)]
  by (simp add: gh_ok_def)

lemma gh_ok_bump: "gh_ok g \<Longrightarrow> gh_ok (bumpActivity now r g)"
  unfolding bumpActivity_def by (rule gh_ok_obj) simp_all

section \<open>The cleaner\<close>

lemma cleaner_tick_ok: "gh_ok g \<Longrightarrow> \<exists>g'. cleaner_tick now ks g = Ret g' \<and> gh_ok g'"
proof (induction ks arbitrary: g)
  case (Cons k ks)
  obtain g1 where g1: "(case ghConns g k of None \<Rightarrow> Ret g | Some r \<Rightarrow>
      if stale (ghTimeout g) now (ghObjs g ! r) then unregisterLocked (hrAddr (ghObjs g ! r)) g else Ret g) = Ret g1" "gh_ok g1"
  proof (cases "ghConns g k")
    case (Some r)
    with Cons.prems unregister_ok[OF Cons.prems, of "hrAddr (ghObjs g ! r)"] that show ?thesis
      by (cases "stale (ghTimeout g) now (ghObjs g ! r)") auto
  qed (use Cons.prems that in simp)
  with Cons.IH[of g1] show ?case by simp
qed simp

text \<open>What a tick does to the connection at a key: nothing when the key is not visited or not stale.\<close>

lemma unregister_other:
  assumes "gh_ok g" "unregisterLocked k g = Ret g'" "l \<noteq> k"
  shows "ghConns g' l = ghConns g l" and "ghConns g l = Some q \<Longrightarrow> ghObjs g' ! q = ghObjs g ! q"
    and "ghTimeout g' = ghTimeout g"
proof -
  show "ghConns g' l = ghConns g l" "ghTimeout g' = ghTimeout g"
    using assms(2,3) by (auto simp: unregisterLocked_def go_bind_Ret_iff split: option.splits)
  show "ghObjs g' ! q = ghObjs g ! q" if q: "ghConns g l = Some q"
  proof (cases "ghConns g k")
    case (Some r)
    with gh_ok_entry[OF assms(1) Some] gh_ok_entry[OF assms(1) q] assms(3) have "q \<noteq> r" by auto
    with assms(2) unregisterLocked_Some[OF assms(1) Some] show ?thesis by auto
  qed (use assms(2) unregisterLocked_None[of g k] in auto)
qed

lemma cleaner_tick_entry:
  assumes "gh_ok g" "distinct ks" "cleaner_tick now ks g = Ret g'"
  shows "ghConns g' k =
    (case ghConns g k of None \<Rightarrow> None
     | Some r \<Rightarrow> if k \<in> set ks \<and> stale (ghTimeout g) now (ghObjs g ! r) then None else Some r)"
  using assms
proof (induction ks arbitrary: g)
  case Nil
  then show ?case by (simp split: option.splits)
next
  case (Cons l ks)
  show ?case
  proof (cases "ghConns g l")
    case None
    with Cons.prems Cons.IH[of g] show ?thesis by (cases "k = l") (auto split: option.splits)
  next
    case (Some r)
    note e = gh_ok_entry[OF Cons.prems(1) Some]
    show ?thesis
    proof (cases "stale (ghTimeout g) now (ghObjs g ! r)")
      case False
      with Cons.prems Cons.IH[of g] Some show ?thesis by (cases "k = l") (auto split: option.splits)
    next
      case True
      obtain g1 where u: "unregisterLocked l g = Ret g1" "gh_ok g1" using unregister_ok[OF Cons.prems(1)] by blast
      with Cons.prems(3) Some True e have t: "cleaner_tick now ks g1 = Ret g'" by simp
      note ih = Cons.IH[OF u(2) _ t] and o = unregister_other[OF Cons.prems(1) u(1)]
      show ?thesis
      proof (cases "k = l")
        case True
        with ih Cons.prems(2) Some \<open>stale _ _ _\<close> ght.remove_tab[OF u(1)] show ?thesis by simp
      next
        case False
        with ih Cons.prems(2) o[OF False] show ?thesis by (auto split: option.splits)
      qed
    qed
  qed
qed

section \<open>The invariant of the transport\<close>

text \<open>Per connection: every message accepted for it was read, waits in its channel, is still to be
  delivered or was lost, exactly once; messages are lost only of a connection that was closed. A message is accepted for the connection of its source's address.\<close>

definition ht_conn_inv :: "'c ht_sys \<Rightarrow> nat \<Rightarrow> bool" where
  "ht_conn_inv s r \<longleftrightarrow>
     mset (of_conn r (htAccepted s)) =
       mset (of_conn r (htGot s)) + mset (buf (hrReadCh (ghObjs (ht s) ! r))) + mset (of_conn r (htPending s)) +
       mset (of_conn r (htLost s)) \<and>
     (of_conn r (htLost s) \<noteq> [] \<longrightarrow> closed (hrReadCh (ghObjs (ht s) ! r)))"

definition from_addr :: "(string \<Rightarrow> gerr + string) \<Rightarrow> Rpc \<Rightarrow> string \<Rightarrow> bool" where
  "from_addr sourceToAddress rpc a \<longleftrightarrow> (\<exists>h. rpcHeader rpc = Some h \<and> sourceToAddress (hSource h) = Inr a)"

definition ht_inv :: "(string \<Rightarrow> gerr + string) \<Rightarrow> 'c ht_sys \<Rightarrow> bool" where
  "ht_inv sourceToAddress s \<longleftrightarrow> gh_ok (ht s) \<and> (\<forall>r < length (ghObjs (ht s)). ht_conn_inv s r) \<and>
     (\<forall>x \<in> set (htAccepted s @ htGot s @ htPending s @ htLost s). fst x < length (ghObjs (ht s))) \<and>
     (\<forall>x \<in> set (htAccepted s). from_addr sourceToAddress (snd x) (hrAddr (ghObjs (ht s) ! fst x)))"

lemma ht_invD:
  assumes "ht_inv sta s"
  shows "gh_ok (ht s)" and "r < length (ghObjs (ht s)) \<Longrightarrow> ht_conn_inv s r"
    and "x \<in> set (htAccepted s) \<union> set (htGot s) \<union> set (htPending s) \<union> set (htLost s) \<Longrightarrow> fst x < length (ghObjs (ht s))"
  using assms by (auto simp: ht_inv_def)

text \<open>Two tables with the same connections, up to what is not a message: what the invariant reads of them.\<close>

definition same_msgs :: "'c GoatOverHttp \<Rightarrow> 'c GoatOverHttp \<Rightarrow> bool" where
  "same_msgs g g' \<longleftrightarrow> length (ghObjs g') = length (ghObjs g) \<and>
     (\<forall>r < length (ghObjs g). hrAddr (ghObjs g' ! r) = hrAddr (ghObjs g ! r) \<and>
        buf (hrReadCh (ghObjs g' ! r)) = buf (hrReadCh (ghObjs g ! r)) \<and>
        (closed (hrReadCh (ghObjs g ! r)) \<longrightarrow> closed (hrReadCh (ghObjs g' ! r))))"

lemma same_msgs_refl [simp]: "same_msgs g g"
  by (simp add: same_msgs_def)

lemma same_msgs_trans: "same_msgs f g \<Longrightarrow> same_msgs g h \<Longrightarrow> same_msgs f h"
  by (simp add: same_msgs_def)

lemma same_msgs_upd:
  assumes "hrAddr c = hrAddr (ghObjs g ! r)" "buf (hrReadCh c) = buf (hrReadCh (ghObjs g ! r))"
    and "closed (hrReadCh (ghObjs g ! r)) \<Longrightarrow> closed (hrReadCh c)" and "ghObjs g' = (ghObjs g)[r := c]"
  shows "same_msgs g g'"
proof -
  have "closed (hrReadCh (ghObjs g' ! q))" if "q < length (ghObjs g)" "closed (hrReadCh (ghObjs g ! q))" for q
    using assms(3,4) that by (cases "q = r") simp_all
  then show ?thesis
    using nth_upd_proj[where f = hrAddr, OF assms(1)] nth_upd_proj[where f = "\<lambda>c. buf (hrReadCh c)", OF assms(2)] assms(4)
    by (simp add: same_msgs_def)
qed

lemma same_msgs_unregister: "unregisterLocked k g = Ret g' \<Longrightarrow> same_msgs g g'"
proof (cases "ghConns g k")
  case (Some r)
  assume "unregisterLocked k g = Ret g'"
  with Some have "ghObjs g' = (ghObjs g)[r := (ghObjs g ! r)\<lparr>hrReadCh := (hrReadCh (ghObjs g ! r))\<lparr>closed := True\<rparr>\<rparr>]"
    by (auto simp: unregisterLocked_def go_bind_Ret_iff chan_simps)
  then show ?thesis by (rule same_msgs_upd[rotated 3]) simp_all
qed (simp add: unregisterLocked_None)

lemma same_msgs_bump: "same_msgs g (bumpActivity now r g)"
  by (rule same_msgs_upd) (simp_all add: bumpActivity_def)

lemma same_msgs_tick: "cleaner_tick now ks g = Ret g' \<Longrightarrow> same_msgs g g'"
proof (induction ks arbitrary: g)
  case (Cons k ks)
  from Cons.prems obtain g1 where
    g1: "(case ghConns g k of None \<Rightarrow> Ret g | Some r \<Rightarrow>
        if stale (ghTimeout g) now (ghObjs g ! r) then unregisterLocked (hrAddr (ghObjs g ! r)) g else Ret g) = Ret g1"
    and t: "cleaner_tick now ks g1 = Ret g'" by (auto simp: go_bind_Ret_iff)
  from g1 have "same_msgs g g1"
    by (auto split: option.splits if_splits intro: same_msgs_unregister)
  with Cons.IH[OF t] same_msgs_trans show ?case by blast
qed simp

lemma ht_inv_same:
  assumes "ht_inv sta s" "gh_ok g'" "same_msgs (ht s) g'"
  shows "ht_inv sta (s\<lparr>ht := g'\<rparr>)"
  using assms by (auto simp: ht_inv_def ht_conn_inv_def same_msgs_def)

lemma hrw_Write_ok:
  assumes ok: "gh_ok g"
  shows "\<exists>err rq g'. hrw_Write marshal badURL doReq now r rpc g = Ret (err, rq, g') \<and> gh_ok g' \<and> same_msgs g g'"
proof -
  let ?g = "bumpActivity now r g"
  obtain g2 where "unregisterLocked (hrAddr (ghObjs g ! r)) ?g = Ret g2" "gh_ok g2" "same_msgs g g2"
    using unregister_ok[OF gh_ok_bump[OF ok]] same_msgs_unregister same_msgs_trans[OF same_msgs_bump] by blast
  with gh_ok_bump[OF ok, of now r] same_msgs_bump[of g now r] show ?thesis
    by (simp add: hrw_Write_def Let_def split: sum.split option.split)
qed

lemma ht_inv_accept:
  assumes inv: "ht_inv sta s" and a: "ServeHTTP_accept unmarshal sta body (ht s) = (Accepted r rpc new, g')"
  shows "ht_inv sta (s\<lparr>ht := g', htPending := htPending s @ [(r, rpc)], htAccepted := htAccepted s @ [(r, rpc)]\<rparr>)"
proof -
  let ?g = "ht s" and ?n = "length (ghObjs (ht s))"
  from a obtain h k nw where h: "rpcHeader rpc = Some h" "sta (hSource h) = Inr k" and rt: "gh_retrieve k ?g = (r, nw, g')"
    by (auto simp: ServeHTTP_accept_def split: option.splits sum.splits if_splits prod.splits)
  have ok: "gh_ok g'" by (rule gh_ok_retrieve[OF ht_invD(1)[OF inv] rt])
  have r: "r < length (ghObjs g')" "hrAddr (ghObjs g' ! r) = k"
    using gh_ok_entry[OF ok ght.retrieve_entry(1)[OF rt]] by auto
  have old: "ghObjs g' ! q = ghObjs ?g ! q" if "q < ?n" for q
    using rt that by (auto simp: gh_retrieve_def nth_append split: option.splits)
  have len: "length (ghObjs g') = ?n \<or> length (ghObjs g') = Suc ?n \<and> buf (hrReadCh (ghObjs g' ! ?n)) = []"
    using rt by (auto simp: gh_retrieve_def split: option.splits)
  have fresh: "of_conn ?n (htAccepted s) = []" "of_conn ?n (htGot s) = []" "of_conn ?n (htPending s) = []" "of_conn ?n (htLost s) = []"
    using inv by (auto simp: ht_inv_def intro!: of_conn_fresh)
  let ?t = "s\<lparr>ht := g', htPending := htPending s @ [(r, rpc)], htAccepted := htAccepted s @ [(r, rpc)]\<rparr>"
  have "ht_conn_inv ?t q" if q: "q < length (ghObjs g')" for q
  proof (cases "q < ?n")
    case True
    with ht_invD(2)[OF inv True] old[OF True] show ?thesis by (simp add: ht_conn_inv_def)
  next
    case False
    with len q have "q = ?n" "buf (hrReadCh (ghObjs g' ! ?n)) = []" by auto
    with fresh show ?thesis by (simp add: ht_conn_inv_def)
  qed
  moreover have "\<forall>x \<in> set (htAccepted s). from_addr sta (snd x) (hrAddr (ghObjs g' ! fst x))"
    using inv old ht_invD(3)[OF inv] by (simp add: ht_inv_def)
  moreover have "\<forall>x \<in> set (htAccepted s @ htGot s @ htPending s @ htLost s). fst x < length (ghObjs g')"
    using ht_invD(3)[OF inv] len by fastforce
  ultimately show ?thesis using ok r h by (auto simp: ht_inv_def from_addr_def)
qed

text \<open>A step that moves messages of one connection.\<close>

lemma ht_inv_obj:
  assumes inv: "ht_inv sta s" and r: "r < length (ghObjs (ht s))"
    and c: "hrAddr c = hrAddr (ghObjs (ht s) ! r)" "closed (hrReadCh c) = closed (hrReadCh (ghObjs (ht s) ! r))"
    and got: "\<forall>x \<in> set got. fst x = r"
    and pend: "set pend \<subseteq> set (htPending s)" "\<And>q. q \<noteq> r \<Longrightarrow> of_conn q pend = of_conn q (htPending s)"
    and msgs: "mset (of_conn r (htGot s)) + mset (of_conn r got) + mset (buf (hrReadCh c)) + mset (of_conn r pend) =
      mset (of_conn r (htGot s)) + mset (buf (hrReadCh (ghObjs (ht s) ! r))) + mset (of_conn r (htPending s))"
  shows "ht_inv sta (s\<lparr>ht := (ht s)\<lparr>ghObjs := (ghObjs (ht s))[r := c]\<rparr>, htGot := htGot s @ got, htPending := pend\<rparr>)"
    (is "ht_inv sta ?t")
proof -
  have "ht_conn_inv ?t q" if q: "q < length (ghObjs (ht s))" for q
  proof (cases "q = r")
    case True
    with ht_invD(2)[OF inv r] msgs c(2) r show ?thesis by (simp add: ht_conn_inv_def)
  next
    case False
    with ht_invD(2)[OF inv q] pend(2)[OF False] of_conn_other[OF got False] show ?thesis by (simp add: ht_conn_inv_def)
  qed
  moreover have "gh_ok (ht ?t)" using gh_ok_obj[OF ht_invD(1)[OF inv] c] by simp
  moreover have "hrAddr ((ghObjs (ht s))[r := c] ! q) = hrAddr (ghObjs (ht s) ! q)" for q
    by (rule nth_upd_proj[where f = hrAddr, OF c(1)])
  moreover have "\<forall>x \<in> set (htAccepted ?t @ htGot ?t @ htPending ?t @ htLost ?t). fst x < length (ghObjs (ht ?t))"
    using ht_invD(3)[OF inv] got pend(1) r by auto
  moreover have "\<forall>x \<in> set (htAccepted s). from_addr sta (snd x) (hrAddr (ghObjs (ht s) ! fst x))"
    using inv by (simp add: ht_inv_def)
  ultimately show ?thesis by (simp add: ht_inv_def)
qed

lemma ht_inv_deliver:
  assumes inv: "ht_inv sta s" and p: "htPending s = ys @ (r, rpc) # zs" and d: "ServeHTTP_deliver r rpc (ht s) = Ret g'"
  shows "ht_inv sta (s\<lparr>ht := g', htPending := ys @ zs\<rparr>)"
proof -
  let ?c = "ghObjs (ht s) ! r"
  have r: "r < length (ghObjs (ht s))" using ht_invD(3)[OF inv, of "(r, rpc)"] p by simp
  from d obtain ch where ch: "chan_send (hrReadCh ?c) rpc = Ret ch" "g' = (ht s)\<lparr>ghObjs := (ghObjs (ht s))[r := ?c\<lparr>hrReadCh := ch\<rparr>]\<rparr>"
    by (auto simp: ServeHTTP_deliver_def go_bind_Ret_iff)
  have "ht_inv sta (s\<lparr>ht := (ht s)\<lparr>ghObjs := (ghObjs (ht s))[r := ?c\<lparr>hrReadCh := ch\<rparr>]\<rparr>, htGot := htGot s @ [], htPending := ys @ zs\<rparr>)"
    by (rule ht_inv_obj[OF inv r]) (use ch(1) p in \<open>auto simp: chan_simps\<close>)
  with ch(2) show ?thesis by simp
qed

lemma deliver_Panic_iff: "ServeHTTP_deliver r rpc g = Panic \<longleftrightarrow> closed (hrReadCh (ghObjs g ! r))"
  by (simp add: ServeHTTP_deliver_def go_bind_Panic_iff chan_simps)

lemma ht_inv_panic:
  assumes inv: "ht_inv sta s" and p: "htPending s = ys @ (r, rpc) # zs" and d: "ServeHTTP_deliver r rpc (ht s) = Panic"
  shows "ht_inv sta (s\<lparr>htPending := ys @ zs, htLost := htLost s @ [(r, rpc)]\<rparr>)" (is "ht_inv sta ?t")
proof -
  have "ht_conn_inv ?t q" if "q < length (ghObjs (ht s))" for q
    using ht_invD(2)[OF inv that] p d by (auto simp: ht_conn_inv_def deliver_Panic_iff)
  then show ?thesis using inv p by (auto simp: ht_inv_def)
qed

lemma ht_inv_read:
  assumes inv: "ht_inv sta s" and r: "r < length (ghObjs (ht s))" and d: "hrw_Read now r (ht s) = Ret (res, g')"
  shows "ht_inv sta (s\<lparr>ht := g', htGot := htGot s @ (case res of Inl e \<Rightarrow> [] | Inr rpc \<Rightarrow> [(r, rpc)])\<rparr>)"
proof -
  let ?c = "ghObjs (ht s) ! r" and ?got = "case res of Inl e \<Rightarrow> [] | Inr rpc \<Rightarrow> [(r, rpc)]"
  from d obtain v ch where v: "chan_recv (hrReadCh ?c) = Ret (v, ch)" by (auto simp: hrw_Read_def go_bind_Ret_iff)
  have e: "\<exists>c'. g' = (ht s)\<lparr>ghObjs := (ghObjs (ht s))[r := c']\<rparr> \<and> hrAddr c' = hrAddr ?c \<and> hrReadCh c' = ch \<and>
      res = (case v of None \<Rightarrow> Inl (Errorf ''readCh closed'') | Some rpc \<Rightarrow> Inr rpc)"
    using d v r by (cases v) (auto simp: hrw_Read_def bumpActivity_def Let_def)
  then obtain c' where c': "g' = (ht s)\<lparr>ghObjs := (ghObjs (ht s))[r := c']\<rparr>" "hrAddr c' = hrAddr ?c" "hrReadCh c' = ch"
    and res: "res = (case v of None \<Rightarrow> Inl (Errorf ''readCh closed'') | Some rpc \<Rightarrow> Inr rpc)" by blast
  have "closed ch = closed (hrReadCh ?c) \<and> buf (hrReadCh ?c) = of_conn r ?got @ buf ch"
    using v res by (cases v) (auto simp: chan_simps)
  then have "ht_inv sta (s\<lparr>ht := (ht s)\<lparr>ghObjs := (ghObjs (ht s))[r := c']\<rparr>, htGot := htGot s @ ?got, htPending := htPending s\<rparr>)"
    by (intro ht_inv_obj[OF inv r]) (use c' res in \<open>auto split: option.splits\<close>)
  with c'(1) show ?thesis by simp
qed

lemma ht_inv_connect:
  assumes inv: "ht_inv sta s" and c: "NewConnection k (ht s) = (r, g')"
  shows "ht_inv sta (s\<lparr>ht := g'\<rparr>)"
proof -
  let ?n = "length (ghObjs (ht s))"
  from c obtain new where rt: "gh_retrieve k (ht s) = (r, new, g')"
    by (auto simp: NewConnection_def split: prod.splits)
  show ?thesis
  proof (cases "ghConns (ht s) k")
    case (Some q)
    with rt have "g' = ht s" by (auto simp: gh_retrieve_def)
    with inv show ?thesis by simp
  next
    case None
    with rt have g': "ghObjs g' = ghObjs (ht s) @ [\<lparr>hrAddr = k, hrReadCh = make_chan 0, hrLastActivity = 0\<rparr>]"
      by (auto simp: gh_retrieve_def)
    have fresh: "of_conn ?n (htAccepted s) = []" "of_conn ?n (htGot s) = []" "of_conn ?n (htPending s) = []" "of_conn ?n (htLost s) = []"
      using inv by (auto simp: ht_inv_def intro!: of_conn_fresh)
    have "ht_conn_inv (s\<lparr>ht := g'\<rparr>) q" if "q < Suc ?n" for q
    proof (cases "q = ?n")
      case False
      with that have "q < ?n" by simp
      with ht_invD(2)[OF inv this] g' show ?thesis by (simp add: ht_conn_inv_def nth_append)
    qed (use fresh g' in \<open>simp add: ht_conn_inv_def\<close>)
    moreover have "gh_ok g'" by (rule gh_ok_retrieve[OF ht_invD(1)[OF inv] rt])
    ultimately show ?thesis
      using inv ht_invD(3)[OF inv] g' by (auto simp: ht_inv_def nth_append less_Suc_eq)
  qed
qed

lemma ht_inv_step: "ht_inv sta s \<Longrightarrow> ht_step um sta s t \<Longrightarrow> ht_inv sta t"
proof (erule ht_step.cases, goal_cases)
  case (1 body s' r rpc new g')
  then show ?case using ht_inv_accept by simp
next
  case (2 s' ys r rpc zs g')
  then show ?case using ht_inv_deliver by simp
next
  case (3 s' ys r rpc zs)
  then show ?case using ht_inv_panic by simp
next
  case (4 k s' r g')
  then show ?case using ht_inv_connect by simp
next
  case (5 r s')
  let ?c = "ghObjs (ht s) ! r"
  have r: "r < length (ghObjs (ht s))" using 5 by simp
  have "ht_inv sta (s\<lparr>ht := (ht s)\<lparr>ghObjs := (ghObjs (ht s))[r := ?c\<lparr>hrReadCh := chan_park (hrReadCh ?c)\<rparr>]\<rparr>,
      htGot := htGot s @ [], htPending := htPending s\<rparr>)"
    by (rule ht_inv_obj[OF 5(1) r]) (simp_all add: chan_park_def)
  with 5 show ?case by simp
next
  case (6 r s' now res g')
  then show ?case using ht_inv_read by simp
next
  case (7 r s' marshal badURL doReq now rpc err rq g')
  with hrw_Write_ok[OF ht_invD(1)[OF 7(1)], of marshal badURL doReq now r rpc] ht_inv_same[OF 7(1)]
  show ?case by simp
next
  case (8 s' ks now g')
  with cleaner_tick_ok[OF ht_invD(1)[OF 8(1)], of now ks] same_msgs_tick[of now ks "ht s" g'] ht_inv_same[OF 8(1)]
  show ?case by simp
next
  case (9 s')
  then show ?case by (auto simp: ht_inv_def ht_conn_inv_def gh_Cancel_def gh_ok_def)
next
  case (10 s')
  then show ?case by (simp add: ht_inv_def ht_conn_inv_def)
qed

interpretation hts: invariant_system ht_init "ht_step unmarshal sourceToAddress" "ht_inv sourceToAddress"
  for unmarshal sourceToAddress
proof unfold_locales
  have "ghObjs (fold gh_apply opts g) = ghObjs g" for opts and g :: "'a GoatOverHttp"
  proof (induction opts arbitrary: g)
    case (Cons opt opts)
    then show ?case by (cases opt) simp_all
  qed simp
  then have "ghObjs (NewGoatOverHttp cl opts) = []" for cl :: 'a and opts by (simp add: NewGoatOverHttp_def)
  then show "ht_init s \<Longrightarrow> ht_inv sourceToAddress s" for s :: "'a ht_sys"
    by (auto simp: ht_init_def ht_inv_def)
qed (rule ht_inv_step)

section \<open>Progress\<close>

text \<open>A reader gets everything in its channel, and then a message whose request waits to deliver it.\<close>

lemma reader_drains:
  "r < length (ghObjs (ht s)) \<Longrightarrow> buf (hrReadCh (ghObjs (ht s) ! r)) = ms \<Longrightarrow>
   \<exists>t. (ht_step unmarshal sta)\<^sup>*\<^sup>* s t \<and> htGot t = htGot s @ map (Pair r) ms \<and> htPending t = htPending s \<and>
     length (ghObjs (ht t)) = length (ghObjs (ht s)) \<and> buf (hrReadCh (ghObjs (ht t) ! r)) = [] \<and>
     closed (hrReadCh (ghObjs (ht t) ! r)) = closed (hrReadCh (ghObjs (ht s) ! r))"
proof (induction ms arbitrary: s)
  case Nil
  then show ?case by (intro exI[of _ s]) simp
next
  case (Cons m ms)
  let ?c = "ghObjs (ht s) ! r"
  let ?q = "(hrReadCh ?c)\<lparr>buf := ms, waiting := waiting (hrReadCh ?c) - 1\<rparr>"
  let ?g = "bumpActivity 0 r ((ht s)\<lparr>ghObjs := (ghObjs (ht s))[r := ?c\<lparr>hrReadCh := ?q\<rparr>]\<rparr>)"
  let ?t = "s\<lparr>ht := ?g, htGot := htGot s @ [(r, m)]\<rparr>"
  have "hrw_Read 0 r (ht s) = Ret (Inr m, ?g)" using Cons.prems(2) by (simp add: hrw_Read_def chan_recv_def)
  from ht_step.ht_read[OF Cons.prems(1) this, of unmarshal sta] have st: "ht_step unmarshal sta s ?t" by simp
  have "r < length (ghObjs (ht ?t))" "buf (hrReadCh (ghObjs (ht ?t) ! r)) = ms"
    "closed (hrReadCh (ghObjs (ht ?t) ! r)) = closed (hrReadCh ?c)" "length (ghObjs (ht ?t)) = length (ghObjs (ht s))"
    using Cons.prems(1) by (simp_all add: bumpActivity_def)
  with Cons.IH[of ?t] converse_rtranclp_into_rtranclp[of "ht_step unmarshal sta", OF st] show ?case by fastforce
qed

lemma request_delivers:
  assumes p: "(r, rpc) \<in> set (htPending s)" and r: "r < length (ghObjs (ht s))" and op: "\<not> closed (hrReadCh (ghObjs (ht s) ! r))"
  shows "\<exists>t. (ht_step unmarshal sta)\<^sup>*\<^sup>* s t \<and> htGot t = htGot s @ map (Pair r) (buf (hrReadCh (ghObjs (ht s) ! r)) @ [rpc])"
proof -
  obtain t where t: "(ht_step unmarshal sta)\<^sup>*\<^sup>* s t" "htGot t = htGot s @ map (Pair r) (buf (hrReadCh (ghObjs (ht s) ! r)))"
    "htPending t = htPending s" "r < length (ghObjs (ht t))" "buf (hrReadCh (ghObjs (ht t) ! r)) = []" "\<not> closed (hrReadCh (ghObjs (ht t) ! r))"
    using reader_drains[OF r refl, of unmarshal sta] r op by auto
  obtain ys zs where yz: "htPending t = ys @ (r, rpc) # zs" using p t(3) split_list by metis
  let ?c = "ghObjs (ht t) ! r"
  define u where "u = t\<lparr>ht := (ht t)\<lparr>ghObjs := (ghObjs (ht t))[r := ?c\<lparr>hrReadCh := chan_park (hrReadCh ?c)\<rparr>]\<rparr>\<rparr>"
  have u: "ht_step unmarshal sta t u" unfolding u_def by (rule ht_step.ht_park[OF t(4)])
  define g where "g = (ht u)\<lparr>ghObjs := (ghObjs (ht u))[r := (ghObjs (ht u) ! r)\<lparr>hrReadCh := (hrReadCh (ghObjs (ht u) ! r))\<lparr>buf := [rpc]\<rparr>\<rparr>]\<rparr>"
  have "ServeHTTP_deliver r rpc (ht u) = Ret g"
    using t(4-6) by (simp add: g_def u_def ServeHTTP_deliver_def chan_send_def chan_park_def)
  with yz have v: "ht_step unmarshal sta u (u\<lparr>ht := g, htPending := ys @ zs\<rparr>)"
    by (intro ht_step.ht_deliver) (simp_all add: u_def)
  let ?v = "u\<lparr>ht := g, htPending := ys @ zs\<rparr>"
  have "r < length (ghObjs (ht ?v))" "buf (hrReadCh (ghObjs (ht ?v) ! r)) = [rpc]" "htGot ?v = htGot t"
    using t(4) by (simp_all add: g_def u_def)
  with reader_drains[of r ?v "[rpc]" unmarshal sta] obtain w where "(ht_step unmarshal sta)\<^sup>*\<^sup>* ?v w" "htGot w = htGot t @ [(r, rpc)]"
    by auto
  with t(1,2) u v show ?thesis by (intro exI[of _ w]) (auto intro: rtranclp_trans converse_rtranclp_into_rtranclp)
qed

section \<open>Properties\<close>

text \<open>C16: In every reachable state of the HTTP transport, the messages accepted for a connection are, as a multiset,
  those its reader got, those in its channel, those still being delivered and those lost; all come from a source
  that maps to the connection's address. Messages are lost only of a connection that has left the table: the delivery of a
  message panics exactly then. While its connection is in the table, a message being delivered can be read: its request and
  the reader have steps that do it. Neither unregistering nor the cleaner panics.\<close>

theorem http_delivery:
  assumes "reach ht_init (ht_step unmarshal sta) s" and "r < length (ghObjs (ht s))"
  shows "mset (of_conn r (htAccepted s)) =
      mset (of_conn r (htGot s)) + mset (buf (hrReadCh (ghObjs (ht s) ! r))) + mset (of_conn r (htPending s)) + mset (of_conn r (htLost s)) \<and>
    (\<forall>rpc \<in> set (of_conn r (htAccepted s)). \<exists>h. rpcHeader rpc = Some h \<and> sta (hSource h) = Inr (hrAddr (ghObjs (ht s) ! r))) \<and>
    (of_conn r (htLost s) \<noteq> [] \<longrightarrow> ghConns (ht s) (hrAddr (ghObjs (ht s) ! r)) \<noteq> Some r) \<and>
    ((r, rpc) \<in> set (htPending s) \<longrightarrow>
      (if ghConns (ht s) (hrAddr (ghObjs (ht s) ! r)) = Some r
       then \<exists>t. (ht_step unmarshal sta)\<^sup>*\<^sup>* s t \<and> htGot t = htGot s @ map (Pair r) (buf (hrReadCh (ghObjs (ht s) ! r)) @ [rpc])
       else ServeHTTP_deliver r rpc (ht s) = Panic)) \<and>
    (\<exists>g'. unregisterLocked k (ht s) = Ret g') \<and> (\<exists>g'. cleaner_tick now ks (ht s) = Ret g')"
proof -
  have inv: "ht_inv sta s" by (rule hts.reach_inv[OF assms(1)])
  note ok = ht_invD(1)[OF inv]
  have src: "\<forall>rpc \<in> set (of_conn r (htAccepted s)). \<exists>h. rpcHeader rpc = Some h \<and> sta (hSource h) = Inr (hrAddr (ghObjs (ht s) ! r))"
    using inv by (auto simp: ht_inv_def of_conn_def from_addr_def)
  have cl: "closed (hrReadCh (ghObjs (ht s) ! r)) \<longleftrightarrow> ghConns (ht s) (hrAddr (ghObjs (ht s) ! r)) \<noteq> Some r"
    using ok assms(2) by (simp add: gh_ok_def)
  have "if ghConns (ht s) (hrAddr (ghObjs (ht s) ! r)) = Some r
      then \<exists>t. (ht_step unmarshal sta)\<^sup>*\<^sup>* s t \<and> htGot t = htGot s @ map (Pair r) (buf (hrReadCh (ghObjs (ht s) ! r)) @ [rpc])
      else ServeHTTP_deliver r rpc (ht s) = Panic" if "(r, rpc) \<in> set (htPending s)"
    using request_delivers[OF that assms(2)] cl by (simp add: deliver_Panic_iff)
  with src cl ht_invD(2)[OF inv assms(2)] unregister_ok[OF ok] cleaner_tick_ok[OF ok] show ?thesis
    unfolding ht_conn_inv_def by blast
qed


text \<open>A request is accepted exactly when it has a readable body that decodes to a message whose header names
  a source with an address; every other request is answered 400 and changes nothing. A second request
  from the same source finds the same connection, and does not report it as new.\<close>

lemma http_accept_iff:
  "(case ServeHTTP_accept unmarshal sta body g of
      (BadRequest m, g') \<Rightarrow> g' = g \<and>
        \<not> (\<exists>data rpc h a. body = Some (Inr data) \<and> unmarshal data = Inr rpc \<and> rpcHeader rpc = Some h \<and>
             hSource h \<noteq> '''' \<and> sta (hSource h) = Inr a)
    | (Accepted r rpc new, g') \<Rightarrow>
        \<exists>data h a. body = Some (Inr data) \<and> unmarshal data = Inr rpc \<and> rpcHeader rpc = Some h \<and> hSource h \<noteq> '''' \<and>
          sta (hSource h) = Inr a \<and> ghConns g' a = Some r \<and> new = (if ghConns g a = None then Some a else None) \<and>
          ServeHTTP_accept unmarshal sta body g' = (Accepted r rpc None, g'))"
proof (cases "\<exists>data rpc h a. body = Some (Inr data) \<and> unmarshal data = Inr rpc \<and> rpcHeader rpc = Some h \<and>
    hSource h \<noteq> '''' \<and> sta (hSource h) = Inr a")
  case True
  then obtain data rpc h a where b: "body = Some (Inr data)" "unmarshal data = Inr rpc" "rpcHeader rpc = Some h"
    "hSource h \<noteq> ''''" "sta (hSource h) = Inr a" by blast
  obtain r new g' where rt: "gh_retrieve a g = (r, new, g')" by (cases "gh_retrieve a g")
  with b ght.retrieve_entry(1,2)[OF rt] ght.retrieve_again[OF rt] show ?thesis
    by (simp add: ServeHTTP_accept_def)
next
  case False
  then have "\<exists>m. ServeHTTP_accept unmarshal sta body g = (BadRequest m, g)"
    by (auto simp: ServeHTTP_accept_def split: option.splits sum.splits)
  with False show ?thesis by auto
qed

text \<open>C25: A message crosses HTTP: when its header names a source that the peer maps to an address, the request a successful
  \<open>Write\<close> posts is accepted by the peer, for the connection of that address, and decodes to the message written, in
  which a slice that was empty is nil.\<close>

theorem http_roundtrip:
  assumes "codec_ok marshal unmarshal" and "hrw_Write marshal badURL doReq now q rpc g = Ret (None, Some rq, g1)"
    and "rpcHeader rpc = Some h" and "hSource h \<noteq> ''''" and "sta (hSource h) = Inr a"
  shows "hqURL rq = ''http://'' @ hrAddr (ghObjs g ! q) \<and>
    (\<exists>r new peer'. ServeHTTP_accept unmarshal sta (Some (Inr (hqBody rq))) peer = (Accepted r (wire_rpc rpc) new, peer') \<and>
       ghConns peer' a = Some r)"
proof -
  from assms(2) obtain data where d: "marshal rpc = Inr data" "rq = post_request (hrAddr (ghObjs g ! q)) data"
    by (auto simp: hrw_Write_def Let_def go_bind_Ret_iff split: sum.splits option.splits)
  have "unmarshal data = Inr (wire_rpc rpc)" using assms(1) d(1) by (simp add: codec_ok_def)
  moreover obtain r new peer' where rt: "gh_retrieve a peer = (r, new, peer')" by (cases "gh_retrieve a peer")
  ultimately show ?thesis
    using assms(3-5) d(2) ght.retrieve_entry(1)[OF rt] by (simp add: ServeHTTP_accept_def post_request_def)
qed

text \<open>A connection is stale from the moment it is made: its last activity is 0, so when the clock reads at least
  the timeout, a tick between the acceptance and the delivery of its first message closes it,
  and the delivery panics.\<close>

lemma http_fresh_conn_stale:
  assumes "reach ht_init (ht_step unmarshal sta) s"
    and "ServeHTTP_accept unmarshal sta body (ht s) = (Accepted r rpc (Some k), g1)"
    and "sint (ghTimeout (ht s)) = secs * 10 ^ 9" and "secs \<le> sint now"
    and "distinct ks" and "set ks = dom (ghConns g1)"
  shows "\<exists>g2. cleaner_tick now ks g1 = Ret g2 \<and> ServeHTTP_deliver r rpc g2 = Panic"
proof -
  have ok: "gh_ok (ht s)" by (rule ht_invD(1)[OF hts.reach_inv[OF assms(1)]])
  from assms(2) have rt: "gh_retrieve k (ht s) = (r, True, g1)"
    by (auto simp: ServeHTTP_accept_def split: option.splits sum.splits if_splits prod.splits)
  note ok1 = gh_ok_retrieve[OF ok rt]
  obtain g2 where g2: "cleaner_tick now ks g1 = Ret g2" "gh_ok g2" using cleaner_tick_ok[OF ok1] by blast
  have e: "ghConns g1 k = Some r" "ghTimeout g1 = ghTimeout (ht s)" "hrLastActivity (ghObjs g1 ! r) = 0"
    using rt by (auto simp: gh_retrieve_def split: option.splits)
  then have "stale (ghTimeout g1) now (ghObjs g1 ! r)"
    using seconds_whole[OF assms(3)] assms(4) by (simp add: stale_def)
  then have k: "ghConns g2 k = None"
    using cleaner_tick_entry[OF ok1 assms(5) g2(1), of k] e(1) assms(6) by (simp add: domI)
  have "r < length (ghObjs g2)" "hrAddr (ghObjs g2 ! r) = k"
    using same_msgs_tick[OF g2(1)] gh_ok_entry[OF ok1 e(1)] by (auto simp: same_msgs_def)
  with k g2(2) have "closed (hrReadCh (ghObjs g2 ! r))" by (simp add: gh_ok_def)
  with g2(1) show ?thesis by (simp add: ServeHTTP_deliver_def chan_send_def)
qed

text \<open>A connection closes by name: a failed write of an old connection unregisters the new one of the same address.\<close>

lemma hrw_Write_stale_close:
  assumes "gh_ok g" and "q < length (ghObjs g)" and "ghConns g (hrAddr (ghObjs g ! q)) = Some r" and "marshal rpc = Inr data"
    and "badURL (''http://'' @ hrAddr (ghObjs g ! q)) = None" and "doReq (post_request (hrAddr (ghObjs g ! q)) data) = Some e"
  shows "\<exists>rq g'. hrw_Write marshal badURL doReq now q rpc g = Ret (Some e, rq, g') \<and> ghConns g' (hrAddr (ghObjs g ! q)) = None"
proof -
  obtain g2 where "unregisterLocked (hrAddr (ghObjs g ! q)) (bumpActivity now q g) = Ret g2"
    using unregister_ok[OF gh_ok_bump[OF assms(1)]] by blast
  with ght.remove_tab[OF this] assms(4-6) show ?thesis by (simp add: hrw_Write_def Let_def)
qed

text \<open>A message, its bytes, and the transport before and after its acceptance.\<close>

definition demo_http_rpc :: Rpc where
  "demo_http_rpc =
     \<lparr>rpcId = 1, rpcHeader = Some (header_of ''/s/m'' ''a'' ''b'' []), rpcStatus = None, rpcBody = None,
      rpcTrailer = None, rpcReset = None\<rparr>"

definition demo_body :: bytes where
  "demo_body = enc_rpc (rpc_fields demo_http_rpc)"

lemma wire_demo_body [simp]:
  "wire_marshal demo_http_rpc = Inr demo_body" "wire_unmarshal demo_body = Inr demo_http_rpc"
proof -
  show m: "wire_marshal demo_http_rpc = Inr demo_body" by (simp add: wire_marshal_def demo_body_def)
  have "wire_rpc demo_http_rpc = demo_http_rpc"
    by (simp add: demo_http_rpc_def wire_rpc_def wire_header_def header_of_def)
  with m wire_codec_ok show "wire_unmarshal demo_body = Inr demo_http_rpc" by (simp add: codec_ok_def)
qed

definition demo_ht :: "unit ht_sys" where
  "demo_ht = \<lparr>ht = NewGoatOverHttp () [], htPending = [], htAccepted = [], htGot = [], htLost = [], htCleaning = True\<rparr>"

definition demo_gh :: "unit GoatOverHttp" where
  "demo_gh = snd (ServeHTTP_accept wire_unmarshal Inr (Some (Inr demo_body)) (ht demo_ht))"

definition demo_ht1 :: "unit ht_sys" where
  "demo_ht1 = demo_ht\<lparr>ht := demo_gh, htPending := htPending demo_ht @ [(0, demo_http_rpc)],
     htAccepted := htAccepted demo_ht @ [(0, demo_http_rpc)]\<rparr>"

lemma demo_ht_accept:
  "ServeHTTP_accept wire_unmarshal Inr (Some (Inr demo_body)) (ht demo_ht) = (Accepted 0 demo_http_rpc (Some ''a''), demo_gh)"
  unfolding demo_gh_def
  by (simp add: ServeHTTP_accept_def demo_http_rpc_def gh_retrieve_def demo_ht_def NewGoatOverHttp_def)

lemma demo_gh_sel:
  "ghConns demo_gh = [''a'' \<mapsto> 0]" "ghObjs demo_gh = [\<lparr>hrAddr = ''a'', hrReadCh = make_chan 0, hrLastActivity = 0\<rparr>]"
  "ghTimeout demo_gh = 240 * 10 ^ 9"
  by (simp_all add: demo_gh_def ServeHTTP_accept_def demo_http_rpc_def gh_retrieve_def demo_ht_def NewGoatOverHttp_def)

lemma reach_demo_ht: "reach ht_init (ht_step wire_unmarshal Inr) demo_ht"
  by (rule reach_init) (auto simp: ht_init_def demo_ht_def)

lemma reach_demo_ht1: "reach ht_init (ht_step wire_unmarshal Inr) demo_ht1"
  unfolding demo_ht1_def by (rule reach_step[OF reach_demo_ht ht_accept[OF demo_ht_accept]])

theorem http_delivery_witness:
  "\<exists>t. (ht_step wire_unmarshal Inr)\<^sup>*\<^sup>* demo_ht1 t \<and> htGot t = [(0, demo_http_rpc)]"
  using http_delivery[OF reach_demo_ht1, of 0 demo_http_rpc "''a''" 0 "[]"]
  by (auto simp: demo_ht1_def demo_gh_sel demo_ht_def)


theorem http_roundtrip_witness:
  "\<exists>rq g1 r new peer'. hrw_Write wire_marshal (\<lambda>_. None) (\<lambda>_. None) 5 0 demo_http_rpc demo_gh = Ret (None, Some rq, g1) \<and>
     ServeHTTP_accept wire_unmarshal Inr (Some (Inr (hqBody rq))) demo_gh = (Accepted r (wire_rpc demo_http_rpc) new, peer')"
proof -
  obtain rq g1 where w: "hrw_Write wire_marshal (\<lambda>_. None) (\<lambda>_. None) 5 0 demo_http_rpc demo_gh = Ret (None, Some rq, g1)"
    by (simp add: hrw_Write_def)
  with http_roundtrip[OF wire_codec_ok w, of "header_of ''/s/m'' ''a'' ''b'' []" Inr "''a''" demo_gh]
  show ?thesis by (auto simp: demo_http_rpc_def)
qed

end
