(* ===== verification/Goat_Fair.thy ===== *)
theory Goat_Fair
  imports Goat_Prelude
begin

text \<open>
  Infinite runs of the step relations and what happens in them eventually. A scheduler that forgets no goroutine
  is weak fairness of the goroutine's steps; a channel that serves its waiting senders in order is strong fairness of
  the sends. The rules derive that one situation leads to another from the steps that are taken in between.
\<close>

section \<open>Runs and fairness\<close>

text \<open>A run takes a step of the relation or stands still; \<open>act\<close> is the part of the steps one goroutine takes.\<close>

definition run :: "('s \<Rightarrow> 's \<Rightarrow> bool) \<Rightarrow> (nat \<Rightarrow> 's) \<Rightarrow> bool" where
  "run step \<sigma> \<longleftrightarrow> (\<forall>i. \<sigma> (Suc i) = \<sigma> i \<or> step (\<sigma> i) (\<sigma> (Suc i)))"

definition enabled :: "('s \<Rightarrow> 's \<Rightarrow> bool) \<Rightarrow> 's \<Rightarrow> bool" where
  "enabled act s \<longleftrightarrow> (\<exists>t. act s t)"

definition weakly_fair :: "('s \<Rightarrow> 's \<Rightarrow> bool) \<Rightarrow> (nat \<Rightarrow> 's) \<Rightarrow> bool" where
  "weakly_fair act \<sigma> \<longleftrightarrow> (\<forall>i. (\<forall>j\<ge>i. enabled act (\<sigma> j)) \<longrightarrow> (\<exists>j\<ge>i. act (\<sigma> j) (\<sigma> (Suc j))))"

definition strongly_fair :: "('s \<Rightarrow> 's \<Rightarrow> bool) \<Rightarrow> (nat \<Rightarrow> 's) \<Rightarrow> bool" where
  "strongly_fair act \<sigma> \<longleftrightarrow> (\<forall>i. (\<forall>j\<ge>i. \<exists>k\<ge>j. enabled act (\<sigma> k)) \<longrightarrow> (\<exists>j\<ge>i. act (\<sigma> j) (\<sigma> (Suc j))))"

definition leads_to :: "(nat \<Rightarrow> 's) \<Rightarrow> ('s \<Rightarrow> bool) \<Rightarrow> ('s \<Rightarrow> bool) \<Rightarrow> bool" where
  "leads_to \<sigma> P Q \<longleftrightarrow> (\<forall>i. P (\<sigma> i) \<longrightarrow> (\<exists>j\<ge>i. Q (\<sigma> j)))"

lemma run_reach: "run step \<sigma> \<Longrightarrow> init (\<sigma> 0) \<Longrightarrow> reach init step (\<sigma> i)"
proof (induction i)
  case (Suc i)
  then show ?case unfolding run_def by (metis reach_step)
qed (rule reach_init)

lemma run_steps: "run step \<sigma> \<Longrightarrow> i \<le> j \<Longrightarrow> step\<^sup>*\<^sup>* (\<sigma> i) (\<sigma> j)"
proof (induction j)
  case (Suc j)
  then show ?case unfolding run_def by (metis le_SucE rtranclp.simps)
qed simp

text \<open>The rest of a run from some position on.\<close>

lemma run_shift: "run step \<sigma> \<Longrightarrow> run step (\<lambda>i. \<sigma> (k + i))"
  by (simp add: run_def)

lemma weakly_fair_shift: "weakly_fair act \<sigma> \<Longrightarrow> weakly_fair act (\<lambda>i. \<sigma> (k + i))"
  unfolding weakly_fair_def by (metis add_Suc_right add_left_mono le_add_diff_inverse le_trans le_add1 nat_add_left_cancel_le)

lemma strongly_fair_shift:
  assumes "strongly_fair act \<sigma>"
  shows "strongly_fair act (\<lambda>i. \<sigma> (k + i))"
  unfolding strongly_fair_def
proof (intro allI impI)
  fix i assume io: "\<forall>j\<ge>i. \<exists>l\<ge>j. enabled act (\<sigma> (k + l))"
  have "\<exists>l\<ge>j. enabled act (\<sigma> l)" if "k + i \<le> j" for j
  proof -
    from io that obtain l where "j - k \<le> l" "enabled act (\<sigma> (k + l))" by (metis add_le_imp_le_diff add.commute)
    then show ?thesis by (intro exI[of _ "k + l"]) simp
  qed
  with assms obtain j where "k + i \<le> j" "act (\<sigma> j) (\<sigma> (Suc j))" unfolding strongly_fair_def by blast
  then show "\<exists>j\<ge>i. act (\<sigma> (k + j)) (\<sigma> (k + Suc j))" by (intro exI[of _ "j - k"]) simp
qed

lemma strongly_weakly_fair: "strongly_fair act \<sigma> \<Longrightarrow> weakly_fair act \<sigma>"
  unfolding strongly_fair_def weakly_fair_def by (meson order_refl order_trans)

lemma leads_toI: "(\<And>i. P (\<sigma> i) \<Longrightarrow> \<exists>j\<ge>i. Q (\<sigma> j)) \<Longrightarrow> leads_to \<sigma> P Q"
  by (simp add: leads_to_def)

lemma leads_toD: "leads_to \<sigma> P Q \<Longrightarrow> P (\<sigma> i) \<Longrightarrow> \<exists>j\<ge>i. Q (\<sigma> j)"
  by (simp add: leads_to_def)

lemma leads_to_then: "leads_to \<sigma> P (\<lambda>s. Q s \<or> R s) \<Longrightarrow> leads_to \<sigma> R Q \<Longrightarrow> leads_to \<sigma> P Q"
  unfolding leads_to_def by (meson order_trans)

section \<open>Rules\<close>

text \<open>What holds and is kept until \<open>Q\<close> holds at every later position up to the first \<open>Q\<close>.\<close>

lemma kept_until:
  assumes keep: "\<And>i. P (\<sigma> i) \<Longrightarrow> \<not> Q (\<sigma> i) \<Longrightarrow> P (\<sigma> (Suc i)) \<or> Q (\<sigma> (Suc i))"
    and P: "P (\<sigma> i)" and never: "\<And>j. i \<le> j \<Longrightarrow> \<not> Q (\<sigma> j)" and "i \<le> j"
  shows "P (\<sigma> j)"
  using \<open>i \<le> j\<close>
proof (induction rule: dec_induct)
  case (step j)
  with keep[of j] never[of j] never[of "Suc j"] show ?case by simp
qed (rule P)

text \<open>Under weak fairness: \<open>P\<close> lasts until \<open>Q\<close>, enables the action all the time, and the action leads to \<open>Q\<close>.\<close>

lemma wf_leads_to:
  assumes "weakly_fair act \<sigma>"
    and keep: "\<And>i. P (\<sigma> i) \<Longrightarrow> \<not> Q (\<sigma> i) \<Longrightarrow> P (\<sigma> (Suc i)) \<or> Q (\<sigma> (Suc i))"
    and en: "\<And>i. P (\<sigma> i) \<Longrightarrow> \<not> Q (\<sigma> i) \<Longrightarrow> enabled act (\<sigma> i)"
    and goal: "\<And>i. P (\<sigma> i) \<Longrightarrow> \<not> Q (\<sigma> i) \<Longrightarrow> act (\<sigma> i) (\<sigma> (Suc i)) \<Longrightarrow> Q (\<sigma> (Suc i))"
  shows "leads_to \<sigma> P Q"
proof (rule leads_toI, rule ccontr)
  fix i assume P: "P (\<sigma> i)" and "\<not> (\<exists>j\<ge>i. Q (\<sigma> j))"
  then have never: "\<And>j. i \<le> j \<Longrightarrow> \<not> Q (\<sigma> j)" by blast
  have kept: "P (\<sigma> j)" if "i \<le> j" for j
    using keep P never that by (rule kept_until)
  with en never have "\<forall>j\<ge>i. enabled act (\<sigma> j)" by blast
  with assms(1) obtain j where "i \<le> j" "act (\<sigma> j) (\<sigma> (Suc j))" unfolding weakly_fair_def by blast
  with goal[of j] kept never[of j] never[of "Suc j"] show False by simp
qed

text \<open>Under strong fairness it is enough that the action is enabled again and again.\<close>

lemma sf_leads_to:
  assumes "strongly_fair act \<sigma>"
    and keep: "\<And>i. P (\<sigma> i) \<Longrightarrow> \<not> Q (\<sigma> i) \<Longrightarrow> P (\<sigma> (Suc i)) \<or> Q (\<sigma> (Suc i))"
    and en: "leads_to \<sigma> P (\<lambda>s. Q s \<or> enabled act s)"
    and goal: "\<And>i. P (\<sigma> i) \<Longrightarrow> \<not> Q (\<sigma> i) \<Longrightarrow> act (\<sigma> i) (\<sigma> (Suc i)) \<Longrightarrow> Q (\<sigma> (Suc i))"
  shows "leads_to \<sigma> P Q"
proof (rule leads_toI, rule ccontr)
  fix i assume P: "P (\<sigma> i)" and "\<not> (\<exists>j\<ge>i. Q (\<sigma> j))"
  then have never: "\<And>j. i \<le> j \<Longrightarrow> \<not> Q (\<sigma> j)" by blast
  have kept: "P (\<sigma> j)" if "i \<le> j" for j
    using keep P never that by (rule kept_until)
  have "\<forall>j\<ge>i. \<exists>k\<ge>j. enabled act (\<sigma> k)"
  proof (intro allI impI)
    fix j assume "i \<le> j"
    with leads_toD[OF en kept] obtain k where "j \<le> k" "Q (\<sigma> k) \<or> enabled act (\<sigma> k)" by blast
    with never \<open>i \<le> j\<close> show "\<exists>k\<ge>j. enabled act (\<sigma> k)" by (meson order_trans)
  qed
  with assms(1) obtain j where "i \<le> j" "act (\<sigma> j) (\<sigma> (Suc j))" unfolding strongly_fair_def by blast
  with goal[of j] kept never[of j] never[of "Suc j"] show False by simp
qed

text \<open>A measure that goes down as long as the goal is not reached.\<close>

lemma leads_to_measure:
  fixes f :: "'s \<Rightarrow> nat"
  assumes down: "\<And>n. leads_to \<sigma> (\<lambda>s. P s \<and> f s = n) (\<lambda>s. Q s \<or> P s \<and> f s < n)"
  shows "leads_to \<sigma> P Q"
proof (rule leads_toI)
  fix i assume "P (\<sigma> i)"
  then show "\<exists>j\<ge>i. Q (\<sigma> j)"
  proof (induction "f (\<sigma> i)" arbitrary: i rule: less_induct)
    case less
    then obtain j where j: "i \<le> j" "Q (\<sigma> j) \<or> P (\<sigma> j) \<and> f (\<sigma> j) < f (\<sigma> i)"
      using leads_toD[OF down, of i "f (\<sigma> i)"] by blast
    with less.hyps[of j] show ?case by (meson order_trans)
  qed
qed

text \<open>What lasts until \<open>Q\<close> is still there when something else leads on.\<close>

lemma leads_to_unless:
  assumes keep: "\<And>i. P (\<sigma> i) \<Longrightarrow> \<not> Q (\<sigma> i) \<Longrightarrow> P (\<sigma> (Suc i)) \<or> Q (\<sigma> (Suc i))" and "leads_to \<sigma> A B"
  shows "leads_to \<sigma> (\<lambda>s. P s \<and> A s) (\<lambda>s. Q s \<or> P s \<and> B s)"
proof (rule leads_toI)
  fix i assume a: "P (\<sigma> i) \<and> A (\<sigma> i)"
  then obtain j where j: "i \<le> j" "B (\<sigma> j)" using assms(2) by (auto simp: leads_to_def)
  from \<open>i \<le> j\<close> have "P (\<sigma> j) \<or> (\<exists>k\<ge>i. Q (\<sigma> k))"
  proof (induction rule: dec_induct)
    case (step n)
    with keep[of n] show ?case by (meson le_SucI)
  qed (use a in simp)
  with j show "\<exists>j\<ge>i. Q (\<sigma> j) \<or> P (\<sigma> j) \<and> B (\<sigma> j)" by blast
qed

section \<open>Runs that stop\<close>

text \<open>A finite run that stands still at its end, for examples: it is fair to every action that is not enabled there.\<close>

definition stops :: "'s list \<Rightarrow> nat \<Rightarrow> 's" where
  "stops ss i = ss ! min i (length ss - 1)"

lemma stops_run:
  assumes "ss \<noteq> []" and "\<And>i. Suc i < length ss \<Longrightarrow> step (ss ! i) (ss ! Suc i)"
  shows "run step (stops ss)"
  unfolding run_def
proof
  fix i
  show "stops ss (Suc i) = stops ss i \<or> step (stops ss i) (stops ss (Suc i))"
  proof (cases "Suc i < length ss")
    case True
    then have "min i (length ss - 1) = i" "min (Suc i) (length ss - 1) = Suc i" by auto
    with assms(2)[OF True] show ?thesis by (simp add: stops_def)
  next
    case False
    then have "min i (length ss - 1) = min (Suc i) (length ss - 1)" by auto
    then show ?thesis by (simp add: stops_def)
  qed
qed

lemma stops_all: "ss \<noteq> [] \<Longrightarrow> (\<And>s. s \<in> set ss \<Longrightarrow> P s) \<Longrightarrow> P (stops ss j)"
proof -
  assume "ss \<noteq> []" and P: "\<And>s. s \<in> set ss \<Longrightarrow> P s"
  then have "min j (length ss - 1) < length ss" by (cases ss) auto
  then show "P (stops ss j)" unfolding stops_def by (intro P nth_mem)
qed

text \<open>A list of states, each a step from the one before.\<close>

fun steps :: "('s \<Rightarrow> 's \<Rightarrow> bool) \<Rightarrow> 's list \<Rightarrow> bool" where
  "steps step (s # t # ss) \<longleftrightarrow> step s t \<and> steps step (t # ss)"
| "steps step ss \<longleftrightarrow> True"

lemma steps_nth: "steps step ss \<Longrightarrow> Suc i < length ss \<Longrightarrow> step (ss ! i) (ss ! Suc i)"
proof (induction step ss arbitrary: i rule: steps.induct)
  case (1 step s t ss)
  then show ?case by (cases i) auto
qed auto

lemma steps_run: "steps step ss \<Longrightarrow> ss \<noteq> [] \<Longrightarrow> run step (stops ss)"
  by (rule stops_run) (auto intro: steps_nth)

lemma stops_last: "ss \<noteq> [] \<Longrightarrow> length ss \<le> Suc i \<Longrightarrow> stops ss i = last ss"
  by (simp add: stops_def last_conv_nth min_absorb2)

lemma stops_fair:
  assumes "ss \<noteq> []" and "\<not> enabled act (last ss)"
  shows "weakly_fair act (stops ss)" and "strongly_fair act (stops ss)"
proof -
  have off: "\<not> enabled act (stops ss j)" if "length ss \<le> j" for j using assms that by (simp add: stops_last)
  show "strongly_fair act (stops ss)" unfolding strongly_fair_def
  proof (intro allI impI)
    fix i assume "\<forall>j\<ge>i. \<exists>k\<ge>j. enabled act (stops ss k)"
    then obtain k where "max i (length ss) \<le> k" "enabled act (stops ss k)" by (meson max.cobounded1)
    with off[of k] show "\<exists>j\<ge>i. act (stops ss j) (stops ss (Suc j))" by simp
  qed
  then show "weakly_fair act (stops ss)" by (rule strongly_weakly_fair)
qed

end
