(* ===== verification/Goat_Proxy.thy ===== *)
theory Goat_Proxy
  imports Goat_Conn_Table
begin

text \<open>
  The proxy, \<^verbatim>\<open>proxy.go\<close>: the table of clients, the forwarding of a message with its route, the server
  loop's commands, and the loops of a client. The lemmas show where a message goes, that a client's
  queue is bounded and in order, and that responses retrace the route of their request.
\<close>

section \<open>State\<close>

definition clientBufferSize :: nat where
  "clientBufferSize = 16"

text \<open>\<open>pcConn\<close> says whether the client has a connection (an outgoing one is made later, by \<open>connect\<close>).\<close>

record proxyClient =
  pcId :: string
  pcConn :: bool
  pcQueue :: "Rpc chan"

record command =
  cmdId :: string
  cmdRpc :: "Rpc option"
  cmdErr :: "gerr option"

record Proxy =
  pxId :: string
  pxClients :: "string \<rightharpoonup> nat"
  pxObjs :: "proxyClient list"

definition NewProxy :: "string \<Rightarrow> Proxy" where
  "NewProxy pid = \<lparr>pxId = pid, pxClients = Map.empty, pxObjs = []\<rparr>"

definition new_client :: "string \<Rightarrow> bool \<Rightarrow> proxyClient" where
  "new_client cid conn = \<lparr>pcId = cid, pcConn = conn, pcQueue = make_chan clientBufferSize\<rparr>"

definition AddClient :: "string \<Rightarrow> Proxy \<Rightarrow> Proxy" where
  "AddClient cid p =
     p\<lparr>pxObjs := pxObjs p @ [new_client cid True],
       pxClients := (pxClients p)(cid \<mapsto> length (pxObjs p))\<rparr>"

definition addOutgoingConnectionLocked :: "string \<Rightarrow> Proxy \<Rightarrow> nat \<times> Proxy" where
  "addOutgoingConnectionLocked cid p =
     (length (pxObjs p),
      p\<lparr>pxObjs := pxObjs p @ [new_client cid False],
        pxClients := (pxClients p)(cid \<mapsto> length (pxObjs p))\<rparr>)"

text \<open>The lookup of \<open>forwardRpc\<close>, under the mutex, and the deletion of a client.\<close>

definition proxy_client :: "string \<Rightarrow> Proxy \<Rightarrow> nat \<times> bool \<times> Proxy" where
  "proxy_client cid p =
     (case pxClients p cid of
        Some r \<Rightarrow> (r, False, p)
      | None \<Rightarrow> (case addOutgoingConnectionLocked cid p of (r, p1) \<Rightarrow> (r, True, p1)))"

definition delete_client :: "string \<Rightarrow> Proxy \<Rightarrow> Proxy go" where
  "delete_client cid p = Ret (p\<lparr>pxClients := (pxClients p)(cid := None)\<rparr>)"

interpretation pxt: conn_table pxClients "\<lambda>p. length (pxObjs p)" proxy_client delete_client
  by unfold_locales (auto simp: proxy_client_def addOutgoingConnectionLocked_def delete_client_def)

section \<open>Forwarding\<close>

text \<open>The route: the proxy records itself, and follows \<^verbatim>\<open>ProxyNext\<close> from its end when there is one. An
  empty slice that is not nil is indexed at \<open>-1\<close>.\<close>

definition route_header :: "string \<Rightarrow> RequestHeader \<Rightarrow> (string \<times> RequestHeader) go" where
  "route_header pid h0 =
     (let h = h0\<lparr>hProxyRecord := hProxyRecord h0 @ [pid]\<rparr>
      in case hProxyNext h of
           None \<Rightarrow> Ret (hDestination h, h)
         | Some next \<Rightarrow>
             if next = [] then Panic
             else Ret (last next, h\<lparr>hProxyNext := Some (butlast next)\<rparr>))"

text \<open>What became of a message.\<close>

datatype forward = Intercepted gerr | Forwarded nat Rpc | Dropped nat Rpc

text \<open>\<open>icpt\<close> is the optional \<^verbatim>\<open>RpcIntercepter\<close>, which may change the header.\<close>

definition forwardRpc ::
  "(RequestHeader \<Rightarrow> gerr option \<times> RequestHeader) option \<Rightarrow> string \<Rightarrow> Rpc \<Rightarrow> Proxy \<Rightarrow> (forward \<times> Proxy) go" where
  "forwardRpc icpt source rpc p =
     (case rpcHeader rpc of
        None \<Rightarrow> Panic
      | Some h0 \<Rightarrow>
          if hSource h0 \<noteq> source then Panic
          else
            (case (case icpt of None \<Rightarrow> (None, h0) | Some f \<Rightarrow> f h0) of
               (Some err, h1) \<Rightarrow> Ret (Intercepted err, p)
             | (None, h1) \<Rightarrow>
                 go_bind (route_header (pxId p) h1) (\<lambda>(destination, h2).
                   let rpc2 = rpc\<lparr>rpcHeader := Some h2\<rparr>
                   in case proxy_client destination p of (r, new, p1) \<Rightarrow>
                        (case chan_send (pcQueue (pxObjs p1 ! r)) rpc2 of
                           Ret q \<Rightarrow> Ret (Forwarded r rpc2,
                                      p1\<lparr>pxObjs := (pxObjs p1)[r := (pxObjs p1 ! r)\<lparr>pcQueue := q\<rparr>]\<rparr>)
                         | Panic \<Rightarrow> Panic
                         | Block \<Rightarrow> Ret (Dropped r rpc2, p1)))))"

text \<open>One command of \<open>serveClients\<close>; the list collects the calls of the disconnect callback.\<close>

definition serve_command ::
  "(RequestHeader \<Rightarrow> gerr option \<times> RequestHeader) option \<Rightarrow> command \<Rightarrow> Proxy \<Rightarrow>
   (forward option \<times> (string \<times> gerr) list \<times> Proxy) go" where
  "serve_command icpt cmd p =
     (case cmdRpc cmd of
        Some rpc \<Rightarrow> go_bind (forwardRpc icpt (cmdId cmd) rpc p) (\<lambda>(f, p1). Ret (Some f, [], p1))
      | None \<Rightarrow>
          (case cmdErr cmd of
             Some err \<Rightarrow> go_bind (delete_client (cmdId cmd) p) (\<lambda>p1. Ret (None, [(cmdId cmd, err)], p1))
           | None \<Rightarrow> Ret (None, [], p)))"

section \<open>A client's loops\<close>

text \<open>
  What the loops of a client send to the server loop. \<open>readLoop\<close>: the result of a read is a command,
  with the connection's name whatever the message says; an error ends the loop. \<open>writeLoop\<close>: a message
  from the queue is written; an error is a command and ends the loop. \<open>connect\<close>: a failed connection
  is a command. \<open>cancel\<close> is the context's error when the select takes the branch of the context.
\<close>

definition px_readLoop :: "gerr option \<Rightarrow> string \<Rightarrow> gerr + Rpc \<Rightarrow> command option \<times> gerr option" where
  "px_readLoop cancel cid res =
     (case res of
        Inl err \<Rightarrow> (Some \<lparr>cmdId = cid, cmdRpc = None, cmdErr = Some err\<rparr>,
                    Some (Wrap err ''failed to read from connection''))
      | Inr rpc \<Rightarrow>
          (case cancel of
             None \<Rightarrow> (Some \<lparr>cmdId = cid, cmdRpc = Some rpc, cmdErr = None\<rparr>, None)
           | Some ce \<Rightarrow> (None, Some (Wrap ce ''context cancelled''))))"

definition px_writeLoop ::
  "gerr option \<Rightarrow> (Rpc \<Rightarrow> gerr option) \<Rightarrow> nat \<Rightarrow> Proxy \<Rightarrow>
   ((Rpc option \<times> command option \<times> gerr option) \<times> Proxy) go" where
  "px_writeLoop cancel connWrite r p =
     (case cancel of
        Some ce \<Rightarrow> Ret ((None, None, Some (Wrap ce ''context cancelled'')), p)
      | None \<Rightarrow>
          (let c = pxObjs p ! r
           in go_bind (chan_recv (pcQueue c)) (\<lambda>(v, q).
                let p1 = p\<lparr>pxObjs := (pxObjs p)[r := c\<lparr>pcQueue := q\<rparr>]\<rparr>
                in case v of
                     None \<Rightarrow> Block
                   | Some rpc \<Rightarrow>
                       (case connWrite rpc of
                          None \<Rightarrow> Ret ((Some rpc, None, None), p1)
                        | Some err \<Rightarrow>
                            Ret ((Some rpc, Some \<lparr>cmdId = pcId c, cmdRpc = None, cmdErr = Some err\<rparr>,
                                  Some (Wrap err ''failed to write to connection'')), p1)))))"

definition px_connect :: "(string \<Rightarrow> gerr option) \<Rightarrow> nat \<Rightarrow> Proxy \<Rightarrow> command option \<times> Proxy" where
  "px_connect newConnection r p =
     (let c = pxObjs p ! r
      in case newConnection (pcId c) of
           Some err \<Rightarrow> (Some \<lparr>cmdId = pcId c, cmdRpc = None, cmdErr = Some err\<rparr>, p)
         | None \<Rightarrow> (None, p\<lparr>pxObjs := (pxObjs p)[r := c\<lparr>pcConn := True\<rparr>]\<rparr>))"

section \<open>The proxy's goroutines\<close>

text \<open>The server loop takes one command at a time, until its context is cancelled; clients are added, connected and written to in between.
  A client's \<open>writeLoop\<close> runs once it has a connection. \<open>pxLog\<close> and \<open>pxOut\<close> record what was queued for
  and what was written by each client object.\<close>

record px_sys =
  px :: Proxy
  pxServing :: bool
  pxLog :: "(nat \<times> Rpc) list"
  pxOut :: "(nat \<times> Rpc) list"

definition px_init :: "px_sys \<Rightarrow> bool" where
  "px_init s \<longleftrightarrow> (\<exists>pid. px s = NewProxy pid) \<and> pxServing s \<and> pxLog s = [] \<and> pxOut s = []"

definition option_list :: "'a option \<Rightarrow> 'a list" where
  "option_list v = (case v of None \<Rightarrow> [] | Some x \<Rightarrow> [x])"

definition queued :: "forward option \<Rightarrow> (nat \<times> Rpc) list" where
  "queued f = (case f of Some (Forwarded r rpc) \<Rightarrow> [(r, rpc)] | _ \<Rightarrow> [])"

inductive px_step :: "(RequestHeader \<Rightarrow> gerr option \<times> RequestHeader) option \<Rightarrow> px_sys \<Rightarrow> px_sys \<Rightarrow> bool"
  for icpt where
  px_add: "px_step icpt s (s\<lparr>px := AddClient cid (px s)\<rparr>)"
| px_command: "pxServing s \<Longrightarrow> serve_command icpt cmd (px s) = Ret (f, ds, p') \<Longrightarrow>
    px_step icpt s (s\<lparr>px := p', pxLog := pxLog s @ queued f\<rparr>)"
| px_cancel: "px_step icpt s (s\<lparr>pxServing := False\<rparr>)"
| px_write: "r < length (pxObjs (px s)) \<Longrightarrow> pcConn (pxObjs (px s) ! r) \<Longrightarrow>
    px_writeLoop cancel connWrite r (px s) = Ret ((v, cmd, e), p') \<Longrightarrow>
    px_step icpt s (s\<lparr>px := p', pxOut := pxOut s @ map (Pair r) (option_list v)\<rparr>)"
| px_conn: "r < length (pxObjs (px s)) \<Longrightarrow> px_connect newConnection r (px s) = (cmd, p') \<Longrightarrow>
    px_step icpt s (s\<lparr>px := p'\<rparr>)"

definition queue_ok :: "Rpc chan \<Rightarrow> bool" where
  "queue_ok q \<longleftrightarrow> cap q = clientBufferSize \<and> waiting q = 0 \<and> \<not> closed q \<and> length (buf q) \<le> clientBufferSize"

definition px_inv :: "px_sys \<Rightarrow> bool" where
  "px_inv s \<longleftrightarrow> pxt.tab_ok (px s) \<and>
     (\<forall>r < length (pxObjs (px s)). queue_ok (pcQueue (pxObjs (px s) ! r)) \<and>
        of_conn r (pxLog s) = of_conn r (pxOut s) @ buf (pcQueue (pxObjs (px s) ! r))) \<and>
     (\<forall>x \<in> set (pxLog s @ pxOut s). fst x < length (pxObjs (px s)))"

lemma queue_ok_new [simp]: "queue_ok (make_chan clientBufferSize)"
  by (simp add: queue_ok_def)

lemma new_client_sel [simp]:
  "pcQueue (new_client cid c) = make_chan clientBufferSize" "pcId (new_client cid c) = cid"
  by (simp_all add: new_client_def)

text \<open>One more client keeps the invariant, whatever entry it gets.\<close>

lemma px_inv_grow:
  assumes "px_inv s" and "pxObjs p' = pxObjs (px s) @ [new_client cid c]"
    and "pxClients p' = (pxClients (px s))(cid \<mapsto> length (pxObjs (px s)))"
  shows "px_inv (s\<lparr>px := p'\<rparr>)"
proof -
  let ?n = "length (pxObjs (px s))"
  have "pxt.tab_ok p'"
    using assms by (fastforce simp: px_inv_def pxt.tab_ok_def less_Suc_eq split: if_splits)
  moreover have "of_conn ?n (pxLog s) = []" "of_conn ?n (pxOut s) = []"
    using assms(1) by (auto simp: px_inv_def intro: of_conn_fresh)
  ultimately show ?thesis
    using assms by (auto simp: px_inv_def nth_append less_Suc_eq)
qed

lemma px_inv_same_objs:
  assumes "px_inv s" "pxt.tab_ok p'" "length (pxObjs p') = length (pxObjs (px s))"
    "\<And>r. r < length (pxObjs (px s)) \<Longrightarrow> pcQueue (pxObjs p' ! r) = pcQueue (pxObjs (px s) ! r)"
  shows "px_inv (s\<lparr>px := p'\<rparr>)"
  using assms by (auto simp: px_inv_def)

lemma px_inv_client:
  assumes "px_inv s" and "proxy_client cid (px s) = (r, new, p1)"
  shows "px_inv (s\<lparr>px := p1\<rparr>)" and "r < length (pxObjs p1)" and "pxClients p1 cid = Some r"
proof -
  have ok: "pxt.tab_ok (px s)" using assms(1) by (simp add: px_inv_def)
  show t: "pxClients p1 cid = Some r" by (rule pxt.retrieve_entry(1)[OF assms(2)])
  show "r < length (pxObjs p1)" using pxt.retrieve_ok[OF ok assms(2)] t by (auto simp: pxt.tab_ok_def)
  show "px_inv (s\<lparr>px := p1\<rparr>)"
  proof (cases "pxClients (px s) cid")
    case None
    with assms(2) show ?thesis
      by (intro px_inv_grow[OF assms(1)]) (auto simp: proxy_client_def addOutgoingConnectionLocked_def)
  next
    case (Some q)
    with assms(2) have "p1 = px s" by (simp add: proxy_client_def)
    with assms(1) show ?thesis by simp
  qed
qed

text \<open>What a forward did, when it returned.\<close>

lemma forwardRpc_cases:
  assumes "forwardRpc icpt source rpc p = Ret (f, p')"
  obtains (Intercepted) err where "f = Intercepted err" "p' = p"
  | (Forwarded) h1 d h2 r new p1 q where
      "rpcHeader rpc \<noteq> None" "route_header (pxId p) h1 = Ret (d, h2)" "proxy_client d p = (r, new, p1)"
      "f = Forwarded r (rpc\<lparr>rpcHeader := Some h2\<rparr>)"
      "chan_send (pcQueue (pxObjs p1 ! r)) (rpc\<lparr>rpcHeader := Some h2\<rparr>) = Ret q"
      "p' = p1\<lparr>pxObjs := (pxObjs p1)[r := (pxObjs p1 ! r)\<lparr>pcQueue := q\<rparr>]\<rparr>"
  | (Dropped) h1 d h2 r new where
      "route_header (pxId p) h1 = Ret (d, h2)" "proxy_client d p = (r, new, p')"
      "f = Dropped r (rpc\<lparr>rpcHeader := Some h2\<rparr>)"
      "chan_send (pcQueue (pxObjs p' ! r)) (rpc\<lparr>rpcHeader := Some h2\<rparr>) = Block"
proof -
  obtain h0 where h0: "rpcHeader rpc = Some h0" and src: "hSource h0 = source"
    using assms by (auto simp: forwardRpc_def split: option.splits if_splits)
  obtain ie h1 where i: "(case icpt of None \<Rightarrow> (None, h0) | Some f \<Rightarrow> f h0) = (ie, h1)" by fastforce
  show ?thesis
  proof (cases ie)
    case (Some err)
    with assms h0 src i show ?thesis by (intro Intercepted) (auto simp: forwardRpc_def)
  next
    case None
    from assms h0 src i None obtain d h2 where r: "route_header (pxId p) h1 = Ret (d, h2)"
      by (auto simp: forwardRpc_def go_bind_Ret_iff)
    obtain r new p1 where c: "proxy_client d p = (r, new, p1)" by (cases "proxy_client d p")
    show ?thesis
    proof (cases "chan_send (pcQueue (pxObjs p1 ! r)) (rpc\<lparr>rpcHeader := Some h2\<rparr>)")
      case (Ret q)
      with assms h0 src i None r c show ?thesis
        by (intro Forwarded[of h1 d h2 r new p1 q]) (auto simp: forwardRpc_def Let_def)
    next
      case Panic
      with assms h0 src i None r c show ?thesis by (simp add: forwardRpc_def Let_def)
    next
      case Block
      with assms h0 src i None r c show ?thesis
        by (intro Dropped[of h1 d h2 r new]) (auto simp: forwardRpc_def Let_def)
    qed
  qed
qed

lemma px_inv_send:
  assumes inv: "px_inv (s\<lparr>px := p1\<rparr>)" and r: "r < length (pxObjs p1)"
    and send: "chan_send (pcQueue (pxObjs p1 ! r)) m = Ret q"
  shows "px_inv (s\<lparr>px := p1\<lparr>pxObjs := (pxObjs p1)[r := (pxObjs p1 ! r)\<lparr>pcQueue := q\<rparr>]\<rparr>,
                   pxLog := pxLog s @ [(r, m)]\<rparr>)"
proof -
  have q: "queue_ok q" "buf q = buf (pcQueue (pxObjs p1 ! r)) @ [m]"
    using inv r send by (auto simp: px_inv_def queue_ok_def chan_simps)
  with inv r show ?thesis
    by (auto simp: px_inv_def pxt.tab_ok_def nth_list_update)
qed

lemma px_inv_forward:
  assumes inv: "px_inv s" and f: "forwardRpc icpt source rpc (px s) = Ret (f, p')"
  shows "px_inv (s\<lparr>px := p', pxLog := pxLog s @ queued (Some f)\<rparr>)"
  using f
proof (cases rule: forwardRpc_cases)
  case (Intercepted err)
  with inv show ?thesis by (simp add: queued_def)
next
  case (Forwarded h1 d h2 r new p1 q)
  note c = px_inv_client[OF inv Forwarded(3)]
  from px_inv_send[OF c(1,2) Forwarded(5)] Forwarded show ?thesis by (simp add: queued_def)
next
  case (Dropped h1 d h2 r new)
  from px_inv_client(1)[OF inv Dropped(2)] Dropped show ?thesis by (simp add: queued_def)
qed

lemma px_inv_write:
  assumes inv: "px_inv s" and r: "r < length (pxObjs (px s))"
    and w: "px_writeLoop cancel connWrite r (px s) = Ret ((v, cmd, e), p')"
  shows "px_inv (s\<lparr>px := p', pxOut := pxOut s @ map (Pair r) (option_list v)\<rparr>)"
proof (cases cancel)
  case (Some ce)
  with inv w show ?thesis by (auto simp: px_writeLoop_def option_list_def)
next
  case None
  let ?c = "pxObjs (px s) ! r"
  from w None obtain rpc q where q: "chan_recv (pcQueue ?c) = Ret (Some rpc, q)" and v: "v = Some rpc"
    and p': "p' = (px s)\<lparr>pxObjs := (pxObjs (px s))[r := ?c\<lparr>pcQueue := q\<rparr>]\<rparr>"
    by (auto simp: px_writeLoop_def Let_def go_bind_Ret_iff split: option.splits)
  have "queue_ok q" "buf (pcQueue ?c) = rpc # buf q"
    using inv r q by (auto simp: px_inv_def queue_ok_def chan_simps)
  with inv r p' v show ?thesis
    by (auto simp: px_inv_def pxt.tab_ok_def nth_list_update option_list_def)
qed

lemma px_inv_step: "px_inv s \<Longrightarrow> px_step icpt s t \<Longrightarrow> px_inv t"
proof (erule px_step.cases, goal_cases)
  case (1 s' cid)
  then show ?case by (auto intro!: px_inv_grow simp: AddClient_def)
next
  case (2 s' cmd f ds p')
  show ?case
  proof (cases "cmdRpc cmd")
    case (Some rpc)
    with 2 px_inv_forward[of s icpt "cmdId cmd" rpc] show ?thesis
      by (auto simp: serve_command_def go_bind_Ret_iff)
  next
    case None
    have "px_inv (s\<lparr>px := (px s)\<lparr>pxClients := (pxClients (px s))(cid := None)\<rparr>\<rparr>)" for cid
      by (rule px_inv_same_objs[OF 2(1)])
        (use 2(1) in \<open>auto simp: px_inv_def pxt.tab_ok_def split: if_splits\<close>)
    with None 2 show ?thesis
      by (auto simp: serve_command_def delete_client_def queued_def split: option.splits)
  qed
next
  case (3 s')
  then show ?case by (simp add: px_inv_def)
next
  case (4 r s' cancel connWrite v cmd e p')
  then show ?case by (auto intro: px_inv_write)
next
  case (5 r s' newConnection cmd p')
  then have "p' = px s \<or> p' = (px s)\<lparr>pxObjs := (pxObjs (px s))[r := (pxObjs (px s) ! r)\<lparr>pcConn := True\<rparr>]\<rparr>"
    by (auto simp: px_connect_def Let_def split: option.splits)
  moreover have "px_inv (s\<lparr>px := (px s)\<lparr>pxObjs := (pxObjs (px s))[r := (pxObjs (px s) ! r)\<lparr>pcConn := True\<rparr>]\<rparr>\<rparr>)"
  proof (rule px_inv_same_objs[OF 5(1)], goal_cases)
    case (3 q)
    then show ?case by (cases "q = r") auto
  qed (use 5(1) in \<open>auto simp: px_inv_def pxt.tab_ok_def\<close>)
  ultimately show ?case using 5 by auto
qed

interpretation pxs: invariant_system px_init "px_step icpt" px_inv for icpt
proof unfold_locales
  show "px_init s \<Longrightarrow> px_inv s" for s
    by (auto simp: px_init_def NewProxy_def px_inv_def pxt.tab_ok_def)
qed (rule px_inv_step)

section \<open>Routes\<close>

text \<open>
  A message that passes a list of proxies, each given with the name under which it knows the connection the message comes
  from. \<open>wire\<close> is what the transport before a proxy does to the message: nothing when messages are passed by reference,
  as the channel transport does, \<open>wire_rpc\<close> when they are marshalled. The result is the names of the clients the proxies forwarded
  it to, with the message they forwarded last; none when a proxy has dropped it.
\<close>

fun pass_proxies :: "(Rpc \<Rightarrow> Rpc) \<Rightarrow> (string \<times> Proxy) list \<Rightarrow> Rpc \<Rightarrow> (string list \<times> Rpc) option go" where
  "pass_proxies wire [] m = Ret (Some ([], m))"
| "pass_proxies wire ((source, p) # hops) m =
     go_bind (forwardRpc None source (wire m) p) (\<lambda>(f, p1).
       case f of
         Forwarded r m1 \<Rightarrow>
           go_bind (pass_proxies wire hops m1) (\<lambda>res.
             Ret (case res of None \<Rightarrow> None | Some (ds, m2) \<Rightarrow> Some (pcId (pxObjs p1 ! r) # ds, m2)))
       | _ \<Rightarrow> Ret None)"

text \<open>The transports between proxies.\<close>

definition wire_ok :: "(Rpc \<Rightarrow> Rpc) \<Rightarrow> bool" where
  "wire_ok wire \<longleftrightarrow> wire = wire_rpc \<or> wire = (\<lambda>m. m)"

text \<open>A proxy whose queues have room, so that it drops nothing.\<close>

definition roomy :: "Proxy \<Rightarrow> bool" where
  "roomy p \<longleftrightarrow> (\<forall>k r. pxClients p k = Some r \<longrightarrow> r < length (pxObjs p) \<and> pcId (pxObjs p ! r) = k \<and>
     \<not> closed (pcQueue (pxObjs p ! r)) \<and> length (buf (pcQueue (pxObjs p ! r))) < cap (pcQueue (pxObjs p ! r)))"

lemma forward_roomy:
  assumes p: "roomy p" and h: "rpcHeader m = Some h" "hSource h = source" and rt: "route_header (pxId p) h = Ret (d, h')"
  shows "\<exists>r p'. forwardRpc None source m p = Ret (Forwarded r (m\<lparr>rpcHeader := Some h'\<rparr>), p') \<and> pcId (pxObjs p' ! r) = d"
proof -
  obtain r new p1 where c: "proxy_client d p = (r, new, p1)" by (cases "proxy_client d p")
  have "r < length (pxObjs p1) \<and> pcId (pxObjs p1 ! r) = d \<and> \<not> closed (pcQueue (pxObjs p1 ! r)) \<and>
      length (buf (pcQueue (pxObjs p1 ! r))) < cap (pcQueue (pxObjs p1 ! r))"
  proof (cases "pxClients p d")
    case None
    with c show ?thesis by (auto simp: proxy_client_def addOutgoingConnectionLocked_def clientBufferSize_def)
  next
    case (Some q)
    with c p show ?thesis by (auto simp: proxy_client_def roomy_def)
  qed
  then show ?thesis using h rt c by (simp add: forwardRpc_def Let_def chan_send_def)
qed

text \<open>One hop of a message that is forwarded, of one whose route is empty, and of one from another source.\<close>

lemma pass_hop:
  assumes "roomy p" and "rpcHeader (wire m) = Some h" and "hSource h = source" and "route_header (pxId p) h = Ret (d, h')"
    and "pass_proxies wire hops ((wire m)\<lparr>rpcHeader := Some h'\<rparr>) = Ret (Some (ds, m'))"
  shows "pass_proxies wire ((source, p) # hops) m = Ret (Some (d # ds, m'))"
  using forward_roomy[OF assms(1-4)] assms(5) by auto

lemma pass_hop_panic:
  assumes "roomy p" and "rpcHeader (wire m) = Some h" and "hSource h = source" and "route_header (pxId p) h = Ret (d, h')"
    and "pass_proxies wire hops ((wire m)\<lparr>rpcHeader := Some h'\<rparr>) = Panic"
  shows "pass_proxies wire ((source, p) # hops) m = Panic"
  using forward_roomy[OF assms(1-4)] assms(5) by auto

lemma pass_stranger:
  assumes "rpcHeader (wire m) = Some h" and "hSource h \<noteq> source"
  shows "pass_proxies wire ((source, p) # hops) m = Panic"
  using assms by (simp add: forwardRpc_def)

lemma wire_ok_header:
  assumes "wire_ok wire" and "rpcHeader m = Some h" and "hProxyNext h \<noteq> Some []"
  shows "rpcHeader (wire m) = Some h"
proof -
  have "nil_empty (hProxyNext h) = hProxyNext h"
    using assms(3) by (cases "hProxyNext h") (auto simp: nil_empty_def split: list.split)
  then have "wire_header h = h" by (simp add: wire_header_def)
  with assms show ?thesis by (auto simp: wire_ok_def)
qed

text \<open>The names of the proxies on the way; they all have room and know the connection the message comes from by its source.\<close>

definition hop_ids :: "(string \<times> Proxy) list \<Rightarrow> string list" where
  "hop_ids hops = map (\<lambda>x. pxId (snd x)) hops"

definition known_as :: "string \<Rightarrow> (string \<times> Proxy) list \<Rightarrow> bool" where
  "known_as source hops \<longleftrightarrow> (\<forall>(c, p) \<in> set hops. c = source \<and> roomy p)"

lemma hops_simps [simp]:
  "hop_ids [] = []" "hop_ids (x # hops) = pxId (snd x) # hop_ids hops" "length (hop_ids hops) = length hops"
  "known_as source []" "known_as source ((c, p) # hops) \<longleftrightarrow> c = source \<and> roomy p \<and> known_as source hops"
  by (simp_all add: hop_ids_def known_as_def)

text \<open>A message without a route: every proxy records itself and sends it to the destination.\<close>

lemma pass_request:
  assumes "wire_ok wire" and "rpcHeader m = Some h" and "hProxyNext h = None" and "known_as (hSource h) hops"
  shows "\<exists>m'. pass_proxies wire hops m = Ret (Some (replicate (length hops) (hDestination h), m')) \<and>
    rpcHeader m' = Some (h\<lparr>hProxyRecord := hProxyRecord h @ hop_ids hops\<rparr>)"
  using assms(2-)
proof (induction hops arbitrary: m h)
  case (Cons x hops)
  obtain c p where x: "x = (c, p)" by (cases x)
  let ?h = "h\<lparr>hProxyRecord := hProxyRecord h @ [pxId p]\<rparr>"
  from Cons.prems x have c: "c = hSource h" "roomy p" by auto
  have w: "rpcHeader (wire m) = Some h" by (rule wire_ok_header[OF assms(1) Cons.prems(1)]) (simp add: Cons.prems(2))
  have rt: "route_header (pxId p) h = Ret (hDestination h, ?h)" using Cons.prems(2) by (simp add: route_header_def)
  from Cons.IH[of "(wire m)\<lparr>rpcHeader := Some ?h\<rparr>" ?h] Cons.prems x obtain m' where
    m': "pass_proxies wire hops ((wire m)\<lparr>rpcHeader := Some ?h\<rparr>) = Ret (Some (replicate (length hops) (hDestination h), m'))"
      "rpcHeader m' = Some (?h\<lparr>hProxyRecord := hProxyRecord ?h @ hop_ids hops\<rparr>)" by auto
  from pass_hop[OF c(2) w c(1)[symmetric] rt m'(1)] m'(2) x show ?case by simp
qed simp

text \<open>A message with a route: the proxies are visited from its end, then the destination. The last one but one leaves an empty
  route: over the wire it is nil, and by reference it makes the last proxy panic.\<close>

lemma pass_response:
  assumes "wire_ok wire" and "rpcHeader m = Some h" and "hProxyNext h = Some (rev (hop_ids hops))"
    and "hops \<noteq> []" and "known_as (hSource h) ((c, p) # hops)"
  shows "(wire = wire_rpc \<longrightarrow> (\<exists>m'. pass_proxies wire ((c, p) # hops) m = Ret (Some (hop_ids hops @ [hDestination h], m')))) \<and>
    (wire = (\<lambda>m. m) \<longrightarrow> pass_proxies wire ((c, p) # hops) m = Panic)"
  using assms(2-)
proof (induction hops arbitrary: m h c p)
  case (Cons x hops)
  obtain c' q where x: "x = (c', q)" by (cases x)
  let ?h = "h\<lparr>hProxyRecord := hProxyRecord h @ [pxId p], hProxyNext := Some (rev (hop_ids hops))\<rparr>"
  let ?m = "(wire m)\<lparr>rpcHeader := Some ?h\<rparr>"
  have c: "hSource h = c" "roomy p" "c' = hSource h" "roomy q" "known_as (hSource h) hops" using Cons.prems(4) x by auto
  have w: "rpcHeader (wire m) = Some h"
    by (rule wire_ok_header[OF assms(1) Cons.prems(1)]) (simp add: Cons.prems(2))
  have rt: "route_header (pxId p) h = Ret (pxId q, ?h)" using Cons.prems(2) x by (simp add: route_header_def Let_def)
  note hop = pass_hop[where wire = wire, OF c(2) w c(1) rt] and stuck = pass_hop_panic[where wire = wire, OF c(2) w c(1) rt]
  show ?case
  proof (cases "hops = []")
    case True
    have "pass_proxies wire_rpc [(c', q)] ?m = Ret (Some ([hDestination h], (wire_rpc ?m)\<lparr>rpcHeader :=
        Some ((wire_header ?h)\<lparr>hProxyRecord := hProxyRecord ?h @ [pxId q]\<rparr>)\<rparr>))"
      by (rule pass_hop[OF c(4), where h = "wire_header ?h"]) (use True c in \<open>simp_all add: route_header_def wire_header_def\<close>)
    moreover have "pass_proxies (\<lambda>m. m) [(c', q)] ?m = Panic"
      using True c(3) by (simp add: forwardRpc_def route_header_def)
    ultimately show ?thesis using hop[of "[(c', q)]"] stuck[of "[(c', q)]"] True x by auto
  next
    case False
    with Cons.IH[of ?m ?h c' q] c have
      "(wire = wire_rpc \<longrightarrow> (\<exists>m'. pass_proxies wire ((c', q) # hops) ?m = Ret (Some (hop_ids hops @ [hDestination h], m')))) \<and>
       (wire = (\<lambda>m. m) \<longrightarrow> pass_proxies wire ((c', q) # hops) ?m = Panic)" by simp
    with hop[of "(c', q) # hops"] stuck[of "(c', q) # hops"] x show ?thesis by fastforce
  qed
qed simp

section \<open>Properties\<close>

lemma route_header_no_block [simp]: "route_header pid h \<noteq> Block"
  by (simp add: route_header_def Let_def split: option.splits)

lemma forwardRpc_no_block: "forwardRpc icpt source rpc p \<noteq> Block"
proof (cases "rpcHeader rpc")
  case (Some h0)
  obtain ie h1 where i: "(case icpt of None \<Rightarrow> (None, h0) | Some f \<Rightarrow> f h0) = (ie, h1)" by fastforce
  show ?thesis
  proof (cases "route_header (pxId p) h1")
    case (Ret dh)
    obtain d h2 where dh: "dh = (d, h2)" by (cases dh)
    obtain r new p1 where c: "proxy_client d p = (r, new, p1)" by (cases "proxy_client d p")
    show ?thesis
      by (cases ie; cases "chan_send (pcQueue (pxObjs p1 ! r)) (rpc\<lparr>rpcHeader := Some h2\<rparr>)")
        (simp_all add: forwardRpc_def Some i Ret dh c)
  qed (cases ie, simp_all add: forwardRpc_def Some i)+
qed (simp add: forwardRpc_def)

text \<open>In every reachable state of the proxy, each client's queue holds at most 16 messages, and what was
  queued for a client is what was written to it followed by what is still queued, in order; the
  forwarding of a message never blocks, so a slow client cannot stall the others.\<close>

lemma proxy_queues:
  assumes "reach px_init (px_step icpt) s" and "r < length (pxObjs (px s))"
  shows "length (buf (pcQueue (pxObjs (px s) ! r))) \<le> 16 \<and>
    of_conn r (pxLog s) = of_conn r (pxOut s) @ buf (pcQueue (pxObjs (px s) ! r)) \<and>
    (\<forall>source rpc. forwardRpc icpt source rpc (px s) \<noteq> Block)"
proof -
  have "px_inv s" by (rule pxs.reach_inv[OF assms(1)])
  then show ?thesis
    using assms(2) by (simp add: px_inv_def queue_ok_def clientBufferSize_def forwardRpc_no_block)
qed

text \<open>A message that is forwarded goes to exactly one client, the one registered for the address the route
  gives (its destination, or the end of its route), and arrives there with the proxy recorded; the
  queues of all other clients are unchanged.\<close>

lemma proxy_forwards_to:
  assumes "reach px_init (px_step None) s" and "rpcHeader rpc = Some h"
    and "forwardRpc None source rpc (px s) = Ret (Forwarded r rpc', p')"
  shows "\<exists>d h'. route_header (pxId (px s)) h = Ret (d, h') \<and> rpc' = rpc\<lparr>rpcHeader := Some h'\<rparr> \<and>
    hSource h = source \<and> pxClients p' d = Some r \<and> last (buf (pcQueue (pxObjs p' ! r))) = rpc' \<and>
    (\<forall>q < length (pxObjs (px s)). q \<noteq> r \<longrightarrow> pxObjs p' ! q = pxObjs (px s) ! q)"
proof -
  have inv: "px_inv s" by (rule pxs.reach_inv[OF assms(1)])
  have src: "hSource h = source" using assms(2,3) by (simp add: forwardRpc_def split: if_splits)
  from assms(2,3) src obtain d h' where rt: "route_header (pxId (px s)) h = Ret (d, h')"
    by (auto simp: forwardRpc_def go_bind_Ret_iff)
  obtain r1 new p1 where c: "proxy_client d (px s) = (r1, new, p1)" by (cases "proxy_client d (px s)")
  note ci = px_inv_client[OF inv c]
  have fw: "forwardRpc None source rpc (px s) =
      (case chan_send (pcQueue (pxObjs p1 ! r1)) (rpc\<lparr>rpcHeader := Some h'\<rparr>) of
         Ret q \<Rightarrow> Ret (Forwarded r1 (rpc\<lparr>rpcHeader := Some h'\<rparr>),
                    p1\<lparr>pxObjs := (pxObjs p1)[r1 := (pxObjs p1 ! r1)\<lparr>pcQueue := q\<rparr>]\<rparr>)
       | Panic \<Rightarrow> Panic
       | Block \<Rightarrow> Ret (Dropped r1 (rpc\<lparr>rpcHeader := Some h'\<rparr>), p1))"
    using assms(2) src rt c by (simp add: forwardRpc_def Let_def)
  obtain q where q: "chan_send (pcQueue (pxObjs p1 ! r)) rpc' = Ret q"
    and e: "r1 = r" "rpc' = rpc\<lparr>rpcHeader := Some h'\<rparr>"
      "p' = p1\<lparr>pxObjs := (pxObjs p1)[r := (pxObjs p1 ! r)\<lparr>pcQueue := q\<rparr>]\<rparr>"
  proof (cases "chan_send (pcQueue (pxObjs p1 ! r1)) (rpc\<lparr>rpcHeader := Some h'\<rparr>)")
    case (Ret q)
    have "Ret (Forwarded r1 (rpc\<lparr>rpcHeader := Some h'\<rparr>),
        p1\<lparr>pxObjs := (pxObjs p1)[r1 := (pxObjs p1 ! r1)\<lparr>pcQueue := q\<rparr>]\<rparr>) = Ret (Forwarded r rpc', p')"
      using assms(3) unfolding fw Ret by (simp only: go.case)
    then have e: "r1 = r" "rpc' = rpc\<lparr>rpcHeader := Some h'\<rparr>"
      "p' = p1\<lparr>pxObjs := (pxObjs p1)[r1 := (pxObjs p1 ! r1)\<lparr>pcQueue := q\<rparr>]\<rparr>" by blast+
    with Ret show ?thesis by (intro that[of q]) simp_all
  qed (use assms(3)[unfolded fw] in simp_all)
  have "\<forall>q < length (pxObjs (px s)). pxObjs p1 ! q = pxObjs (px s) ! q"
    using c by (auto simp: proxy_client_def addOutgoingConnectionLocked_def nth_append split: option.splits)
  then show ?thesis using rt src e ci q by (auto simp: chan_simps)
qed

text \<open>The proxy crashes on an empty route that is not nil: a message whose \<^verbatim>\<open>ProxyNext\<close> is an empty
  slice is indexed at \<open>-1\<close>. Following a route of one leaves exactly such a slice, so over transports
  that pass messages by reference the second proxy on the way back panics.\<close>

lemma proxy_empty_route_panics:
  assumes "hProxyNext h = Some [q]"
  shows "\<exists>h'. route_header p h = Ret (q, h') \<and> route_header p' h' = Panic"
  using assms by (simp add: route_header_def)

text \<open>A client that has reconnected is lost when the error of its old connection arrives: the command
  names only the id, and deletes the entry of the new connection.\<close>

lemma proxy_stale_disconnect:
  "serve_command icpt \<lparr>cmdId = cid, cmdRpc = None, cmdErr = Some err\<rparr> (AddClient cid p) =
     Ret (None, [(cid, err)], (AddClient cid p)\<lparr>pxClients := (pxClients (AddClient cid p))(cid := None)\<rparr>) \<and>
   pxClients (AddClient cid p) cid = Some (length (pxObjs p))"
  by (simp add: serve_command_def delete_client_def AddClient_def)

definition demo_proxy_rpc :: Rpc where
  "demo_proxy_rpc =
     \<lparr>rpcId = 1, rpcHeader = Some (header_of ''/s/m'' ''a'' ''b'' []), rpcStatus = None, rpcBody = None,
      rpcTrailer = None, rpcReset = None\<rparr>"

lemma reach_demo_proxy: "reach px_init (px_step None)
    \<lparr>px = AddClient ''b'' (NewProxy ''p''), pxServing = True, pxLog = [], pxOut = []\<rparr>"
proof -
  have "reach px_init (px_step None) \<lparr>px = NewProxy ''p'', pxServing = True, pxLog = [], pxOut = []\<rparr>"
    by (rule reach_init) (auto simp: px_init_def)
  from reach_step[OF this px_step.px_add[of None _ "''b''"]] show ?thesis by simp
qed

end
