(* ===== verification/Goat_Proxy_System.thy ===== *)
theory Goat_Proxy_System
  imports Goat_Proxy "HOL-Library.Sublist"
begin

text \<open>
  The goroutines of the proxy, \<^verbatim>\<open>proxy.go\<close>: for every client \<open>connect\<close>, \<open>readLoop\<close> and \<open>writeLoop\<close> under the
  error group of \<open>readWrite\<close>, and the server loop that takes their commands from an unbuffered channel. The system
  refines the step relation of \<open>Goat_Proxy\<close>; the lemmas follow a message from the connection it was read from to
  the one it is written to, and say which loops never return.
\<close>

section \<open>State\<close>

text \<open>Where a goroutine stands: not started, at the head of its loop, waiting to hand a command to the server
  loop (with the error it returns after that, if any), or returned.\<close>

datatype px_loop = PxIdle | PxRun | PxSend command "gerr option" | PxEnd "gerr option"

text \<open>The goroutines of one client, the error of the group's context, and whether \<open>readWrite\<close> has returned.\<close>

record px_gor =
  pgConnect :: px_loop
  pgRead :: px_loop
  pgWrite :: px_loop
  pgCtx :: "gerr option"
  pgWaited :: bool

datatype px_who = Connector | Reader | Writer

fun gor_loop :: "px_who \<Rightarrow> px_gor \<Rightarrow> px_loop" where
  "gor_loop Connector g = pgConnect g"
| "gor_loop Reader g = pgRead g"
| "gor_loop Writer g = pgWrite g"

fun set_loop :: "px_who \<Rightarrow> px_loop \<Rightarrow> px_gor \<Rightarrow> px_gor" where
  "set_loop Connector l g = g\<lparr>pgConnect := l\<rparr>"
| "set_loop Reader l g = g\<lparr>pgRead := l\<rparr>"
| "set_loop Writer l g = g\<lparr>pgWrite := l\<rparr>"

text \<open>\<open>pnGor\<close> has one entry for every client object. \<open>pnIn\<close> records what was read from each connection,
  \<open>pnLog\<close> what was forwarded, as read and as queued, \<open>pnOut\<close> what was written, \<open>pnDisc\<close> the calls of the
  disconnect callback.\<close>

record px_net =
  pn :: Proxy
  pnGor :: "px_gor list"
  pnServing :: bool
  pnCtx :: "gerr option"
  pnCrashed :: bool
  pnIn :: "(nat \<times> Rpc) list"
  pnLog :: "((nat \<times> Rpc) \<times> (nat \<times> Rpc)) list"
  pnOut :: "(nat \<times> Rpc) list"
  pnDisc :: "(string \<times> gerr) list"

definition pn_init :: "px_net \<Rightarrow> bool" where
  "pn_init s \<longleftrightarrow> (\<exists>pid. pn s = NewProxy pid) \<and> pnGor s = [] \<and> pnServing s \<and> pnCtx s = None \<and> \<not> pnCrashed s \<and>
     pnIn s = [] \<and> pnLog s = [] \<and> pnOut s = [] \<and> pnDisc s = []"

section \<open>Steps\<close>

definition idle_gor :: px_gor where
  "idle_gor = \<lparr>pgConnect = PxIdle, pgRead = PxIdle, pgWrite = PxIdle, pgCtx = None, pgWaited = False\<rparr>"

text \<open>\<open>readWrite\<close> starts the two loops; \<open>AddClient\<close> calls it at once, an outgoing connection when \<open>connect\<close> has
  succeeded.\<close>

definition readWrite :: "px_gor \<Rightarrow> px_gor" where
  "readWrite g = g\<lparr>pgRead := PxRun, pgWrite := PxRun\<rparr>"

definition connect_next :: "command option \<Rightarrow> px_gor \<Rightarrow> px_gor" where
  "connect_next cmd g =
     (case cmd of
        None \<Rightarrow> readWrite (g\<lparr>pgConnect := PxEnd None\<rparr>)
      | Some c \<Rightarrow> g\<lparr>pgConnect := PxSend c (cmdErr c)\<rparr>)"

text \<open>After a command is taken: a loop that had an error returns it, \<open>readLoop\<close> goes on otherwise.\<close>

definition after_send :: "gerr option \<Rightarrow> px_loop" where
  "after_send e = (case e of None \<Rightarrow> PxRun | Some x \<Rightarrow> PxEnd (Some x))"

definition writer_next :: "command option \<Rightarrow> gerr option \<Rightarrow> px_loop" where
  "writer_next cmd e =
     (case cmd of Some c \<Rightarrow> PxSend c e | None \<Rightarrow> (case e of None \<Rightarrow> PxRun | Some x \<Rightarrow> PxEnd (Some x)))"

text \<open>A command may have made one more client, which has \<open>connect\<close> running.\<close>

definition spawn :: "Proxy \<Rightarrow> px_gor list \<Rightarrow> px_gor list" where
  "spawn p gs = gs @ replicate (length (pxObjs p) - length gs) (idle_gor\<lparr>pgConnect := PxRun\<rparr>)"

definition forwarded :: "nat \<Rightarrow> command \<Rightarrow> forward option \<Rightarrow> ((nat \<times> Rpc) \<times> (nat \<times> Rpc)) list" where
  "forwarded a cmd f = (case cmdRpc cmd of None \<Rightarrow> [] | Some rpc \<Rightarrow> map (Pair (a, rpc)) (queued f))"

text \<open>The group's context is derived from the proxy's. When the group cancels it is left open: it may at any
  time.\<close>

definition group_err :: "px_net \<Rightarrow> nat \<Rightarrow> gerr option" where
  "group_err s r = (case pgCtx (pnGor s ! r) of None \<Rightarrow> pnCtx s | Some e \<Rightarrow> Some e)"

definition upd_gor :: "nat \<Rightarrow> (px_gor \<Rightarrow> px_gor) \<Rightarrow> px_net \<Rightarrow> px_net" where
  "upd_gor r f s = s\<lparr>pnGor := (pnGor s)[r := f (pnGor s ! r)]\<rparr>"

text \<open>A panic of the server loop ends the process. \<open>pn_wait\<close> is the return of the group's \<^verbatim>\<open>Wait\<close>, which
  waits for both loops.\<close>

inductive pn_step :: "(RequestHeader \<Rightarrow> gerr option \<times> RequestHeader) option \<Rightarrow> px_net \<Rightarrow> px_net \<Rightarrow> bool"
  for icpt where
  pn_add: "\<not> pnCrashed s \<Longrightarrow>
    pn_step icpt s (s\<lparr>pn := AddClient cid (pn s), pnGor := pnGor s @ [readWrite idle_gor]\<rparr>)"
| pn_connect: "\<not> pnCrashed s \<Longrightarrow> r < length (pnGor s) \<Longrightarrow> pgConnect (pnGor s ! r) = PxRun \<Longrightarrow>
    px_connect newConnection r (pn s) = (cmd, p') \<Longrightarrow>
    pn_step icpt s (upd_gor r (connect_next cmd) (s\<lparr>pn := p'\<rparr>))"
| pn_read: "\<not> pnCrashed s \<Longrightarrow> r < length (pnGor s) \<Longrightarrow> pgRead (pnGor s ! r) = PxRun \<Longrightarrow>
    px_readLoop None (pcId (pxObjs (pn s) ! r)) res = (Some cmd, e) \<Longrightarrow>
    pn_step icpt s (upd_gor r (set_loop Reader (PxSend cmd e))
      (s\<lparr>pnIn := pnIn s @ map (Pair r) (option_list (cmdRpc cmd))\<rparr>))"
| pn_read_ctx: "\<not> pnCrashed s \<Longrightarrow> r < length (pnGor s) \<Longrightarrow> pgRead (pnGor s ! r) = PxSend cmd None \<Longrightarrow>
    cmdRpc cmd = Some rpc \<Longrightarrow> group_err s r = Some ce \<Longrightarrow> px_readLoop (Some ce) (cmdId cmd) (Inr rpc) = (None, e) \<Longrightarrow>
    pn_step icpt s (upd_gor r (set_loop Reader (PxEnd e)) s)"
| pn_write: "\<not> pnCrashed s \<Longrightarrow> r < length (pnGor s) \<Longrightarrow> pgWrite (pnGor s ! r) = PxRun \<Longrightarrow>
    cancel = None \<or> cancel = group_err s r \<Longrightarrow>
    px_writeLoop cancel connWrite r (pn s) = Ret ((v, cmd, e), p') \<Longrightarrow>
    pn_step icpt s (upd_gor r (set_loop Writer (writer_next cmd e))
      (s\<lparr>pn := p', pnOut := pnOut s @ map (Pair r) (option_list v)\<rparr>))"
| pn_wait: "\<not> pnCrashed s \<Longrightarrow> r < length (pnGor s) \<Longrightarrow> pgRead (pnGor s ! r) = PxEnd e1 \<Longrightarrow>
    pgWrite (pnGor s ! r) = PxEnd e2 \<Longrightarrow> pn_step icpt s (upd_gor r (\<lambda>g. g\<lparr>pgWaited := True\<rparr>) s)"
| pn_group: "\<not> pnCrashed s \<Longrightarrow> r < length (pnGor s) \<Longrightarrow> group_err s r = None \<Longrightarrow>
    pn_step icpt s (upd_gor r (\<lambda>g. g\<lparr>pgCtx := Some ce\<rparr>) s)"
| pn_cancel: "\<not> pnCrashed s \<Longrightarrow> pnCtx s = None \<Longrightarrow> pn_step icpt s (s\<lparr>pnCtx := Some ce\<rparr>)"
| pn_stop: "\<not> pnCrashed s \<Longrightarrow> pnServing s \<Longrightarrow> pnCtx s = Some ce \<Longrightarrow> pn_step icpt s (s\<lparr>pnServing := False\<rparr>)"
| pn_command: "\<not> pnCrashed s \<Longrightarrow> pnServing s \<Longrightarrow> r < length (pnGor s) \<Longrightarrow>
    gor_loop w (pnGor s ! r) = PxSend cmd e \<Longrightarrow> serve_command icpt cmd (pn s) = Ret (f, ds, p') \<Longrightarrow>
    pn_step icpt s (s\<lparr>pn := p', pnGor := spawn p' ((pnGor s)[r := set_loop w (after_send e) (pnGor s ! r)]),
      pnLog := pnLog s @ forwarded r cmd f, pnDisc := pnDisc s @ ds\<rparr>)"
| pn_panic: "\<not> pnCrashed s \<Longrightarrow> pnServing s \<Longrightarrow> r < length (pnGor s) \<Longrightarrow>
    gor_loop w (pnGor s ! r) = PxSend cmd e \<Longrightarrow> serve_command icpt cmd (pn s) = Panic \<Longrightarrow>
    pn_step icpt s (s\<lparr>pnCrashed := True\<rparr>)"

section \<open>The clients\<close>

text \<open>No operation renames a client or takes its connection away, and the table refers to a client by its name.\<close>

definition clients_ext :: "Proxy \<Rightarrow> Proxy \<Rightarrow> bool" where
  "clients_ext p p' \<longleftrightarrow> pxId p' = pxId p \<and> length (pxObjs p) \<le> length (pxObjs p') \<and>
     (\<forall>r < length (pxObjs p). pcId (pxObjs p' ! r) = pcId (pxObjs p ! r) \<and>
        (pcConn (pxObjs p ! r) \<longrightarrow> pcConn (pxObjs p' ! r)))"

definition names_ok :: "Proxy \<Rightarrow> bool" where
  "names_ok p \<longleftrightarrow> (\<forall>k r. pxClients p k = Some r \<longrightarrow> r < length (pxObjs p) \<and> pcId (pxObjs p ! r) = k)"

lemma clients_ext_refl [simp]: "clients_ext p p"
  by (simp add: clients_ext_def)

lemma clients_ext_trans: "clients_ext p q \<Longrightarrow> clients_ext q r \<Longrightarrow> clients_ext p r"
  by (auto simp: clients_ext_def)

text \<open>A change of one client that keeps its name and its connection.\<close>

lemma client_update:
  assumes "names_ok p" and "r < length (pxObjs p)" and "pcId c = pcId (pxObjs p ! r)"
    and "pcConn (pxObjs p ! r) \<longrightarrow> pcConn c"
  shows "clients_ext p (p\<lparr>pxObjs := (pxObjs p)[r := c]\<rparr>)" and "names_ok (p\<lparr>pxObjs := (pxObjs p)[r := c]\<rparr>)"
  using assms by (auto simp: clients_ext_def names_ok_def nth_list_update)

lemma client_grow:
  assumes "names_ok p"
  shows "clients_ext p (p\<lparr>pxObjs := pxObjs p @ [new_client cid b], pxClients := (pxClients p)(cid \<mapsto> length (pxObjs p))\<rparr>)"
    and "names_ok (p\<lparr>pxObjs := pxObjs p @ [new_client cid b], pxClients := (pxClients p)(cid \<mapsto> length (pxObjs p))\<rparr>)"
  using assms by (fastforce simp: clients_ext_def names_ok_def nth_append split: if_splits)+

lemma AddClient_clients: "names_ok p \<Longrightarrow> clients_ext p (AddClient cid p) \<and> names_ok (AddClient cid p)"
  unfolding AddClient_def using client_grow[of p cid True] by simp

lemma proxy_client_clients:
  assumes "names_ok p" and "proxy_client d p = (r, new, p')"
  shows "clients_ext p p'" and "names_ok p'" and "r < length (pxObjs p')" and "pcId (pxObjs p' ! r) = d"
    and "length (pxObjs p') = length (pxObjs p) + (if new then 1 else 0)"
proof -
  have "clients_ext p p' \<and> names_ok p' \<and> length (pxObjs p') = length (pxObjs p) + (if new then 1 else 0)"
    using assms(2) client_grow[OF assms(1), of d False] assms(1)
    by (auto simp: proxy_client_def addOutgoingConnectionLocked_def split: option.splits)
  then show "clients_ext p p'" and n: "names_ok p'" and
    "length (pxObjs p') = length (pxObjs p) + (if new then 1 else 0)" by simp_all
  with pxt.retrieve_entry(1)[OF assms(2)] show "r < length (pxObjs p')" "pcId (pxObjs p' ! r) = d"
    by (simp_all add: names_ok_def)
qed

lemma px_connect_clients:
  assumes "names_ok p" and "r < length (pxObjs p)" and "px_connect newConnection r p = (cmd, p')"
  shows "clients_ext p p' \<and> names_ok p' \<and> length (pxObjs p') = length (pxObjs p) \<and>
    (case cmd of None \<Rightarrow> pcConn (pxObjs p' ! r) | Some c \<Rightarrow> cmdId c = pcId (pxObjs p ! r) \<and> cmdRpc c = None \<and> cmdErr c \<noteq> None)"
  using assms client_update[OF assms(1,2), of "(pxObjs p ! r)\<lparr>pcConn := True\<rparr>"]
  by (auto simp: px_connect_def Let_def split: option.splits)

lemma px_writeLoop_clients:
  assumes "names_ok p" and "r < length (pxObjs p)" and "px_writeLoop cancel connWrite r p = Ret ((v, cmd, e), p')"
  shows "clients_ext p p' \<and> names_ok p' \<and> length (pxObjs p') = length (pxObjs p) \<and>
    (\<forall>c. cmd = Some c \<longrightarrow> cmdId c = pcId (pxObjs p ! r) \<and> cmdRpc c = None \<and> e \<noteq> None)"
proof (cases cancel)
  case (Some ce)
  with assms show ?thesis by (auto simp: px_writeLoop_def)
next
  case None
  from assms(3) None obtain q where "p' = p\<lparr>pxObjs := (pxObjs p)[r := (pxObjs p ! r)\<lparr>pcQueue := q\<rparr>]\<rparr>"
    "\<forall>c. cmd = Some c \<longrightarrow> cmdId c = pcId (pxObjs p ! r) \<and> cmdRpc c = None \<and> e \<noteq> None"
    by (fastforce simp: px_writeLoop_def Let_def go_bind_Ret_iff split: option.splits)
  with client_update[OF assms(1,2), of "(pxObjs p ! r)\<lparr>pcQueue := q\<rparr>"] show ?thesis by simp
qed

section \<open>What a command does\<close>

definition icpt_header :: "(RequestHeader \<Rightarrow> gerr option \<times> RequestHeader) option \<Rightarrow> RequestHeader \<Rightarrow> RequestHeader" where
  "icpt_header icpt h = (case icpt of None \<Rightarrow> h | Some f \<Rightarrow> snd (f h))"

text \<open>A forwarded message: the client it was read from is the source it names, the one it was queued for has the
  address its route gives, and only the header has changed.\<close>

fun hop_ok :: "(RequestHeader \<Rightarrow> gerr option \<times> RequestHeader) option \<Rightarrow> Proxy \<Rightarrow> (nat \<times> Rpc) \<times> (nat \<times> Rpc) \<Rightarrow> bool" where
  "hop_ok icpt p ((a, rpc), (b, rpc')) \<longleftrightarrow> a < length (pxObjs p) \<and> b < length (pxObjs p) \<and>
     (\<exists>h h'. rpcHeader rpc = Some h \<and> hSource h = pcId (pxObjs p ! a) \<and>
        route_header (pxId p) (icpt_header icpt h) = Ret (pcId (pxObjs p ! b), h') \<and>
        rpc' = rpc\<lparr>rpcHeader := Some h'\<rparr>)"

lemma hop_ok_ext: "hop_ok icpt p x \<Longrightarrow> clients_ext p p' \<Longrightarrow> hop_ok icpt p' x"
  by (cases "(icpt, p, x)" rule: hop_ok.cases) (fastforce simp: clients_ext_def)

lemma forwardRpc_hop:
  assumes "forwardRpc icpt source rpc p = Ret (f, p')"
  shows "\<exists>h. rpcHeader rpc = Some h \<and> hSource h = source \<and>
    (\<forall>r rpc'. f = Forwarded r rpc' \<longrightarrow>
       (\<exists>d h' new p1. route_header (pxId p) (icpt_header icpt h) = Ret (d, h') \<and> rpc' = rpc\<lparr>rpcHeader := Some h'\<rparr> \<and>
          proxy_client d p = (r, new, p1) \<and> (\<exists>q. p' = p1\<lparr>pxObjs := (pxObjs p1)[r := (pxObjs p1 ! r)\<lparr>pcQueue := q\<rparr>]\<rparr>)))"
proof -
  obtain h where h: "rpcHeader rpc = Some h" "hSource h = source"
    using assms by (auto simp: forwardRpc_def split: option.splits if_splits)
  obtain ie h1 where i: "(case icpt of None \<Rightarrow> (None, h) | Some g \<Rightarrow> g h) = (ie, h1)" by fastforce
  then have h1: "icpt_header icpt h = h1" by (auto simp: icpt_header_def split: option.splits)
  have "\<exists>d h' new p1. route_header (pxId p) h1 = Ret (d, h') \<and> rpc' = rpc\<lparr>rpcHeader := Some h'\<rparr> \<and>
      proxy_client d p = (r, new, p1) \<and> (\<exists>q. p' = p1\<lparr>pxObjs := (pxObjs p1)[r := (pxObjs p1 ! r)\<lparr>pcQueue := q\<rparr>]\<rparr>)" if f: "f = Forwarded r rpc'" for r rpc'
  proof -
    from assms h i f have none: "ie = None" by (cases ie) (simp_all add: forwardRpc_def)
    with assms h i obtain d h' where rt: "route_header (pxId p) h1 = Ret (d, h')"
      by (auto simp: forwardRpc_def go_bind_Ret_iff)
    obtain r1 new p1 where c: "proxy_client d p = (r1, new, p1)" by (cases "proxy_client d p")
    from assms h i f none rt c have "r1 = r" "rpc' = rpc\<lparr>rpcHeader := Some h'\<rparr>"
      "\<exists>q. p' = p1\<lparr>pxObjs := (pxObjs p1)[r := (pxObjs p1 ! r)\<lparr>pcQueue := q\<rparr>]\<rparr>"
      by (auto simp: forwardRpc_def Let_def split: go.splits)
    with rt c show ?thesis by blast
  qed
  with h h1 show ?thesis by blast
qed

lemma forwardRpc_clients:
  assumes n: "names_ok p" and f: "forwardRpc icpt source rpc p = Ret (f, p')"
  shows "clients_ext p p' \<and> names_ok p'"
  using f
proof (cases rule: forwardRpc_cases)
  case (Forwarded h1 d h2 r new p1 q)
  note c = proxy_client_clients[OF n Forwarded(3)]
  from client_update[OF c(2,3), of "(pxObjs p1 ! r)\<lparr>pcQueue := q\<rparr>"] c(1) Forwarded(6)
  show ?thesis by (auto intro: clients_ext_trans)
next
  case (Dropped h1 d h2 r new)
  from proxy_client_clients(1,2)[OF n Dropped(2)] show ?thesis by simp
qed (use n in simp)

lemma serve_command_clients:
  assumes n: "names_ok p" and c: "serve_command icpt cmd p = Ret (f, ds, p')"
  shows "clients_ext p p' \<and> names_ok p'"
proof (cases "cmdRpc cmd")
  case (Some rpc)
  with c obtain f' where "forwardRpc icpt (cmdId cmd) rpc p = Ret (f', p')"
    by (auto simp: serve_command_def go_bind_Ret_iff)
  with n show ?thesis by (rule forwardRpc_clients)
next
  case None
  with n c show ?thesis
    by (auto simp: serve_command_def delete_client_def names_ok_def clients_ext_def split: option.splits if_splits)
qed

lemma serve_command_hop:
  assumes n: "names_ok p" and c: "serve_command icpt cmd p = Ret (f, ds, p')" and a: "a < length (pxObjs p)"
    and "cmdId cmd = pcId (pxObjs p ! a)" and x: "x \<in> set (forwarded a cmd f)"
  shows "hop_ok icpt p' x"
proof -
  from x obtain rpc r rpc' where rpc: "cmdRpc cmd = Some rpc" and f: "f = Some (Forwarded r rpc')"
    and x: "x = ((a, rpc), (r, rpc'))"
    by (force simp: forwarded_def queued_def split: option.splits forward.splits)
  with c have fw: "forwardRpc icpt (cmdId cmd) rpc p = Ret (Forwarded r rpc', p')"
    by (auto simp: serve_command_def go_bind_Ret_iff)
  from forwardRpc_hop[OF fw] obtain h d h' new p1 q where h: "rpcHeader rpc = Some h" "hSource h = cmdId cmd"
    "route_header (pxId p) (icpt_header icpt h) = Ret (d, h')" "rpc' = rpc\<lparr>rpcHeader := Some h'\<rparr>"
    and c1: "proxy_client d p = (r, new, p1)" and p': "p' = p1\<lparr>pxObjs := (pxObjs p1)[r := (pxObjs p1 ! r)\<lparr>pcQueue := q\<rparr>]\<rparr>"
    by auto
  note c1 = proxy_client_clients[OF n c1]
  have "clients_ext p p'" using serve_command_clients[OF n c] by simp
  with a have "a < length (pxObjs p')" "pcId (pxObjs p' ! a) = cmdId cmd" "pxId p' = pxId p"
    using assms(4) by (auto simp: clients_ext_def)
  moreover have "r < length (pxObjs p')" "pcId (pxObjs p' ! r) = d" using c1(3,4) p' by simp_all
  ultimately show ?thesis using h x by simp
qed

section \<open>The invariant\<close>

text \<open>The goroutines of one client: the loops start when \<open>connect\<close> is done and write only with a connection, their commands carry its name, messages come
  from the reader only, and \<open>readWrite\<close> returns after both loops.\<close>

definition gor_ok :: "proxyClient \<Rightarrow> px_gor \<Rightarrow> bool" where
  "gor_ok c g \<longleftrightarrow> (pgWrite g \<noteq> PxIdle \<longrightarrow> pcConn c) \<and>
     (pgConnect g = PxRun \<longrightarrow> pgRead g = PxIdle \<and> pgWrite g = PxIdle) \<and>
     (pgWaited g \<longrightarrow> (\<exists>e. pgRead g = PxEnd e) \<and> (\<exists>e. pgWrite g = PxEnd e)) \<and>
     (\<forall>w cmd e. gor_loop w g = PxSend cmd e \<longrightarrow>
        cmdId cmd = pcId c \<and> (cmdRpc cmd \<noteq> None \<longrightarrow> w = Reader) \<and> (e = None \<longleftrightarrow> cmdRpc cmd \<noteq> None))"

text \<open>The message the reader has read and not handed over.\<close>

definition px_held :: "px_gor \<Rightarrow> Rpc list" where
  "px_held g = (case pgRead g of PxSend cmd e \<Rightarrow> option_list (cmdRpc cmd) | _ \<Rightarrow> [])"

definition pn_inv :: "(RequestHeader \<Rightarrow> gerr option \<times> RequestHeader) option \<Rightarrow> px_net \<Rightarrow> bool" where
  "pn_inv icpt s \<longleftrightarrow> length (pnGor s) = length (pxObjs (pn s)) \<and> names_ok (pn s) \<and>
     (\<forall>r < length (pnGor s). gor_ok (pxObjs (pn s) ! r) (pnGor s ! r)) \<and>
     (\<forall>x \<in> set (pnLog s). hop_ok icpt (pn s) x) \<and>
     (\<forall>r < length (pnGor s). subseq (of_conn r (map fst (pnLog s)) @ px_held (pnGor s ! r)) (of_conn r (pnIn s)))"

lemma gor_ok_ext: "gor_ok c g \<Longrightarrow> pcId c' = pcId c \<Longrightarrow> (pcConn c \<Longrightarrow> pcConn c') \<Longrightarrow> gor_ok c' g"
  by (auto simp: gor_ok_def)

lemma px_who_all: "(\<forall>w. P w) \<longleftrightarrow> P Connector \<and> P Reader \<and> P Writer"
  using px_who.exhaust by metis

lemmas gor_ok_iff = gor_ok_def px_who_all gor_loop.simps

lemma gor_okD:
  "gor_ok c g \<Longrightarrow> gor_loop w g = PxSend cmd e \<Longrightarrow>
   cmdId cmd = pcId c \<and> (cmdRpc cmd \<noteq> None \<longrightarrow> w = Reader) \<and> (e = None \<longleftrightarrow> cmdRpc cmd \<noteq> None)"
  unfolding gor_ok_def by blast

lemma gor_start [simp]:
  "pcConn c \<Longrightarrow> gor_ok c (readWrite idle_gor)" "gor_ok c (idle_gor\<lparr>pgConnect := PxRun\<rparr>)"
  by (simp_all add: gor_ok_iff readWrite_def idle_gor_def)

lemma px_held_start [simp]: "px_held (readWrite g) = []" "px_held (idle_gor\<lparr>pgConnect := PxRun\<rparr>) = []"
  by (simp_all add: px_held_def readWrite_def idle_gor_def)

lemma hop_source_bound:
  "\<forall>x \<in> set l. hop_ok icpt p x \<Longrightarrow> length (pxObjs p) \<le> r \<Longrightarrow> of_conn r (map fst l) = []"
  by (induction l) (auto elim!: hop_ok.elims)

text \<open>A step that changes the goroutines of one client.\<close>

lemma pn_inv_upd:
  assumes inv: "pn_inv icpt s" and r: "r < length (pnGor s)" and len: "length (pxObjs p') = length (pxObjs (pn s))"
    and ext: "clients_ext (pn s) p'" "names_ok p'" and ok: "gor_ok (pxObjs p' ! r) (f (pnGor s ! r))"
    and inn: "\<forall>x \<in> set new. fst x = r"
    and sub: "subseq (px_held (f (pnGor s ! r))) (px_held (pnGor s ! r) @ map snd new)"
  shows "pn_inv icpt (upd_gor r f (s\<lparr>pn := p', pnIn := pnIn s @ new, pnOut := o'\<rparr>))"
proof -
  have gor: "gor_ok (pxObjs p' ! q) ((pnGor s)[r := f (pnGor s ! r)] ! q)" if "q < length (pnGor s)" for q
  proof (cases "q = r")
    case False
    have "gor_ok (pxObjs (pn s) ! q) (pnGor s ! q)" using inv that by (simp add: pn_inv_def)
    moreover have "q < length (pxObjs (pn s))" using inv that by (simp add: pn_inv_def)
    ultimately show ?thesis using False ext by (auto simp: clients_ext_def elim: gor_ok_ext)
  qed (use ok r in simp)
  have new: "of_conn q new = (if q = r then map snd new else [])" for q
    using inn of_conn_other[OF inn, of q] by (auto simp: of_conn_def)
  have "subseq (of_conn q (map fst (pnLog s)) @ px_held ((pnGor s)[r := f (pnGor s ! r)] ! q)) (of_conn q (pnIn s @ new))"
    if q: "q < length (pnGor s)" for q
  proof (cases "q = r")
    case True
    have "subseq (of_conn r (map fst (pnLog s)) @ px_held (f (pnGor s ! r)))
        ((of_conn r (map fst (pnLog s)) @ px_held (pnGor s ! r)) @ map snd new)"
      using sub by (simp add: list_emb_append_mono)
    also have "subseq \<dots> (of_conn r (pnIn s) @ map snd new)"
      using inv r by (intro list_emb_append_mono) (auto simp: pn_inv_def)
    finally show ?thesis using True r new by simp
  qed (use inv q new in \<open>simp add: pn_inv_def\<close>)
  moreover have "\<forall>x \<in> set (pnLog s). hop_ok icpt p' x" using inv ext by (auto simp: pn_inv_def intro: hop_ok_ext)
  ultimately show ?thesis using inv len ext gor by (simp add: pn_inv_def upd_gor_def)
qed

text \<open>The same client, with nothing read.\<close>

lemma pn_inv_gor:
  assumes "pn_inv icpt s" and "r < length (pnGor s)" and "gor_ok (pxObjs (pn s) ! r) (f (pnGor s ! r))"
    and "subseq (px_held (f (pnGor s ! r))) (px_held (pnGor s ! r))"
  shows "pn_inv icpt (upd_gor r f s)"
proof -
  have "names_ok (pn s)" using assms(1) by (simp add: pn_inv_def)
  from pn_inv_upd[of icpt s r "pn s" f "[]" "pnOut s", OF assms(1,2) refl clients_ext_refl this assms(3)] assms(4)
  show ?thesis by simp
qed

text \<open>The command of a loop is taken: what it held is forwarded or dropped.\<close>

lemma subseq_appendLeft: "subseq (xs @ ys) zs \<Longrightarrow> subseq xs zs"
  using subseq_order.trans[of xs "xs @ ys" zs] list_emb_append_mono[of "(=)" xs xs "[]" ys] by simp

lemma forwarded_source:
  "subseq (of_conn q (map fst (forwarded r cmd f))) (if q = r then option_list (cmdRpc cmd) else [])"
  by (auto simp: forwarded_def queued_def option_list_def split: option.splits forward.splits)

lemma gor_ok_taken:
  assumes "gor_ok c g" and "gor_loop w g = PxSend cmd e"
  shows "gor_ok c (set_loop w (after_send e) g)"
    and "subseq (option_list (cmdRpc cmd) @ px_held (set_loop w (after_send e) g)) (px_held g)"
proof -
  have a: "after_send e \<noteq> PxSend c' e'" "after_send e \<noteq> PxIdle" for c' e'
    by (simp_all add: after_send_def split: option.split)
  show "gor_ok c (set_loop w (after_send e) g)"
    using assms a by (cases w) (auto simp: gor_ok_iff after_send_def split: option.splits)
  have "cmdRpc cmd = None" if "w \<noteq> Reader" using gor_okD[OF assms] that by blast
  moreover have "px_held (g\<lparr>pgRead := after_send e\<rparr>) = []" using a by (simp add: px_held_def split: px_loop.split)
  ultimately show "subseq (option_list (cmdRpc cmd) @ px_held (set_loop w (after_send e) g)) (px_held g)"
    using assms(2) by (cases w) (simp_all add: px_held_def option_list_def)
qed

lemma pn_inv_command:
  assumes inv: "pn_inv icpt s" and r: "r < length (pnGor s)" and w: "gor_loop w (pnGor s ! r) = PxSend cmd e"
    and c: "serve_command icpt cmd (pn s) = Ret (f, ds, p')"
  shows "pn_inv icpt (s\<lparr>pn := p', pnGor := spawn p' ((pnGor s)[r := set_loop w (after_send e) (pnGor s ! r)]),
      pnLog := pnLog s @ forwarded r cmd f, pnDisc := pnDisc s @ ds\<rparr>)"
proof -
  let ?g = "pnGor s ! r" and ?h = "set_loop w (after_send e) (pnGor s ! r)"
  let ?gs = "(pnGor s)[r := ?h]" and ?new = "forwarded r cmd f"
  have i: "length (pnGor s) = length (pxObjs (pn s))" "names_ok (pn s)" "gor_ok (pxObjs (pn s) ! r) ?g"
    "\<forall>x \<in> set (pnLog s). hop_ok icpt (pn s) x" using inv r by (auto simp: pn_inv_def)
  have ext: "clients_ext (pn s) p'" "names_ok p'" using serve_command_clients[OF i(2) c] by auto
  have len: "length (pnGor s) \<le> length (pxObjs p')" using ext i(1) by (simp add: clients_ext_def)
  note t = gor_ok_taken[OF i(3) w]
  have cid: "cmdId cmd = pcId (pxObjs (pn s) ! r)" using gor_okD[OF i(3) w] by simp
  have hops: "\<forall>x \<in> set (pnLog s @ ?new). hop_ok icpt p' x"
    using i(4) ext(1) serve_command_hop[OF i(2) c _ cid] r i(1) by (auto intro: hop_ok_ext)
  have nth: "spawn p' ?gs ! q = (if q < length (pnGor s) then ?gs ! q else idle_gor\<lparr>pgConnect := PxRun\<rparr>)"
    if "q < length (pxObjs p')" for q
    using that by (simp add: spawn_def nth_append)
  have gor: "gor_ok (pxObjs p' ! q) (spawn p' ?gs ! q)" if q: "q < length (pxObjs p')" for q
  proof (cases "q < length (pnGor s)")
    case True
    have "gor_ok (pxObjs (pn s) ! q) (?gs ! q)" using inv True t(1) by (cases "q = r") (auto simp: pn_inv_def)
    with True i(1) ext(1) nth[OF q] show ?thesis by (auto simp: clients_ext_def elim: gor_ok_ext)
  qed (use nth[OF q] in simp)
  have sub: "subseq (of_conn q (map fst (pnLog s @ ?new)) @ px_held (spawn p' ?gs ! q)) (of_conn q (pnIn s))"
    if q: "q < length (pxObjs p')" for q
  proof (cases "q < length (pnGor s)")
    case True
    have "subseq (of_conn q (map fst ?new) @ px_held (?gs ! q)) (px_held (pnGor s ! q))"
    proof (cases "q = r")
      case True
      then have "subseq (of_conn q (map fst ?new) @ px_held (?gs ! q)) (option_list (cmdRpc cmd) @ px_held ?h)"
        using forwarded_source[of r r cmd f] r by (intro list_emb_append_mono) auto
      also have "subseq \<dots> (px_held (pnGor s ! q))" using t(2) True by simp
      finally show ?thesis .
    next
      case False
      then have "of_conn q (map fst ?new) = []" using forwarded_source[of q r cmd f] by simp
      with False show ?thesis by simp
    qed
    then have "subseq (of_conn q (map fst (pnLog s @ ?new)) @ px_held (?gs ! q))
        (of_conn q (map fst (pnLog s)) @ px_held (pnGor s ! q))" by (simp add: list_emb_append_mono)
    also have "subseq \<dots> (of_conn q (pnIn s))" using inv True by (simp add: pn_inv_def)
    finally show ?thesis using nth[OF q] True by simp
  next
    case False
    with forwarded_source[of q r cmd f] r have "of_conn q (map fst ?new) = []" by auto
    with False nth[OF q] hop_source_bound[OF i(4), of q] i(1) show ?thesis by simp
  qed
  have "length (spawn p' ?gs) = length (pxObjs p')" using len by (simp add: spawn_def)
  with ext hops gor sub show ?thesis by (simp add: pn_inv_def)
qed

lemma pn_inv_add:
  assumes inv: "pn_inv icpt s"
  shows "pn_inv icpt (s\<lparr>pn := AddClient cid (pn s), pnGor := pnGor s @ [readWrite idle_gor]\<rparr>)"
proof -
  let ?n = "length (pnGor s)" and ?p = "AddClient cid (pn s)"
  have i: "?n = length (pxObjs (pn s))" "names_ok (pn s)" "\<forall>x \<in> set (pnLog s). hop_ok icpt (pn s) x"
    using inv by (auto simp: pn_inv_def)
  have objs: "pxObjs ?p = pxObjs (pn s) @ [new_client cid True]" by (simp add: AddClient_def)
  have ext: "clients_ext (pn s) ?p" "names_ok ?p" using AddClient_clients[OF i(2)] by auto
  have "\<forall>x \<in> set (pnLog s). hop_ok icpt ?p x" using i(3) ext(1) by (auto intro: hop_ok_ext)
  moreover have "of_conn ?n (map fst (pnLog s)) = []" using hop_source_bound[OF i(3)] i(1) by simp
  moreover have "gor_ok (new_client cid True) (readWrite idle_gor)" by (simp add: new_client_def)
  ultimately show ?thesis
    using inv ext i(1) unfolding pn_inv_def by (simp add: objs nth_append less_Suc_eq all_conj_distrib)
qed

lemma pn_inv_step:
  assumes inv: "pn_inv icpt s" and st: "pn_step icpt s t"
  shows "pn_inv icpt t"
proof -
  have i: "length (pnGor s) = length (pxObjs (pn s))" "names_ok (pn s)" using inv by (auto simp: pn_inv_def)
  have ok: "gor_ok (pxObjs (pn s) ! r) (pnGor s ! r)" if "r < length (pnGor s)" for r
    using inv that by (simp add: pn_inv_def)
  from st show ?thesis
  proof (cases rule: pn_step.cases)
    case (pn_connect r newConnection cmd p')
    note c = px_connect_clients[OF i(2) _ pn_connect(5)]
    have "gor_ok (pxObjs p' ! r) (connect_next cmd (pnGor s ! r))"
      using pn_connect i c ok[of r]
      by (auto simp: gor_ok_iff connect_next_def readWrite_def clients_ext_def split: option.splits)
    moreover have "px_held (connect_next cmd (pnGor s ! r)) = []"
      using pn_connect ok[of r] by (auto simp: connect_next_def px_held_def readWrite_def gor_ok_def split: option.splits)
    ultimately show ?thesis
      using pn_inv_upd[OF inv pn_connect(3), of p' "connect_next cmd" "[]" "pnOut s"] pn_connect i c by simp
  next
    case (pn_read r res cmd e)
    let ?f = "set_loop Reader (PxSend cmd e)"
    have "gor_ok (pxObjs (pn s) ! r) (?f (pnGor s ! r))"
      using pn_read(4,5) ok[OF pn_read(3)] by (auto simp: gor_ok_iff px_readLoop_def split: sum.splits)
    moreover have "px_held (?f (pnGor s ! r)) = option_list (cmdRpc cmd)" "px_held (pnGor s ! r) = []"
      using pn_read(4) by (simp_all add: px_held_def)
    ultimately show ?thesis
      using pn_inv_upd[OF inv pn_read(3), of "pn s" ?f "map (Pair r) (option_list (cmdRpc cmd))" "pnOut s"] pn_read i
      by (simp add: comp_def)
  next
    case (pn_read_ctx r cmd rpc ce e)
    with ok[OF pn_read_ctx(3)] show ?thesis
      by (auto intro!: pn_inv_gor[OF inv] simp: gor_ok_iff px_held_def)
  next
    case (pn_write r cancel connWrite v cmd e p')
    let ?f = "set_loop Writer (writer_next cmd e)"
    have r: "r < length (pxObjs (pn s))" using pn_write(3) i(1) by simp
    note c = px_writeLoop_clients[OF i(2) r pn_write(6)]
    have "gor_ok (pxObjs p' ! r) (?f (pnGor s ! r))"
      using pn_write(4) c ok[OF pn_write(3)] r
      by (auto simp: gor_ok_iff writer_next_def clients_ext_def split: option.splits)
    moreover have "px_held (?f (pnGor s ! r)) = px_held (pnGor s ! r)" by (simp add: px_held_def)
    ultimately show ?thesis
      using pn_inv_upd[OF inv pn_write(3), of p' ?f "[]"] pn_write c by simp
  next
    case (pn_wait r e1 e2)
    then show ?thesis using ok[of r]
      by (auto intro!: pn_inv_gor[OF inv] simp: gor_ok_iff px_held_def)
  next
    case (pn_group r ce)
    then show ?thesis using ok[of r]
      by (auto intro!: pn_inv_gor[OF inv] simp: gor_ok_iff px_held_def)
  next
    case (pn_command r w cmd e f ds p')
    with pn_inv_command[OF inv pn_command(4-6)] show ?thesis by simp
  qed (use inv pn_inv_add in \<open>auto simp: pn_inv_def\<close>)
qed

interpretation pni: invariant_system pn_init "pn_step icpt" "pn_inv icpt" for icpt
proof unfold_locales
  show "pn_init s \<Longrightarrow> pn_inv icpt s" for s
    by (auto simp: pn_init_def pn_inv_def NewProxy_def names_ok_def)
qed (rule pn_inv_step)

section \<open>Refinement of the abstract proxy\<close>

text \<open>The abstract state forgets the goroutines and where a message was read.\<close>

definition pn_abs :: "px_net \<Rightarrow> px_sys" where
  "pn_abs s = \<lparr>px = pn s, pxServing = pnServing s, pxLog = map snd (pnLog s), pxOut = pnOut s\<rparr>"

lemma forwarded_queued:
  "serve_command icpt cmd p = Ret (f, ds, p') \<Longrightarrow> map snd (forwarded r cmd f) = queued f"
  by (auto simp: forwarded_def serve_command_def queued_def go_bind_Ret_iff delete_client_def comp_def split: option.splits)

lemma pn_abs_step:
  assumes inv: "pn_inv icpt s" and st: "pn_step icpt s t"
  shows "pn_abs t = pn_abs s \<or> px_step icpt (pn_abs s) (pn_abs t)"
  using st
proof (cases rule: pn_step.cases)
  case (pn_add cid)
  with px_step.px_add[of icpt "pn_abs s" cid] show ?thesis by (simp add: pn_abs_def)
next
  case (pn_connect r newConnection cmd p')
  then have "r < length (pxObjs (px (pn_abs s)))" "px_connect newConnection r (px (pn_abs s)) = (cmd, p')"
    using inv by (simp_all add: pn_abs_def pn_inv_def)
  from px_step.px_conn[OF this, of icpt] pn_connect(1) show ?thesis by (simp add: pn_abs_def upd_gor_def)
next
  case (pn_write r cancel connWrite v cmd e p')
  then have "r < length (pxObjs (px (pn_abs s)))" "pcConn (pxObjs (px (pn_abs s)) ! r)"
    "px_writeLoop cancel connWrite r (px (pn_abs s)) = Ret ((v, cmd, e), p')"
    using inv by (auto simp: pn_abs_def pn_inv_def gor_ok_def)
  from px_step.px_write[OF this, of icpt] pn_write(1) show ?thesis by (simp add: pn_abs_def upd_gor_def)
next
  case (pn_stop ce)
  with px_step.px_cancel[of icpt "pn_abs s"] show ?thesis by (simp add: pn_abs_def)
next
  case (pn_command r w cmd e f ds p')
  then have "pxServing (pn_abs s)" "serve_command icpt cmd (px (pn_abs s)) = Ret (f, ds, p')"
    by (simp_all add: pn_abs_def)
  from px_step.px_command[OF this] pn_command(1) forwarded_queued[OF pn_command(6)] show ?thesis
    by (simp add: pn_abs_def)
qed (simp_all add: pn_abs_def upd_gor_def)

interpretation pna: refinement_map pn_init "pn_step icpt" px_init "px_step icpt" pn_abs for icpt
proof unfold_locales
  show "pn_init s \<Longrightarrow> px_init (pn_abs s)" for s by (auto simp: pn_init_def px_init_def pn_abs_def)
  show "reach pn_init (pn_step icpt) s \<Longrightarrow> pn_step icpt s t \<Longrightarrow>
      pn_abs t = pn_abs s \<or> px_step icpt (pn_abs s) (pn_abs t)" for s t
    by (rule pn_abs_step[OF pni.reach_inv])
qed

section \<open>Loops that never return\<close>

text \<open>A loop that reports an error sends its command without watching a context: only the server loop can end its wait,
  by taking the command.\<close>

definition reporting :: "nat \<Rightarrow> px_who \<Rightarrow> command \<Rightarrow> gerr \<Rightarrow> px_net \<Rightarrow> bool" where
  "reporting r w cmd err s \<longleftrightarrow> r < length (pnGor s) \<and> gor_loop w (pnGor s ! r) = PxSend cmd (Some err)"

lemma reporting_upd:
  assumes "reporting r w cmd err s" and "pnGor s' = pnGor s"
    and "q = r \<Longrightarrow> gor_loop w (f (pnGor s ! r)) = gor_loop w (pnGor s ! r)"
  shows "reporting r w cmd err (upd_gor q f s')"
  using assms by (cases "q = r") (auto simp: reporting_def upd_gor_def)

lemma gor_loop_set: "gor_loop w (set_loop w' l g) = (if w = w' then l else gor_loop w g)"
  by (cases w; cases w') simp_all

lemma reporting_step:
  assumes inv: "pn_inv icpt s" and l: "reporting r w cmd err s" and st: "pn_step icpt s t"
  shows "reporting r w cmd err t \<or>
    pnServing s \<and> (\<exists>f ds p'. serve_command icpt cmd (pn s) = Ret (f, ds, p') \<and>
      t = s\<lparr>pn := p', pnGor := spawn p' ((pnGor s)[r := set_loop w (PxEnd (Some err)) (pnGor s ! r)]),
        pnLog := pnLog s @ forwarded r cmd f, pnDisc := pnDisc s @ ds\<rparr>)"
proof -
  have ok: "gor_ok (pxObjs (pn s) ! r) (pnGor s ! r)" using inv l by (simp add: pn_inv_def reporting_def)
  have w: "gor_loop w (pnGor s ! r) = PxSend cmd (Some err)" using l by (simp add: reporting_def)
  from st show ?thesis
  proof (cases rule: pn_step.cases)
    case (pn_connect q newConnection c p')
    show ?thesis unfolding pn_connect(1)
      by (intro disjI1, rule reporting_upd[OF l]) (use w ok pn_connect(3-) in \<open>cases w; auto simp: gor_ok_def connect_next_def split: option.splits\<close>)+
  next
    case (pn_read q res c e)
    show ?thesis unfolding pn_read(1)
      by (intro disjI1, rule reporting_upd[OF l]) (use w ok pn_read(3-) in \<open>cases w; auto simp: gor_ok_def\<close>)+
  next
    case (pn_read_ctx q c rpc ce e)
    show ?thesis unfolding pn_read_ctx(1)
      by (intro disjI1, rule reporting_upd[OF l]) (use w ok pn_read_ctx(3-) in \<open>cases w; auto simp: gor_ok_def\<close>)+
  next
    case (pn_write q cancel connWrite v c e p')
    show ?thesis unfolding pn_write(1)
      by (intro disjI1, rule reporting_upd[OF l]) (use w ok pn_write(3-) in \<open>cases w; auto simp: gor_ok_def\<close>)+
  next
    case (pn_wait q e1 e2)
    show ?thesis unfolding pn_wait(1)
      by (intro disjI1, rule reporting_upd[OF l]) (use w ok pn_wait(3-) in \<open>cases w; auto simp: gor_ok_def\<close>)+
  next
    case (pn_group q ce)
    show ?thesis unfolding pn_group(1)
      by (intro disjI1, rule reporting_upd[OF l]) (use w ok pn_group(3-) in \<open>cases w; auto simp: gor_ok_def\<close>)+
  next
    case (pn_command q w' c e f ds p')
    show ?thesis
    proof (cases "q = r \<and> w' = w")
      case True
      with w pn_command have "c = cmd" "e = Some err" by auto
      with True pn_command show ?thesis by (auto simp: after_send_def)
    next
      case False
      then have "reporting r w cmd err t"
        using l pn_command by (auto simp: reporting_def spawn_def nth_append nth_list_update gor_loop_set)
      then show ?thesis ..
    qed
  qed (use l in \<open>auto simp: reporting_def nth_append\<close>)
qed

text \<open>When the server loop has returned nobody takes it.\<close>

definition leaked :: "nat \<Rightarrow> px_who \<Rightarrow> command \<Rightarrow> gerr \<Rightarrow> px_net \<Rightarrow> bool" where
  "leaked r w cmd err s \<longleftrightarrow> \<not> pnServing s \<and> r < length (pnGor s) \<and> gor_loop w (pnGor s ! r) = PxSend cmd (Some err)"

lemma stays_stopped: "pn_step icpt s t \<Longrightarrow> \<not> pnServing s \<Longrightarrow> \<not> pnServing t"
  by (cases rule: pn_step.cases) (auto simp: upd_gor_def)

lemma leaked_step:
  "pn_inv icpt s \<Longrightarrow> leaked r w cmd err s \<Longrightarrow> pn_step icpt s t \<Longrightarrow> leaked r w cmd err t"
  using reporting_step[of icpt s r w cmd err t] stays_stopped[of icpt s t] by (auto simp: leaked_def reporting_def)

interpretation pnl: invariant_system "\<lambda>s. pn_inv icpt s \<and> leaked r w cmd err s" "pn_step icpt"
  "\<lambda>s. pn_inv icpt s \<and> leaked r w cmd err s" for icpt r w cmd err
  by unfold_locales (auto intro: pn_inv_step leaked_step)

section \<open>A run\<close>

text \<open>A message from client \<open>a\<close> to client \<open>b\<close>, whose connection fails to write it; \<open>b\<close> reconnects.\<close>

definition demo_hop :: Rpc where
  "demo_hop = demo_proxy_rpc\<lparr>rpcHeader := Some ((header_of ''/s/m'' ''a'' ''b'' [])\<lparr>hProxyRecord := [''p'']\<rparr>)\<rparr>"

definition demo_cl :: "string \<Rightarrow> Rpc list \<Rightarrow> proxyClient" where
  "demo_cl cid q = \<lparr>pcId = cid, pcConn = True, pcQueue = (make_chan 16)\<lparr>buf := q\<rparr>\<rparr>"

definition demo_gor :: "px_loop \<Rightarrow> px_loop \<Rightarrow> gerr option \<Rightarrow> px_gor" where
  "demo_gor rd wr ce = \<lparr>pgConnect = PxIdle, pgRead = rd, pgWrite = wr, pgCtx = ce, pgWaited = False\<rparr>"

definition demo_net ::
  "(string \<times> nat) list \<Rightarrow> proxyClient list \<Rightarrow> px_gor list \<Rightarrow> Rpc list \<Rightarrow> Rpc list \<Rightarrow> Rpc list \<Rightarrow> (string \<times> gerr) list \<Rightarrow> px_net" where
  "demo_net tab objs gs inn fwd out disc =
     \<lparr>pn = \<lparr>pxId = ''p'', pxClients = map_of tab, pxObjs = objs\<rparr>, pnGor = gs, pnServing = True, pnCtx = None,
      pnCrashed = False, pnIn = map (Pair 1) inn, pnLog = map (\<lambda>m. ((1, demo_proxy_rpc), (0, m))) fwd,
      pnOut = map (Pair 0) out, pnDisc = disc\<rparr>"

abbreviation "demo_reach \<equiv> reach pn_init (pn_step None)"
abbreviation "demo_run \<equiv> demo_gor PxRun PxRun None"
abbreviation "demo_msg \<equiv> \<lparr>cmdId = ''a'', cmdRpc = Some demo_proxy_rpc, cmdErr = None\<rparr>"
abbreviation "demo_broken \<equiv> External ''broken pipe''"
abbreviation "demo_werr \<equiv> Wrap demo_broken ''failed to write to connection''"
abbreviation "demo_rerr \<equiv> Wrap Canceled ''failed to read from connection''"
abbreviation "demo_fail e \<equiv> \<lparr>cmdId = ''b'', cmdRpc = None, cmdErr = Some e\<rparr>"

lemmas demo_net_defs = demo_net_def demo_cl_def demo_gor_def demo_hop_def AddClient_def new_client_def
  clientBufferSize_def readWrite_def idle_gor_def upd_gor_def px_readLoop_def option_list_def

lemmas demo_run_defs = make_chan_def serve_command_def forwardRpc_def route_header_def Let_def proxy_client_def chan_send_def
  chan_recv_def demo_proxy_rpc_def spawn_def after_send_def forwarded_def queued_def px_writeLoop_def writer_next_def
  delete_client_def group_err_def fun_upd_twist numeral_2_eq_2

text \<open>The states of the run: both clients added, the message read, forwarded, its write failed, the error reported,
  the client back, the group cancelled, the read failed, that error reported.\<close>

definition demo_added :: px_net where
  "demo_added = demo_net [(''a'', 1), (''b'', 0)] [demo_cl ''b'' [], demo_cl ''a'' []]
     [demo_run, demo_run]
     [] [] [] []"

definition demo_read :: px_net where
  "demo_read = demo_net [(''a'', 1), (''b'', 0)] [demo_cl ''b'' [], demo_cl ''a'' []]
     [demo_run, demo_gor (PxSend demo_msg None) PxRun None]
     [demo_proxy_rpc] [] [] []"

definition demo_forwarded :: px_net where
  "demo_forwarded = demo_net [(''a'', 1), (''b'', 0)] [demo_cl ''b'' [demo_hop], demo_cl ''a'' []]
     [demo_run, demo_run]
     [demo_proxy_rpc] [demo_hop] [] []"

definition demo_failed :: px_net where
  "demo_failed = demo_net [(''a'', 1), (''b'', 0)] [demo_cl ''b'' [], demo_cl ''a'' []]
     [demo_gor PxRun (PxSend (demo_fail demo_broken) (Some demo_werr)) None, demo_run]
     [demo_proxy_rpc] [demo_hop] [demo_hop] []"

definition demo_reported :: px_net where
  "demo_reported = demo_net [(''a'', 1)] [demo_cl ''b'' [], demo_cl ''a'' []]
     [demo_gor PxRun (PxEnd (Some demo_werr)) None, demo_run]
     [demo_proxy_rpc] [demo_hop] [demo_hop] [(''b'', demo_broken)]"

definition demo_again :: px_net where
  "demo_again = demo_net [(''b'', 2), (''a'', 1)] [demo_cl ''b'' [], demo_cl ''a'' [], demo_cl ''b'' []]
     [demo_gor PxRun (PxEnd (Some demo_werr)) None, demo_run, demo_run]
     [demo_proxy_rpc] [demo_hop] [demo_hop] [(''b'', demo_broken)]"

definition demo_cancelled :: px_net where
  "demo_cancelled = demo_net [(''b'', 2), (''a'', 1)] [demo_cl ''b'' [], demo_cl ''a'' [], demo_cl ''b'' []]
     [demo_gor PxRun (PxEnd (Some demo_werr)) (Some Canceled), demo_run, demo_run]
     [demo_proxy_rpc] [demo_hop] [demo_hop] [(''b'', demo_broken)]"

definition demo_readerr :: px_net where
  "demo_readerr = demo_net [(''b'', 2), (''a'', 1)] [demo_cl ''b'' [], demo_cl ''a'' [], demo_cl ''b'' []]
     [demo_gor (PxSend (demo_fail Canceled) (Some demo_rerr)) (PxEnd (Some demo_werr)) (Some Canceled), demo_run, demo_run]
     [demo_proxy_rpc] [demo_hop] [demo_hop] [(''b'', demo_broken)]"

definition demo_lost :: px_net where
  "demo_lost = demo_net [(''a'', 1)] [demo_cl ''b'' [], demo_cl ''a'' [], demo_cl ''b'' []]
     [demo_gor (PxEnd (Some demo_rerr)) (PxEnd (Some demo_werr)) (Some Canceled), demo_run, demo_run]
     [demo_proxy_rpc] [demo_hop] [demo_hop] [(''b'', demo_broken), (''b'', Canceled)]"

lemmas demo_state_defs = demo_added_def demo_read_def demo_forwarded_def demo_failed_def demo_reported_def
  demo_again_def demo_cancelled_def demo_readerr_def demo_lost_def

definition demo_empty :: px_net where
  "demo_empty = demo_net [] [] [] [] [] [] []"

definition demo_one :: px_net where
  "demo_one = demo_net [(''b'', 0)] [demo_cl ''b'' []] [demo_run] [] [] [] []"

lemma demo_empty_init: "pn_init demo_empty"
  by (auto simp: pn_init_def demo_empty_def demo_net_def NewProxy_def)

lemma step_demo_one: "pn_step None demo_empty demo_one"
  using pn_step.pn_add[where icpt = None and s = demo_empty and cid = "''b''"]
  by (simp add: demo_empty_def demo_one_def demo_net_defs demo_run_defs)

lemma step_demo_added: "pn_step None demo_one demo_added"
  using pn_step.pn_add[where icpt = None and s = demo_one and cid = "''a''"]
  by (simp add: demo_one_def demo_added_def demo_net_defs demo_run_defs)

lemmas reach_demo_added = reach_step[OF reach_step[OF reach_init[of pn_init demo_empty "pn_step None", OF demo_empty_init] step_demo_one] step_demo_added]

lemma step_demo_read: "pn_step None demo_added demo_read"
  using pn_step.pn_read[where icpt = None and s = demo_added and r = 1 and res = "Inr demo_proxy_rpc"
      and cmd = demo_msg and e = None]
  by (simp add: demo_state_defs demo_net_defs demo_run_defs)

lemmas reach_demo_read = reach_step[OF reach_demo_added step_demo_read]

lemma step_demo_forwarded: "pn_step None demo_read demo_forwarded"
  using pn_step.pn_command[where icpt = None and s = demo_read and r = 1 and w = Reader
      and cmd = demo_msg and e = None]
  by (simp add: demo_state_defs demo_net_defs demo_run_defs)

lemmas reach_demo_forwarded = reach_step[OF reach_demo_read step_demo_forwarded]

lemma step_demo_failed: "pn_step None demo_forwarded demo_failed"
  using pn_step.pn_write[where icpt = None and s = demo_forwarded and r = 0 and cancel = None and connWrite = "\<lambda>m. Some demo_broken"]
  by (simp add: demo_state_defs demo_net_defs demo_run_defs)

lemmas reach_demo_failed = reach_step[OF reach_demo_forwarded step_demo_failed]

lemma step_demo_reported: "pn_step None demo_failed demo_reported"
  using pn_step.pn_command[where icpt = None and s = demo_failed and r = 0 and w = Writer
      and cmd = "demo_fail demo_broken" and e = "Some demo_werr"]
  by (simp add: demo_state_defs demo_net_defs demo_run_defs)

lemmas reach_demo_reported = reach_step[OF reach_demo_failed step_demo_reported]

lemma step_demo_again: "pn_step None demo_reported demo_again"
  using pn_step.pn_add[where icpt = None and s = demo_reported and cid = "''b''"]
  by (simp add: demo_state_defs demo_net_defs demo_run_defs)

lemmas reach_demo_again = reach_step[OF reach_demo_reported step_demo_again]

lemma step_demo_cancelled: "pn_step None demo_again demo_cancelled"
  using pn_step.pn_group[where icpt = None and s = demo_again and r = 0 and ce = Canceled]
  by (simp add: demo_state_defs demo_net_defs demo_run_defs)

lemmas reach_demo_cancelled = reach_step[OF reach_demo_again step_demo_cancelled]

lemma step_demo_readerr: "pn_step None demo_cancelled demo_readerr"
  using pn_step.pn_read[where icpt = None and s = demo_cancelled and r = 0 and res = "Inl Canceled"]
  by (simp add: demo_state_defs demo_net_defs demo_run_defs)

lemmas reach_demo_readerr = reach_step[OF reach_demo_cancelled step_demo_readerr]

lemma step_demo_lost: "pn_step None demo_readerr demo_lost"
  using pn_step.pn_command[where icpt = None and s = demo_readerr and r = 0 and w = Reader
      and cmd = "demo_fail Canceled" and e = "Some demo_rerr"]
  by (simp add: demo_state_defs demo_net_defs demo_run_defs)

lemmas reach_demo_lost = reach_step[OF reach_demo_readerr step_demo_lost]

text \<open>The proxy is stopped while a loop of \<open>b\<close> has an error to report.\<close>

definition demo_stopped :: px_net where
  "demo_stopped = demo_failed\<lparr>pnCtx := Some Canceled, pnServing := False\<rparr>"

lemma reach_demo_stopped: "demo_reach demo_stopped"
proof -
  have "pn_step None demo_failed (demo_failed\<lparr>pnCtx := Some Canceled\<rparr>)"
    by (rule pn_step.pn_cancel) (simp_all add: demo_failed_def demo_net_def)
  with reach_demo_failed have "demo_reach (demo_failed\<lparr>pnCtx := Some Canceled\<rparr>)" by (rule reach_step)
  moreover have "pn_step None (demo_failed\<lparr>pnCtx := Some Canceled\<rparr>) demo_stopped"
    unfolding demo_stopped_def by (rule pn_step.pn_stop) (simp_all add: demo_failed_def demo_net_def)
  ultimately show ?thesis by (rule reach_step)
qed

section \<open>Properties\<close>

text \<open>The abstract proxy's law of the queues, here.\<close>

lemma pn_queue:
  assumes "reach pn_init (pn_step icpt) s" and "b < length (pxObjs (pn s))"
  shows "of_conn b (map snd (pnLog s)) = of_conn b (pnOut s) @ buf (pcQueue (pxObjs (pn s) ! b))"
    and "length (buf (pcQueue (pxObjs (pn s) ! b))) \<le> 16"
  using pxs.reach_inv[OF pna.reach_abs[OF assms(1)]] assms(2)
  by (simp_all add: px_inv_def pn_abs_def queue_ok_def clientBufferSize_def)

text \<open>C18: Whatever the order of the goroutines, the proxy is a lossy switch. Every message it has forwarded was read
  from the connection whose client it names as its source, is queued for the client the route of its (intercepted)
  header names, and differs only in the header, which records the proxy. The messages forwarded from one client are, in order, a
  subsequence of what was read from it; those for one client are exactly what was handed to its connection's
  \<^verbatim>\<open>Write\<close> followed by its queue, in order, and the queue holds at most 16.\<close>

theorem proxy_delivery:
  assumes "reach pn_init (pn_step icpt) s"
  shows "(\<forall>x \<in> set (pnLog s). hop_ok icpt (pn s) x) \<and>
    (\<forall>a < length (pxObjs (pn s)). subseq (of_conn a (map fst (pnLog s))) (of_conn a (pnIn s))) \<and>
    (\<forall>b < length (pxObjs (pn s)).
       of_conn b (map snd (pnLog s)) = of_conn b (pnOut s) @ buf (pcQueue (pxObjs (pn s) ! b)) \<and>
       length (buf (pcQueue (pxObjs (pn s) ! b))) \<le> 16)"
proof -
  have inv: "pn_inv icpt s" by (rule pni.reach_inv[OF assms])
  have "subseq (of_conn a (map fst (pnLog s))) (of_conn a (pnIn s))" if "a < length (pxObjs (pn s))" for a
    by (rule subseq_appendLeft[of _ "px_held (pnGor s ! a)"]) (use inv that in \<open>simp add: pn_inv_def\<close>)
  then show ?thesis using inv pn_queue[OF assms] by (simp add: pn_inv_def)
qed

text \<open>C34: A loop of a client that has an error to report when the server loop has returned waits for ever: it sends
  on an unbuffered channel nobody receives from, without watching its context, and \<open>readWrite\<close> never returns.\<close>

theorem proxy_loop_leak:
  assumes "reach pn_init (pn_step icpt) s" and "\<not> pnServing s" and "r < length (pnGor s)" and "w \<in> {Reader, Writer}"
    and "gor_loop w (pnGor s ! r) = PxSend cmd (Some err)" and "(pn_step icpt)\<^sup>*\<^sup>* s t"
  shows "gor_loop w (pnGor t ! r) = PxSend cmd (Some err) \<and> \<not> pgWaited (pnGor t ! r)"
proof -
  have "pn_inv icpt s \<and> leaked r w cmd err s" using assms pni.reach_inv by (auto simp: leaked_def)
  from pnl.steps_inv[OF assms(6) this] have inv: "pn_inv icpt t" and l: "leaked r w cmd err t" by auto
  then have "gor_ok (pxObjs (pn t) ! r) (pnGor t ! r)" "gor_loop w (pnGor t ! r) = PxSend cmd (Some err)"
    by (auto simp: pn_inv_def leaked_def)
  with assms(4) show ?thesis by (auto simp: gor_ok_def)
qed

text \<open>C33: A reconnected client can be lost. When a loop of an old connection still has an error to report and the client's name
  has meanwhile got a new connection, the step that ends the loop's wait deletes the entry of the new
  connection, whose loops are left as they are, and calls the disconnect callback: the proxy then knows no
  client of that name. The witness is a run in which a write to the client fails, one loop reports it, the client reconnects
  and the other loop reports, too.\<close>

theorem proxy_reconnect_lost:
  assumes "reach pn_init (pn_step icpt) s" and "r < length (pnGor s)" and "gor_loop w (pnGor s ! r) = PxSend cmd (Some err)"
    and "cmdErr cmd = Some e" and "pxClients (pn s) (pcId (pxObjs (pn s) ! r)) = Some r'" and "r' \<noteq> r"
    and "pn_step icpt s t" and "gor_loop w (pnGor t ! r) \<noteq> PxSend cmd (Some err)"
  shows "pcId (pxObjs (pn t) ! r') = pcId (pxObjs (pn s) ! r) \<and> pxClients (pn t) (pcId (pxObjs (pn s) ! r)) = None \<and>
    pnGor t ! r' = pnGor s ! r' \<and> pnDisc t = pnDisc s @ [(pcId (pxObjs (pn s) ! r), e)]"
proof -
  have inv: "pn_inv icpt s" by (rule pni.reach_inv[OF assms(1)])
  then have ok: "gor_ok (pxObjs (pn s) ! r) (pnGor s ! r)" and len: "length (pnGor s) = length (pxObjs (pn s))"
    and n: "r' < length (pxObjs (pn s))" "pcId (pxObjs (pn s) ! r') = pcId (pxObjs (pn s) ! r)"
    using assms(2,5) by (auto simp: pn_inv_def names_ok_def)
  from gor_okD[OF ok assms(3)] have cmd: "cmdId cmd = pcId (pxObjs (pn s) ! r)" "cmdRpc cmd = None" by auto
  from reporting_step[OF inv _ assms(7), of r w cmd err] assms(2,3,8) obtain f ds p' where
    c: "serve_command icpt cmd (pn s) = Ret (f, ds, p')" and
    t: "t = s\<lparr>pn := p', pnGor := spawn p' ((pnGor s)[r := set_loop w (PxEnd (Some err)) (pnGor s ! r)]),
      pnLog := pnLog s @ forwarded r cmd f, pnDisc := pnDisc s @ ds\<rparr>"
    by (auto simp: reporting_def)
  from c cmd assms(4) have "p' = (pn s)\<lparr>pxClients := (pxClients (pn s))(pcId (pxObjs (pn s) ! r) := None)\<rparr>"
    "ds = [(pcId (pxObjs (pn s) ! r), e)]"
    by (auto simp: serve_command_def delete_client_def)
  with t n len assms(2,6) show ?thesis by (simp add: spawn_def)
qed

section \<open>Witnesses\<close>

theorem proxy_delivery_witness:
  "subseq [demo_proxy_rpc] [demo_proxy_rpc] \<and>
   hop_ok None \<lparr>pxId = ''p'', pxClients = map_of [(''a'', 1), (''b'', 0)], pxObjs = [demo_cl ''b'' [demo_hop], demo_cl ''a'' []]\<rparr>
     ((1, demo_proxy_rpc), (0, demo_hop))"
  using proxy_delivery[OF reach_demo_forwarded] by (simp add: demo_forwarded_def demo_net_def)

theorem proxy_reconnect_lost_witness:
  "reach pn_init (pn_step None) demo_lost \<and> pnDisc demo_lost = [(''b'', External ''broken pipe''), (''b'', Canceled)] \<and>
   pcId (pxObjs (pn demo_lost) ! 2) = ''b'' \<and> pxClients (pn demo_lost) ''b'' = None \<and>
   pgRead (pnGor demo_lost ! 2) = PxRun \<and> pgWrite (pnGor demo_lost ! 2) = PxRun"
proof -
  have h: "0 < length (pnGor demo_readerr)" "gor_loop Reader (pnGor demo_readerr ! 0) = PxSend (demo_fail Canceled) (Some demo_rerr)"
    "cmdErr (demo_fail Canceled) = Some Canceled"
    "pxClients (pn demo_readerr) (pcId (pxObjs (pn demo_readerr) ! 0)) = Some 2" "(2 :: nat) \<noteq> 0"
    "gor_loop Reader (pnGor demo_lost ! 0) \<noteq> PxSend (demo_fail Canceled) (Some demo_rerr)"
    by (simp_all add: demo_state_defs demo_net_def demo_cl_def demo_gor_def)
  have "pcId (pxObjs (pn demo_readerr) ! 0) = ''b''" "pnGor demo_readerr ! 2 = demo_gor PxRun PxRun None"
    "pnDisc demo_readerr = [(''b'', External ''broken pipe'')]"
    by (simp_all add: demo_state_defs demo_net_def demo_cl_def demo_gor_def)
  with proxy_reconnect_lost[OF reach_demo_readerr h(1-5) step_demo_lost h(6)] reach_demo_lost
  show ?thesis by (simp add: demo_gor_def)
qed

text \<open>The loop is still there after the reader of \<open>a\<close> has seen the end of its connection.\<close>

theorem proxy_loop_leak_witness:
  "\<exists>t. pn_step None demo_stopped t \<and> pgWrite (pnGor t ! 0) = PxSend (demo_fail demo_broken) (Some demo_werr) \<and>
     \<not> pgWaited (pnGor t ! 0)"
proof -
  have st: "\<not> pnServing demo_stopped" "0 < length (pnGor demo_stopped)" "Writer \<in> {Reader, Writer}"
    "gor_loop Writer (pnGor demo_stopped ! 0) = PxSend (demo_fail demo_broken) (Some demo_werr)"
    by (simp_all add: demo_stopped_def demo_failed_def demo_net_def demo_gor_def)
  obtain t where t: "pn_step None demo_stopped t"
    using pn_step.pn_read[where icpt = None and s = demo_stopped and r = 1 and res = "Inl EOF"]
    by (auto simp: demo_stopped_def demo_failed_def demo_net_def demo_gor_def px_readLoop_def)
  from proxy_loop_leak[OF reach_demo_stopped st r_into_rtranclp[of "pn_step None", OF t]] t show ?thesis by auto
qed

end
