(* ===== verification/Goat_Proxy_Live.thy ===== *)
theory Goat_Proxy_Live
  imports Goat_Fair Goat_Proxy_System
begin

text \<open>
  Progress of the proxy: in every run that is fair to the write loop of a client, everything forwarded to that client
  is eventually handed to its connection, as long as the loop runs.
\<close>

section \<open>The write loop\<close>

text \<open>The step in which a client's write loop hands a message to its connection.\<close>

definition hands_over :: "(RequestHeader \<Rightarrow> gerr option \<times> RequestHeader) option \<Rightarrow> nat \<Rightarrow> px_net \<Rightarrow> px_net \<Rightarrow> bool" where
  "hands_over icpt r s t \<longleftrightarrow>
     pn_step icpt s t \<and> length (of_conn r (pnOut s)) < length (of_conn r (pnOut t))"

definition writing :: "nat \<Rightarrow> px_net \<Rightarrow> bool" where
  "writing r s \<longleftrightarrow> \<not> pnCrashed s \<and> r < length (pnGor s) \<and> pgWrite (pnGor s ! r) = PxRun"

lemma pn_step_grows:
  assumes "pn_step icpt s t"
  shows "\<exists>new. pnOut t = pnOut s @ new" and "\<exists>new. pnLog t = pnLog s @ new"
  using assms by (cases rule: pn_step.cases; auto simp: upd_gor_def)+

lemma hands_over_enabled:
  assumes w: "writing r s" and q: "buf (pcQueue (pxObjs (pn s) ! r)) = m # ms"
  shows "enabled (hands_over icpt r) s"
proof -
  let ?c = "pxObjs (pn s) ! r"
  obtain p' where "px_writeLoop None (\<lambda>m. None) r (pn s) = Ret ((Some m, None, None), p')"
    using q by (simp add: px_writeLoop_def chan_recv_def Let_def)
  from pn_step.pn_write[OF _ _ _ _ this, of icpt] w show ?thesis
    unfolding enabled_def hands_over_def writing_def
    by (fastforce simp: upd_gor_def option_list_def)
qed

text \<open>What is left of a list of messages: as long as not all of it is written, the queue is not empty.\<close>

lemma unwritten_queue:
  assumes "prefix ms log" and "log = out @ q" and "\<not> prefix ms out"
  shows "q \<noteq> []" and "length out < length ms"
proof -
  have "prefix out ms" using assms prefix_same_cases[of ms log out] by (simp add: prefixI)
  moreover have "out \<noteq> ms" using assms(3) by auto
  ultimately show "length out < length ms" using prefix_length_less strict_prefixI by blast
  with assms(1,2) show "q \<noteq> []" using prefix_length_le[OF assms(1)] by auto
qed

section \<open>Properties\<close>

text \<open>C19: In every run of the proxy that is fair to a client's write loop, everything forwarded to that client so far is
  eventually handed to its connection, in order, as long as the loop keeps running.\<close>

theorem proxy_eventually_writes:
  assumes "pn_init (\<sigma> 0)" and "run (pn_step icpt) \<sigma>" and "weakly_fair (hands_over icpt r) \<sigma>"
    and "\<forall>j\<ge>k. writing r (\<sigma> j)"
  shows "\<exists>j\<ge>k. prefix (of_conn r (map snd (pnLog (\<sigma> k)))) (of_conn r (pnOut (\<sigma> j)))"
proof -
  define ms where "ms = of_conn r (map snd (pnLog (\<sigma> k)))"
  define \<tau> where "\<tau> i = \<sigma> (k + i)" for i
  let ?P = "\<lambda>s. prefix ms (of_conn r (map snd (pnLog s)))" and ?Q = "\<lambda>s. prefix ms (of_conn r (pnOut s))"
  let ?f = "\<lambda>s. length ms - length (of_conn r (pnOut s))"
  have run: "run (pn_step icpt) \<tau>" and fair: "weakly_fair (hands_over icpt r) \<tau>"
    unfolding \<tau>_def by (rule run_shift[OF assms(2)], rule weakly_fair_shift[OF assms(3)])
  have w: "writing r (\<tau> i)" for i using assms(4) by (simp add: \<tau>_def)
  have law: "of_conn r (map snd (pnLog (\<tau> i))) = of_conn r (pnOut (\<tau> i)) @ buf (pcQueue (pxObjs (pn (\<tau> i)) ! r))" for i
  proof (rule pn_queue(1))
    show "reach pn_init (pn_step icpt) (\<tau> i)" unfolding \<tau>_def using assms(2,1) by (rule run_reach)
    then have "pn_inv icpt (\<tau> i)" by (rule pni.reach_inv)
    with w[of i] show "r < length (pxObjs (pn (\<tau> i)))" by (simp add: pn_inv_def writing_def)
  qed
  have grow: "\<exists>a b. pnOut (\<tau> (Suc i)) = pnOut (\<tau> i) @ a \<and> pnLog (\<tau> (Suc i)) = pnLog (\<tau> i) @ b" for i
    using run pn_step_grows[of icpt "\<tau> i" "\<tau> (Suc i)"] unfolding run_def by (metis append_Nil2)
  have P: "?P (\<tau> (Suc i))" if "?P (\<tau> i)" for i using grow[of i] that by (auto intro: prefix_prefix)
  have out: "length (of_conn r (pnOut (\<tau> i))) \<le> length (of_conn r (pnOut (\<tau> (Suc i))))" for i using grow[of i] by auto
  have "leads_to \<tau> ?P ?Q"
  proof (rule leads_to_measure[where f = ?f], rule wf_leads_to[OF fair])
    fix n i
    assume a: "?P (\<tau> i) \<and> ?f (\<tau> i) = n" and "\<not> (?Q (\<tau> i) \<or> ?P (\<tau> i) \<and> ?f (\<tau> i) < n)"
    then have nq: "\<not> ?Q (\<tau> i)" by blast
    note u = unwritten_queue[OF _ law nq]
    show "enabled (hands_over icpt r) (\<tau> i)" using u(1) a hands_over_enabled[OF w] by (auto simp: neq_Nil_conv)
    show "(?P (\<tau> (Suc i)) \<and> ?f (\<tau> (Suc i)) = n) \<or> ?Q (\<tau> (Suc i)) \<or> ?P (\<tau> (Suc i)) \<and> ?f (\<tau> (Suc i)) < n"
      using P[of i] a out[of i] by auto
    show "?Q (\<tau> (Suc i)) \<or> ?P (\<tau> (Suc i)) \<and> ?f (\<tau> (Suc i)) < n" if "hands_over icpt r (\<tau> i) (\<tau> (Suc i))"
      using that P[of i] a u(2) by (auto simp: hands_over_def)
  qed
  moreover have "?P (\<tau> 0)" by (simp add: \<tau>_def ms_def)
  ultimately obtain j where "?Q (\<tau> j)" using leads_toD by blast
  then show ?thesis unfolding ms_def \<tau>_def by (intro exI[of _ "k + j"]) simp
qed

section \<open>An example\<close>

text \<open>A run in which the message is written.\<close>

definition demo_written :: px_net where
  "demo_written = demo_net [(''a'', 1), (''b'', 0)] [demo_cl ''b'' [], demo_cl ''a'' []] [demo_run, demo_run]
     [demo_proxy_rpc] [demo_hop] [demo_hop] []"

definition demo_trace :: "px_net list" where
  "demo_trace = [demo_empty, demo_one, demo_added, demo_read, demo_forwarded, demo_written]"

lemma step_demo_written: "pn_step None demo_forwarded demo_written"
  using pn_step.pn_write[where icpt = None and s = demo_forwarded and r = 0 and cancel = None and connWrite = "\<lambda>m. None"]
  by (simp add: demo_written_def demo_state_defs demo_net_defs demo_run_defs)

lemma demo_trace_run: "run (pn_step None) (stops demo_trace)"
  by (rule steps_run) (simp_all add: demo_trace_def step_demo_one step_demo_added step_demo_read step_demo_forwarded step_demo_written)

lemma demo_written_idle: "\<not> enabled (hands_over None 0) demo_written"
proof
  assume "enabled (hands_over None 0) demo_written"
  then obtain t where "pn_step None demo_written t" "length (of_conn 0 (pnOut demo_written)) < length (of_conn 0 (pnOut t))"
    by (auto simp: enabled_def hands_over_def)
  then show False
  proof (cases rule: pn_step.cases)
    case (pn_write r cancel connWrite v cmd e p')
    have r: "r = 0 \<or> r = 1" using pn_write(3) by (auto simp: demo_written_def demo_net_def)
    then have "group_err demo_written r = None" by (auto simp: demo_written_def demo_net_def demo_gor_def group_err_def)
    with pn_write(5) have "cancel = None" by auto
    with r pn_write(6) show ?thesis by (auto simp: demo_written_def demo_net_def demo_cl_def px_writeLoop_def chan_recv_def Let_def)
  qed (auto simp: upd_gor_def)
qed

theorem proxy_eventually_writes_witness:
  "\<exists>j\<ge>4. prefix [demo_hop] (of_conn 0 (pnOut (stops demo_trace j)))"
proof -
  have "writing 0 (stops demo_trace j)" if "4 \<le> j" for j
  proof (cases "j = 4")
    case True
    then show ?thesis by (simp add: stops_def demo_trace_def writing_def demo_forwarded_def demo_net_def demo_gor_def)
  next
    case False
    with that have "stops demo_trace j = demo_written" by (simp add: stops_last demo_trace_def)
    then show ?thesis by (simp add: writing_def demo_written_def demo_net_def demo_gor_def)
  qed
  moreover have "pn_init (stops demo_trace 0)" by (simp add: stops_def demo_trace_def demo_empty_init)
  moreover have "weakly_fair (hands_over None 0) (stops demo_trace)"
    using demo_written_idle by (intro stops_fair(1)) (simp_all add: demo_trace_def)
  moreover have "pnLog (stops demo_trace 4) = [((1, demo_proxy_rpc), (0, demo_hop))]"
    by (simp add: stops_def demo_trace_def demo_forwarded_def demo_net_def)
  ultimately show ?thesis using proxy_eventually_writes[of "stops demo_trace" None 0 4] demo_trace_run by simp
qed

end
