(* ===== verification/Goat_Demux.thy ===== *)
theory Goat_Demux
  imports Goat_Conn_Table
begin

text \<open>
  The demultiplexer, \<^verbatim>\<open>demux.go\<close>: one transport shared by many connections, told apart by the id that
  \<^verbatim>\<open>demuxOn\<close> computes. The connections' users (\<^verbatim>\<open>onNewConnection\<close>) read and write through the channel
  transport of \<^verbatim>\<open>channel.go\<close>. The step relation interleaves \<^verbatim>\<open>Run\<close>, the writer goroutine of each
  connection, the users and \<^verbatim>\<open>Cancel\<close>; the lemmas show that messages with one id go to one connection until it is
  cancelled, that they are read from it once and in order, and which calls can panic.
\<close>

section \<open>State\<close>

text \<open>\<open>dcWriting\<close> says whether the connection's writer goroutine still runs.\<close>

record demuxConn =
  dcR :: "Rpc chan"
  dcW :: "Rpc chan"
  dcWriting :: bool

record Demux =
  dmCtx :: Context
  dmConns :: "string \<rightharpoonup> nat"
  dmObjs :: "demuxConn list"

definition NewDemux :: "Context \<Rightarrow> Demux" where
  "NewDemux ctx = \<lparr>dmCtx = ctx, dmConns = Map.empty, dmObjs = []\<rparr>"

definition Demux_Stop :: "Demux \<Rightarrow> Demux" where
  "Demux_Stop d = d\<lparr>dmCtx := ctx_cancel (dmCtx d)\<rparr>"

section \<open>Operations\<close>

text \<open>A new connection starts its writer and is passed to \<^verbatim>\<open>onNewConnection\<close>.\<close>

definition newConnLocked :: "string \<Rightarrow> Demux \<Rightarrow> nat \<times> Demux" where
  "newConnLocked k d =
     (length (dmObjs d),
      d\<lparr>dmObjs := dmObjs d @ [\<lparr>dcR = make_chan 0, dcW = make_chan 0, dcWriting = True\<rparr>],
        dmConns := (dmConns d)(k \<mapsto> length (dmObjs d))\<rparr>)"

text \<open>The locked part of \<^verbatim>\<open>Run\<close>'s loop: the connection of the message's id, and whether it is new.\<close>

definition run_lookup :: "string \<Rightarrow> Demux \<Rightarrow> nat \<times> bool \<times> Demux" where
  "run_lookup k d =
     (case dmConns d k of
        Some r \<Rightarrow> (r, False, d)
      | None \<Rightarrow> (case newConnLocked k d of (r, d1) \<Rightarrow> (r, True, d1)))"

text \<open>The send \<^verbatim>\<open>conn.r <- rpc\<close>, after the lock is released.\<close>

definition run_send :: "nat \<Rightarrow> Rpc \<Rightarrow> Demux \<Rightarrow> Demux go" where
  "run_send r rpc d =
     go_bind (chan_send (dcR (dmObjs d ! r)) rpc) (\<lambda>q.
       Ret (d\<lparr>dmObjs := (dmObjs d)[r := (dmObjs d ! r)\<lparr>dcR := q\<rparr>]\<rparr>))"

definition Demux_Cancel :: "string \<Rightarrow> Demux \<Rightarrow> Demux go" where
  "Demux_Cancel k d =
     go_bind
       (case dmConns d k of
          None \<Rightarrow> Ret d
        | Some r \<Rightarrow>
            go_bind (chan_close (dcR (dmObjs d ! r))) (\<lambda>cr.
              go_bind (chan_close (dcW (dmObjs d ! r))) (\<lambda>cw.
                Ret (d\<lparr>dmObjs := (dmObjs d)[r := (dmObjs d ! r)\<lparr>dcR := cr, dcW := cw\<rparr>]\<rparr>))))
       (\<lambda>d1. Ret (d1\<lparr>dmConns := (dmConns d1)(k := None)\<rparr>))"

text \<open>One turn of a connection's writer goroutine: the message it took, if any; \<open>wr\<close> is the shared
  transport's \<^verbatim>\<open>Write\<close>, \<open>pick\<close> the scheduler's choice.\<close>

definition conn_writer ::
  "bool \<Rightarrow> (Context \<Rightarrow> Rpc \<Rightarrow> gerr option) \<Rightarrow> nat \<Rightarrow> Demux \<Rightarrow> (Rpc option \<times> Demux) go" where
  "conn_writer pick wr r d =
     (let c = dmObjs d ! r; stop = (\<lambda>c'. d\<lparr>dmObjs := (dmObjs d)[r := c'\<lparr>dcWriting := False\<rparr>]\<rparr>)
      in select2 pick
           (on_done (dmCtx d) (\<lambda>e. (None, stop c)))
           (go_bind (chan_recv (dcW c)) (\<lambda>(v, q).
              case v of
                None \<Rightarrow> Ret (None, stop (c\<lparr>dcW := q\<rparr>))
              | Some rpc \<Rightarrow>
                  (case wr (dmCtx d) rpc of
                     Some err \<Rightarrow> Ret (Some rpc, stop (c\<lparr>dcW := q\<rparr>))
                   | None \<Rightarrow> Ret (Some rpc, d\<lparr>dmObjs := (dmObjs d)[r := c\<lparr>dcW := q\<rparr>]\<rparr>)))))"

text \<open>The view a connection's user has: the channel transport over the connection's two channels.\<close>

definition conn_rw :: "demuxConn \<Rightarrow> chan_rw" where
  "conn_rw c = NewGoatOverChannel (dcR c) (dcW c)"

definition set_conn_rw :: "nat \<Rightarrow> chan_rw \<Rightarrow> Demux \<Rightarrow> Demux" where
  "set_conn_rw r t d = d\<lparr>dmObjs := (dmObjs d)[r := (dmObjs d ! r)\<lparr>dcR := inQ t, dcW := outQ t\<rparr>]\<rparr>"

interpretation dmt: conn_table dmConns "\<lambda>d. length (dmObjs d)" run_lookup Demux_Cancel
  by unfold_locales
    (auto simp: run_lookup_def newConnLocked_def Demux_Cancel_def go_bind_Ret_iff split: option.splits)

section \<open>The demultiplexer's goroutines\<close>

text \<open>\<open>Run\<close> is reading, about to send a message to a connection, or has returned. The records keep
  what \<open>Run\<close> read, with the connection it chose, the cancelled ids, with the number of messages read before, and what each
  connection's user read.\<close>

datatype run_pc = RunRead | RunSend nat Rpc | RunDone

record dm_sys =
  dm :: Demux
  runPc :: run_pc
  dmRouted :: "(nat \<times> Rpc) list"
  dmCancels :: "(nat \<times> string) list"
  dmGot :: "(nat \<times> Rpc) list"

definition dm_init :: "dm_sys \<Rightarrow> bool" where
  "dm_init s \<longleftrightarrow> (\<exists>ctx. dm s = NewDemux ctx) \<and> runPc s = RunRead \<and> dmRouted s = [] \<and> dmCancels s = [] \<and>
     dmGot s = []"

text \<open>\<open>park\<close>s are the receivers that begin to wait: a user in \<^verbatim>\<open>Read\<close>, a writer goroutine in its select.\<close>

inductive dm_step :: "(Rpc \<Rightarrow> string) \<Rightarrow> dm_sys \<Rightarrow> dm_sys \<Rightarrow> bool" for demuxOn where
  run_err: "runPc s = RunRead \<Longrightarrow> dm_step demuxOn s (s\<lparr>runPc := RunDone\<rparr>)"
| run_read: "runPc s = RunRead \<Longrightarrow> run_lookup (demuxOn rpc) (dm s) = (r, new, d') \<Longrightarrow>
    dm_step demuxOn s (s\<lparr>dm := d', runPc := RunSend r rpc, dmRouted := dmRouted s @ [(r, rpc)]\<rparr>)"
| run_sent: "runPc s = RunSend r rpc \<Longrightarrow> run_send r rpc (dm s) = Ret d' \<Longrightarrow>
    dm_step demuxOn s (s\<lparr>dm := d', runPc := RunRead\<rparr>)"
| cancel: "Demux_Cancel k (dm s) = Ret d' \<Longrightarrow>
    dm_step demuxOn s (s\<lparr>dm := d', dmCancels := dmCancels s @ [(length (dmRouted s), k)]\<rparr>)"
| stop: "dm_step demuxOn s (s\<lparr>dm := Demux_Stop (dm s)\<rparr>)"
| park_read: "r < length (dmObjs (dm s)) \<Longrightarrow>
    dm_step demuxOn s (s\<lparr>dm := (dm s)\<lparr>dmObjs := (dmObjs (dm s))[r := (dmObjs (dm s) ! r)\<lparr>dcR := chan_park (dcR (dmObjs (dm s) ! r))\<rparr>]\<rparr>\<rparr>)"
| park_writer: "r < length (dmObjs (dm s)) \<Longrightarrow> dcWriting (dmObjs (dm s) ! r) \<Longrightarrow>
    dm_step demuxOn s (s\<lparr>dm := (dm s)\<lparr>dmObjs := (dmObjs (dm s))[r := (dmObjs (dm s) ! r)\<lparr>dcW := chan_park (dcW (dmObjs (dm s) ! r))\<rparr>]\<rparr>\<rparr>)"
| user_read: "r < length (dmObjs (dm s)) \<Longrightarrow>
    goc_read pick ctx (conn_rw (dmObjs (dm s) ! r)) = Ret (res, t) \<Longrightarrow>
    dm_step demuxOn s (s\<lparr>dm := set_conn_rw r t (dm s),
      dmGot := dmGot s @ (case res of Inl e \<Rightarrow> [] | Inr rpc \<Rightarrow> [(r, rpc)])\<rparr>)"
| user_write: "r < length (dmObjs (dm s)) \<Longrightarrow>
    goc_write pick ctx rpc (conn_rw (dmObjs (dm s) ! r)) = Ret (res, t) \<Longrightarrow>
    dm_step demuxOn s (s\<lparr>dm := set_conn_rw r t (dm s)\<rparr>)"
| writer: "r < length (dmObjs (dm s)) \<Longrightarrow> dcWriting (dmObjs (dm s) ! r) \<Longrightarrow>
    conn_writer pick wr r (dm s) = Ret (v, d') \<Longrightarrow>
    dm_step demuxOn s (s\<lparr>dm := d'\<rparr>)"

section \<open>The invariant\<close>

text \<open>The message \<open>Run\<close> holds for a connection.\<close>

definition pending :: "run_pc \<Rightarrow> nat \<Rightarrow> Rpc list" where
  "pending pc r = (case pc of RunSend q rpc \<Rightarrow> if q = r then [rpc] else [] | _ \<Rightarrow> [])"

lemma pending_simps [simp]:
  "pending RunRead r = []" "pending RunDone r = []" "pending (RunSend q rpc) r = (if q = r then [rpc] else [])"
  by (simp_all add: pending_def)

text \<open>
  Per connection: what was routed to it is what its user read, what waits in its channel and what \<open>Run\<close>
  holds for it, in this order; its two channels are closed together, exactly when it is no longer in the table.
  The lookups of \<open>Run\<close> are a history of the table.
\<close>

definition listed :: "Demux \<Rightarrow> nat \<Rightarrow> bool" where
  "listed d r \<longleftrightarrow> (\<exists>k. dmConns d k = Some r)"

definition conn_inv :: "dm_sys \<Rightarrow> nat \<Rightarrow> bool" where
  "conn_inv s r \<longleftrightarrow>
     of_conn r (dmRouted s) = of_conn r (dmGot s) @ buf (dcR (dmObjs (dm s) ! r)) @ pending (runPc s) r \<and>
     (closed (dcR (dmObjs (dm s) ! r)) \<longleftrightarrow> \<not> listed (dm s) r) \<and> (closed (dcW (dmObjs (dm s) ! r)) \<longleftrightarrow> \<not> listed (dm s) r)"

definition lookups :: "(Rpc \<Rightarrow> string) \<Rightarrow> dm_sys \<Rightarrow> (nat \<times> string) list" where
  "lookups demuxOn s = map (\<lambda>(r, rpc). (r, demuxOn rpc)) (dmRouted s)"

definition dm_inv :: "(Rpc \<Rightarrow> string) \<Rightarrow> dm_sys \<Rightarrow> bool" where
  "dm_inv demuxOn s \<longleftrightarrow> dmt.hist_ok (lookups demuxOn s) (dmCancels s) (dm s) \<and>
     (\<forall>r < length (dmObjs (dm s)). conn_inv s r) \<and>
     (\<forall>x \<in> set (dmRouted s @ dmGot s). fst x < length (dmObjs (dm s))) \<and>
     (\<forall>r rpc. runPc s = RunSend r rpc \<longrightarrow> dmRouted s \<noteq> [] \<and> last (dmRouted s) = (r, rpc))"

lemma lookups_simps [simp]:
  "length (lookups demuxOn s) = length (dmRouted s)"
  "i < length (dmRouted s) \<Longrightarrow> lookups demuxOn s ! i = (fst (dmRouted s ! i), demuxOn (snd (dmRouted s ! i)))"
  by (simp_all add: lookups_def split_beta)

lemma lookups_cong: "dmRouted t = dmRouted s \<Longrightarrow> lookups demuxOn t = lookups demuxOn s"
  by (simp add: lookups_def)

lemma dm_invD:
  assumes "dm_inv demuxOn s"
  shows "dmt.tab_ok (dm s)" "r < length (dmObjs (dm s)) \<Longrightarrow> conn_inv s r"
    "dmConns (dm s) k = Some r \<Longrightarrow> \<not> closed (dcR (dmObjs (dm s) ! r)) \<and> r < length (dmObjs (dm s))"
    "runPc s = RunSend r rpc \<Longrightarrow> r < length (dmObjs (dm s)) \<and> dmRouted s \<noteq> [] \<and> last (dmRouted s) = (r, rpc)"
    "dmt.hist_ok (lookups demuxOn s) (dmCancels s) (dm s)"
proof -
  show h: "dmt.hist_ok (lookups demuxOn s) (dmCancels s) (dm s)" and c: "r < length (dmObjs (dm s)) \<Longrightarrow> conn_inv s r" for r
    using assms by (simp_all add: dm_inv_def)
  show t: "dmt.tab_ok (dm s)" by (rule dmt.hist_okD(1)[OF h])
  show "dmConns (dm s) k = Some r \<Longrightarrow> \<not> closed (dcR (dmObjs (dm s) ! r)) \<and> r < length (dmObjs (dm s))"
    using t c[of r] by (auto simp: dmt.tab_ok_def conn_inv_def listed_def)
  show "runPc s = RunSend r rpc \<Longrightarrow> r < length (dmObjs (dm s)) \<and> dmRouted s \<noteq> [] \<and> last (dmRouted s) = (r, rpc)"
  proof -
    assume "runPc s = RunSend r rpc"
    with assms have l: "dmRouted s \<noteq> []" "last (dmRouted s) = (r, rpc)" by (simp_all add: dm_inv_def)
    have "last (dmRouted s) \<in> set (dmRouted s)" by (rule last_in_set[OF l(1)])
    moreover have "\<forall>x \<in> set (dmRouted s). fst x < length (dmObjs (dm s))" using assms by (simp add: dm_inv_def)
    ultimately show ?thesis using l by (metis fst_conv)
  qed
qed

text \<open>A step that changes one connection, leaving its channels as open as they were.\<close>

lemma dm_inv_obj:
  assumes inv: "dm_inv demuxOn s" and r: "r < length (dmObjs (dm s))"
    and cl: "closed (dcR c') = closed (dcR (dmObjs (dm s) ! r))" "closed (dcW c') = closed (dcW (dmObjs (dm s) ! r))"
    and fifo: "of_conn r (dmRouted s) = of_conn r (dmGot s @ got) @ buf (dcR c') @ pending pc' r"
    and got: "\<forall>x \<in> set got. fst x = r"
    and pc: "\<And>q. q \<noteq> r \<Longrightarrow> pending pc' q = pending (runPc s) q" "\<And>q m. pc' = RunSend q m \<Longrightarrow> pc' = runPc s"
  shows "dm_inv demuxOn (s\<lparr>dm := (dm s)\<lparr>dmObjs := (dmObjs (dm s))[r := c']\<rparr>, runPc := pc', dmGot := dmGot s @ got\<rparr>)"
    (is "dm_inv demuxOn ?t")
proof -
  have l: "listed (dm ?t) q = listed (dm s) q" for q by (simp add: listed_def)
  have "conn_inv ?t q" if q: "q < length (dmObjs (dm s))" for q
  proof (cases "q = r")
    case True
    with dm_invD(2)[OF inv r] l r fifo cl show ?thesis by (simp add: conn_inv_def)
  next
    case False
    with dm_invD(2)[OF inv q] l pc(1)[OF False] of_conn_other[OF got False] show ?thesis by (simp add: conn_inv_def)
  qed
  moreover have "dmt.hist_ok (lookups demuxOn ?t) (dmCancels ?t) (dm ?t)"
    using dmt.hist_ok_same[OF dm_invD(5)[OF inv], of "dm ?t"] lookups_cong[of ?t s demuxOn] by simp
  ultimately show ?thesis
    using inv r got pc(2) by (auto simp: dm_inv_def)
qed

lemma dm_inv_obj_quiet:
  assumes inv: "dm_inv demuxOn s" and r: "r < length (dmObjs (dm s))"
    and cl: "closed (dcR c') = closed (dcR (dmObjs (dm s) ! r))" "closed (dcW c') = closed (dcW (dmObjs (dm s) ! r))"
    and buf: "buf (dcR c') = buf (dcR (dmObjs (dm s) ! r))"
  shows "dm_inv demuxOn (s\<lparr>dm := (dm s)\<lparr>dmObjs := (dmObjs (dm s))[r := c']\<rparr>\<rparr>)"
  using dm_inv_obj[OF inv r cl, of "[]" "runPc s"] dm_invD(2)[OF inv r] dm_invD(4)[OF inv] buf
  by (simp add: conn_inv_def)

lemma dm_inv_read:
  assumes inv: "dm_inv demuxOn s" and idle: "runPc s = RunRead"
    and lk: "run_lookup (demuxOn rpc) (dm s) = (r, new, d')"
  shows "dm_inv demuxOn (s\<lparr>dm := d', runPc := RunSend r rpc, dmRouted := dmRouted s @ [(r, rpc)]\<rparr>)"
    (is "dm_inv demuxOn ?t")
proof -
  have hist: "dmt.hist_ok (lookups demuxOn ?t) (dmCancels ?t) (dm ?t)"
    using dmt.hist_ok_retrieve[OF dm_invD(5)[OF inv] lk] by (simp add: lookups_def)
  show ?thesis
  proof (cases "dmConns (dm s) (demuxOn rpc)")
    case (Some q)
    with lk have e: "q = r" "d' = dm s" by (simp_all add: run_lookup_def)
    have "conn_inv ?t i" if "i < length (dmObjs (dm s))" for i
      using dm_invD(2)[OF inv that] idle e by (simp add: conn_inv_def)
    moreover have "r < length (dmObjs (dm s))" using dm_invD(3)[OF inv Some] e by simp
    ultimately show ?thesis using inv e hist by (simp add: dm_inv_def)
  next
    case None
    let ?n = "length (dmObjs (dm s))"
    from lk None have e: "r = ?n" and d': "d' = (dm s)\<lparr>dmObjs := dmObjs (dm s) @ [\<lparr>dcR = make_chan 0, dcW = make_chan 0, dcWriting = True\<rparr>],
        dmConns := (dmConns (dm s))(demuxOn rpc \<mapsto> ?n)\<rparr>"
      by (auto simp: run_lookup_def newConnLocked_def)
    have fresh: "of_conn ?n (dmRouted s) = []" "of_conn ?n (dmGot s) = []"
      using inv by (auto simp: dm_inv_def intro: of_conn_fresh)
    have "conn_inv ?t i" if "i < Suc ?n" for i
    proof (cases "i = ?n")
      case True
      moreover have "listed d' ?n" using d' by (auto simp: listed_def)
      ultimately show ?thesis using fresh d' e by (simp add: conn_inv_def)
    next
      case False
      with that have i: "i < ?n" by simp
      have "listed d' i \<longleftrightarrow> listed (dm s) i" unfolding listed_def using d' None False by (auto, metis option.distinct(1))
      with dm_invD(2)[OF inv i] i idle e d' show ?thesis by (simp add: conn_inv_def nth_append)
    qed
    moreover have "\<forall>x \<in> set (dmRouted ?t @ dmGot ?t). fst x < Suc ?n"
      using inv e by (auto simp: dm_inv_def less_Suc_eq)
    ultimately show ?thesis using e d' hist by (simp add: dm_inv_def)
  qed
qed

text \<open>\<open>Cancel\<close> never closes a channel twice.\<close>

lemma Demux_Cancel_returns:
  assumes "dm_inv demuxOn s"
  shows "\<exists>d'. Demux_Cancel k (dm s) = Ret d'"
proof (cases "dmConns (dm s) k")
  case (Some r)
  from dm_invD(3)[OF assms this] dm_invD(2)[OF assms, of r] Some show ?thesis
    by (auto simp: Demux_Cancel_def conn_inv_def chan_close_def)
qed (simp add: Demux_Cancel_def)

lemma dm_inv_cancel:
  assumes inv: "dm_inv demuxOn s" and c: "Demux_Cancel k (dm s) = Ret d'"
  shows "dm_inv demuxOn (s\<lparr>dm := d', dmCancels := dmCancels s @ [(length (dmRouted s), k)]\<rparr>)" (is "dm_inv demuxOn ?t")
proof -
  have hist: "dmt.hist_ok (lookups demuxOn ?t) (dmCancels ?t) (dm ?t)"
    using dmt.hist_ok_remove[OF dm_invD(5)[OF inv] c] lookups_cong[of ?t s demuxOn] by simp
  show ?thesis
  proof (cases "dmConns (dm s) k")
    case None
    with c have "d' = (dm s)\<lparr>dmConns := (dmConns (dm s))(k := None)\<rparr>" by (simp add: Demux_Cancel_def)
    with None have "d' = dm s" by (simp add: fun_upd_idem)
    with inv hist show ?thesis by (simp add: dm_inv_def conn_inv_def)
  next
    case (Some r)
    let ?c = "dmObjs (dm s) ! r"
    from c Some have d': "d' = (dm s)\<lparr>dmObjs := (dmObjs (dm s))[r := ?c\<lparr>dcR := (dcR ?c)\<lparr>closed := True\<rparr>, dcW := (dcW ?c)\<lparr>closed := True\<rparr>\<rparr>],
        dmConns := (dmConns (dm s))(k := None)\<rparr>"
      by (auto simp: Demux_Cancel_def go_bind_Ret_iff chan_simps)
    have r: "r < length (dmObjs (dm s))" using dm_invD(3)[OF inv Some] by simp
    have tab: "listed d' q \<longleftrightarrow> q \<noteq> r \<and> listed (dm s) q" for q
      unfolding listed_def using d' Some dm_invD(1)[OF inv] by (auto simp: dmt.tab_ok_def) (metis option.inject)
    have "conn_inv ?t q" if "q < length (dmObjs (dm s))" for q
      using dm_invD(2)[OF inv that] d' r tab[of q] by (cases "q = r") (simp_all add: conn_inv_def)
    then show ?thesis using inv d' hist by (simp add: dm_inv_def)
  qed
qed

lemma dm_inv_writer:
  assumes inv: "dm_inv demuxOn s" and r: "r < length (dmObjs (dm s))"
    and w: "conn_writer pick wr r (dm s) = Ret (v, d')"
  shows "dm_inv demuxOn (s\<lparr>dm := d'\<rparr>)"
proof -
  obtain c' where d': "d' = (dm s)\<lparr>dmObjs := (dmObjs (dm s))[r := c']\<rparr>"
    and "dcR c' = dcR (dmObjs (dm s) ! r)" and "closed (dcW c') = closed (dcW (dmObjs (dm s) ! r))"
    using select2_RetD[OF w[unfolded conn_writer_def Let_def]]
    by (force simp: go_bind_Ret_iff chan_recv_def split: option.splits list.splits if_splits)
  with dm_inv_obj_quiet[OF inv r] show ?thesis by simp
qed

lemma goc_read_queue:
  assumes "goc_read pick ctx t = Ret (res, t')"
  shows "outQ t' = outQ t \<and> closed (inQ t') = closed (inQ t) \<and>
    buf (inQ t) = (case res of Inl e \<Rightarrow> [] | Inr rpc \<Rightarrow> [rpc]) @ buf (inQ t')"
  using select2_RetD[OF assms[unfolded goc_read_def]]
proof (elim disjE, goal_cases)
  case 1
  then show ?case by auto
next
  case 2
  then obtain v q where v: "chan_recv (inQ t) = Ret (v, q)" by (auto simp: go_bind_Ret_iff)
  with 2 show ?case by (cases v) (auto simp: chan_simps)
qed

lemma dm_inv_user_read:
  assumes inv: "dm_inv demuxOn s" and r: "r < length (dmObjs (dm s))"
    and g: "goc_read pick ctx (conn_rw (dmObjs (dm s) ! r)) = Ret (res, t)"
  shows "dm_inv demuxOn (s\<lparr>dm := set_conn_rw r t (dm s),
      dmGot := dmGot s @ (case res of Inl e \<Rightarrow> [] | Inr rpc \<Rightarrow> [(r, rpc)])\<rparr>)"
proof -
  let ?c = "dmObjs (dm s) ! r" and ?got = "case res of Inl e \<Rightarrow> [] | Inr rpc \<Rightarrow> [(r, rpc)]"
  have t: "closed (inQ t) = closed (dcR ?c)" "outQ t = dcW ?c" "buf (dcR ?c) = map snd ?got @ buf (inQ t)"
    using goc_read_queue[OF g] by (cases res; simp add: conn_rw_def NewGoatOverChannel_def)+
  have got: "of_conn r ?got = map snd ?got" "\<forall>x \<in> set ?got. fst x = r" by (cases res; simp)+
  have "dm_inv demuxOn (s\<lparr>dm := (dm s)\<lparr>dmObjs := (dmObjs (dm s))[r := ?c\<lparr>dcR := inQ t, dcW := outQ t\<rparr>]\<rparr>,
      runPc := runPc s, dmGot := dmGot s @ ?got\<rparr>)"
  proof (rule dm_inv_obj[OF inv r _ _ _ got(2)], goal_cases)
    case 3
    from dm_invD(2)[OF inv r] t(3) got(1) show ?case by (simp add: conn_inv_def)
  qed (use t dm_invD(4)[OF inv] in simp_all)
  then show ?thesis by (simp add: set_conn_rw_def)
qed

lemma dm_inv_user_write:
  assumes inv: "dm_inv demuxOn s" and r: "r < length (dmObjs (dm s))"
    and g: "goc_write pick ctx rpc (conn_rw (dmObjs (dm s) ! r)) = Ret (res, t)"
  shows "dm_inv demuxOn (s\<lparr>dm := set_conn_rw r t (dm s)\<rparr>)"
  unfolding set_conn_rw_def
  by (rule dm_inv_obj_quiet[OF inv r])
    (use g in \<open>auto elim!: goc_write_cases simp: conn_rw_def NewGoatOverChannel_def chan_simps\<close>)

lemma dm_inv_sent:
  assumes inv: "dm_inv demuxOn s" and pc: "runPc s = RunSend r rpc" and snd: "run_send r rpc (dm s) = Ret d'"
  shows "dm_inv demuxOn (s\<lparr>dm := d', runPc := RunRead\<rparr>)"
proof -
  let ?c = "dmObjs (dm s) ! r"
  have r: "r < length (dmObjs (dm s))" using dm_invD(4)[OF inv pc] by simp
  from snd obtain q where q: "chan_send (dcR ?c) rpc = Ret q" "d' = (dm s)\<lparr>dmObjs := (dmObjs (dm s))[r := ?c\<lparr>dcR := q\<rparr>]\<rparr>"
    by (auto simp: run_send_def go_bind_Ret_iff)
  with dm_inv_obj[OF inv r, of "?c\<lparr>dcR := q\<rparr>" "[]" RunRead] dm_invD(2)[OF inv r] pc show ?thesis
    by (auto simp: conn_inv_def chan_simps)
qed

lemma dm_inv_step: "dm_inv demuxOn s \<Longrightarrow> dm_step demuxOn s t \<Longrightarrow> dm_inv demuxOn t"
proof (erule dm_step.cases, goal_cases)
  case (1 s')
  then show ?case by (auto simp: dm_inv_def conn_inv_def lookups_def)
next
  case (2 s' rpc r new d')
  then show ?case using dm_inv_read by simp
next
  case (3 s' r rpc d')
  then show ?case using dm_inv_sent by simp
next
  case (4 k s' d')
  then show ?case using dm_inv_cancel by simp
next
  case (5 s')
  let ?t = "s\<lparr>dm := Demux_Stop (dm s)\<rparr>"
  have "dmt.hist_ok (lookups demuxOn ?t) (dmCancels ?t) (dm ?t)"
    using dmt.hist_ok_same[OF dm_invD(5)[OF 5(1)], of "dm ?t"] lookups_cong[of ?t s demuxOn] by (simp add: Demux_Stop_def)
  with 5 show ?case by (simp add: dm_inv_def conn_inv_def listed_def Demux_Stop_def)
next
  case (6 r s')
  then show ?case by (auto simp: chan_park_def intro!: dm_inv_obj_quiet)
next
  case (7 r s')
  then show ?case by (auto simp: chan_park_def intro!: dm_inv_obj_quiet)
next
  case (8 r s' pick ctx res tt)
  then show ?case using dm_inv_user_read by simp
next
  case (9 r s' pick ctx rpc res tt)
  then show ?case using dm_inv_user_write by simp
next
  case (10 r s' pick wr v d')
  then show ?case using dm_inv_writer by simp
qed

interpretation dms: invariant_system dm_init "dm_step demuxOn" "dm_inv demuxOn" for demuxOn
proof unfold_locales
  show "dm_init s \<Longrightarrow> dm_inv demuxOn s" for s
    by (auto simp: dm_init_def NewDemux_def dm_inv_def lookups_def dmt.tab_ok_def intro: dmt.hist_ok_init)
qed (rule dm_inv_step)

section \<open>Progress\<close>

text \<open>A user that keeps reading gets everything in its channel, and then what \<open>Run\<close> holds for it.\<close>

lemma user_drains:
  "r < length (dmObjs (dm s)) \<Longrightarrow> buf (dcR (dmObjs (dm s) ! r)) = ms \<Longrightarrow>
   \<exists>t. (dm_step demuxOn)\<^sup>*\<^sup>* s t \<and> dmGot t = dmGot s @ map (Pair r) ms \<and> runPc t = runPc s \<and>
     length (dmObjs (dm t)) = length (dmObjs (dm s)) \<and> buf (dcR (dmObjs (dm t) ! r)) = [] \<and>
     closed (dcR (dmObjs (dm t) ! r)) = closed (dcR (dmObjs (dm s) ! r))"
proof (induction ms arbitrary: s)
  case Nil
  then show ?case by (intro exI[of _ s]) simp
next
  case (Cons m ms)
  let ?c = "dmObjs (dm s) ! r"
  let ?q = "(dcR ?c)\<lparr>buf := ms, waiting := waiting (dcR ?c) - 1\<rparr>"
  let ?t = "s\<lparr>dm := set_conn_rw r ((conn_rw ?c)\<lparr>inQ := ?q\<rparr>) (dm s), dmGot := dmGot s @ [(r, m)]\<rparr>"
  have "goc_read True Background (conn_rw ?c) = Ret (Inr m, (conn_rw ?c)\<lparr>inQ := ?q\<rparr>)"
    using Cons.prems(2) by (simp add: goc_read_def on_done_def Background_def conn_rw_def NewGoatOverChannel_def chan_recv_def)
  from dm_step.user_read[OF Cons.prems(1) this, of demuxOn] have st: "dm_step demuxOn s ?t" by simp
  have "r < length (dmObjs (dm ?t))" "buf (dcR (dmObjs (dm ?t) ! r)) = ms"
    "closed (dcR (dmObjs (dm ?t) ! r)) = closed (dcR ?c)" "length (dmObjs (dm ?t)) = length (dmObjs (dm s))"
    using Cons.prems(1) by (simp_all add: set_conn_rw_def)
  with Cons.IH[of ?t] converse_rtranclp_into_rtranclp[of "dm_step demuxOn", OF st] show ?case by fastforce
qed

lemma run_delivers:
  assumes pc: "runPc s = RunSend r rpc" and r: "r < length (dmObjs (dm s))" and op: "\<not> closed (dcR (dmObjs (dm s) ! r))"
  shows "\<exists>t. (dm_step demuxOn)\<^sup>*\<^sup>* s t \<and> runPc t = RunRead \<and>
    dmGot t = dmGot s @ map (Pair r) (buf (dcR (dmObjs (dm s) ! r)) @ [rpc])"
proof -
  obtain t where t: "(dm_step demuxOn)\<^sup>*\<^sup>* s t" "dmGot t = dmGot s @ map (Pair r) (buf (dcR (dmObjs (dm s) ! r)))"
    "runPc t = RunSend r rpc" "r < length (dmObjs (dm t))" "buf (dcR (dmObjs (dm t) ! r)) = []" "\<not> closed (dcR (dmObjs (dm t) ! r))"
    using user_drains[OF r refl, of demuxOn] pc r op by auto
  define u where "u = t\<lparr>dm := (dm t)\<lparr>dmObjs := (dmObjs (dm t))[r := (dmObjs (dm t) ! r)\<lparr>dcR := chan_park (dcR (dmObjs (dm t) ! r))\<rparr>]\<rparr>\<rparr>"
  have u: "dm_step demuxOn t u" unfolding u_def by (rule dm_step.park_read[OF t(4)])
  have send: "run_send r rpc (dm u) =
      Ret ((dm u)\<lparr>dmObjs := (dmObjs (dm u))[r := (dmObjs (dm u) ! r)\<lparr>dcR := (dcR (dmObjs (dm u) ! r))\<lparr>buf := [rpc]\<rparr>\<rparr>]\<rparr>)"
    using t(4-6) by (simp add: u_def run_send_def chan_send_def chan_park_def)
  define v where "v = u\<lparr>dm := (dm u)\<lparr>dmObjs := (dmObjs (dm u))[r := (dmObjs (dm u) ! r)\<lparr>dcR := (dcR (dmObjs (dm u) ! r))\<lparr>buf := [rpc]\<rparr>\<rparr>]\<rparr>,
      runPc := RunRead\<rparr>"
  have v: "dm_step demuxOn u v" unfolding v_def by (rule dm_step.run_sent[OF _ send]) (simp add: u_def t(3))
  have "r < length (dmObjs (dm v))" "buf (dcR (dmObjs (dm v) ! r)) = [rpc]" "runPc v = RunRead" "dmGot v = dmGot t"
    using t(4) by (simp_all add: v_def u_def)
  with user_drains[of r v "[rpc]" demuxOn] obtain w where "(dm_step demuxOn)\<^sup>*\<^sup>* v w" "runPc w = RunRead" "dmGot w = dmGot t @ [(r, rpc)]"
    by auto
  with t(1,2) u v show ?thesis by (intro exI[of _ w]) (auto intro: rtranclp_trans converse_rtranclp_into_rtranclp)
qed

section \<open>Properties\<close>

text \<open>C17: In every reachable state of the demultiplexer, two messages went to the same connection exactly when they have the
  same id and this id was not cancelled between the two. What was routed to a connection is what its user read, then
  what waits in its channel, then what \<open>Run\<close> is about to send, in the order of the shared transport: nothing is
  lost, duplicated or reordered. When the connection of the message \<open>Run\<close> is about to send has been cancelled since it was
  looked up, the send panics; otherwise the steps of a reading user and of \<open>Run\<close> deliver it. \<open>Cancel\<close> never panics.\<close>

theorem demux_delivery:
  assumes "reach dm_init (dm_step demuxOn) s" and "r < length (dmObjs (dm s))"
  shows "(\<forall>i j. i < j \<and> j < length (dmRouted s) \<longrightarrow>
      (fst (dmRouted s ! i) = fst (dmRouted s ! j) \<longleftrightarrow>
       demuxOn (snd (dmRouted s ! i)) = demuxOn (snd (dmRouted s ! j)) \<and>
       \<not> (\<exists>n. (n, demuxOn (snd (dmRouted s ! i))) \<in> set (dmCancels s) \<and> i < n \<and> n \<le> j))) \<and>
    of_conn r (dmRouted s) = of_conn r (dmGot s) @ buf (dcR (dmObjs (dm s) ! r)) @ pending (runPc s) r \<and>
    (runPc s = RunSend r rpc \<longrightarrow>
      (if (length (dmRouted s), demuxOn rpc) \<in> set (dmCancels s) then run_send r rpc (dm s) = Panic
       else \<exists>t. (dm_step demuxOn)\<^sup>*\<^sup>* s t \<and> runPc t = RunRead \<and>
              dmGot t = dmGot s @ map (Pair r) (buf (dcR (dmObjs (dm s) ! r)) @ [rpc]))) \<and>
    (\<exists>d'. Demux_Cancel k (dm s) = Ret d')"
proof -
  have inv: "dm_inv demuxOn s" by (rule dms.reach_inv[OF assms(1)])
  note h = dm_invD(5)[OF inv]
  have pairs: "\<forall>i j. i < j \<and> j < length (dmRouted s) \<longrightarrow>
      (fst (dmRouted s ! i) = fst (dmRouted s ! j) \<longleftrightarrow>
       demuxOn (snd (dmRouted s ! i)) = demuxOn (snd (dmRouted s ! j)) \<and>
       \<not> (\<exists>n. (n, demuxOn (snd (dmRouted s ! i))) \<in> set (dmCancels s) \<and> i < n \<and> n \<le> j))"
    using dmt.hist_okD(6)[OF h] by (simp add: removed_between_def)
  have run: "if (length (dmRouted s), demuxOn rpc) \<in> set (dmCancels s) then run_send r rpc (dm s) = Panic
      else \<exists>t. (dm_step demuxOn)\<^sup>*\<^sup>* s t \<and> runPc t = RunRead \<and>
             dmGot t = dmGot s @ map (Pair r) (buf (dcR (dmObjs (dm s) ! r)) @ [rpc])" if pc: "runPc s = RunSend r rpc"
  proof -
    note l = dm_invD(4)[OF inv pc]
    let ?n = "length (dmRouted s)"
    have i: "?n - 1 < ?n" "dmRouted s ! (?n - 1) = (r, rpc)" using l last_conv_nth[of "dmRouted s"] by simp_all
    have "listed (dm s) r \<longleftrightarrow> dmConns (dm s) (demuxOn rpc) = Some r"
      using dmt.hist_okD(5)[OF h, of "?n - 1"] i by (auto simp: listed_def)
    also have "\<dots> \<longleftrightarrow> \<not> removed_between (dmCancels s) (demuxOn rpc) (?n - 1) ?n"
      using dmt.hist_okD(4)[OF h, of "?n - 1"] i by simp
    also have "\<dots> \<longleftrightarrow> (?n, demuxOn rpc) \<notin> set (dmCancels s)"
    proof -
      have "?n - 1 < m \<and> m \<le> ?n \<longleftrightarrow> m = ?n" for m using i(1) by linarith
      then show ?thesis by (auto simp: removed_between_def)
    qed
    finally have "closed (dcR (dmObjs (dm s) ! r)) \<longleftrightarrow> (?n, demuxOn rpc) \<in> set (dmCancels s)"
      using dm_invD(2)[OF inv assms(2)] by (simp add: conn_inv_def)
    then show ?thesis
      using run_delivers[OF pc assms(2), of demuxOn] by (simp add: run_send_def go_bind_Panic_iff chan_simps)
  qed
  have "of_conn r (dmRouted s) = of_conn r (dmGot s) @ buf (dcR (dmObjs (dm s) ! r)) @ pending (runPc s) r"
    using dm_invD(2)[OF inv assms(2)] by (simp add: conn_inv_def)
  with pairs run Demux_Cancel_returns[OF inv] show ?thesis by blast
qed

text \<open>\<open>Cancel\<close> between \<open>Run\<close>'s lookup and its send, which is made without the lock, makes \<open>Run\<close> panic (a send on a closed
  channel), and any later write of the connection's user panics as well.\<close>

lemma demux_cancel_race:
  "\<exists>s r. reach dm_init (dm_step demuxOn) s \<and> runPc s = RunSend r rpc \<and> run_send r rpc (dm s) = Panic \<and>
     goc_write pick Background rpc' (conn_rw (dmObjs (dm s) ! r)) = Panic"
proof -
  let ?k = "demuxOn rpc"
  define s0 where "s0 = \<lparr>dm = NewDemux Background, runPc = RunRead, dmRouted = [], dmCancels = [], dmGot = []\<rparr>"
  obtain d1 where lk: "run_lookup ?k (dm s0) = (0, True, d1)"
    and d1: "dmConns d1 ?k = Some 0" "dmObjs d1 = [\<lparr>dcR = make_chan 0, dcW = make_chan 0, dcWriting = True\<rparr>]"
    by (auto simp: s0_def NewDemux_def run_lookup_def newConnLocked_def)
  define s1 where "s1 = s0\<lparr>dm := d1, runPc := RunSend 0 rpc, dmRouted := dmRouted s0 @ [(0, rpc)]\<rparr>"
  have "reach dm_init (dm_step demuxOn) s0" by (rule reach_init) (auto simp: dm_init_def s0_def)
  moreover have "dm_step demuxOn s0 s1"
    unfolding s1_def by (rule dm_step.run_read[where demuxOn = demuxOn, OF _ lk]) (simp add: s0_def)
  ultimately have r1: "reach dm_init (dm_step demuxOn) s1" by (rule reach_step)
  obtain d2 where c: "Demux_Cancel ?k (dm s1) = Ret d2"
    and d2: "closed (dcR (dmObjs d2 ! 0))" "closed (dcW (dmObjs d2 ! 0))"
    using d1 by (auto simp: s1_def Demux_Cancel_def chan_close_def)
  let ?s2 = "s1\<lparr>dm := d2, dmCancels := dmCancels s1 @ [(length (dmRouted s1), ?k)]\<rparr>"
  have "dm_step demuxOn s1 ?s2" by (rule dm_step.cancel[OF c])
  with r1 have "reach dm_init (dm_step demuxOn) ?s2" by (rule reach_step)
  moreover have "run_send 0 rpc d2 = Panic" using d2 by (simp add: run_send_def chan_send_def)
  moreover have "goc_write pick Background rpc' (conn_rw (dmObjs d2 ! 0)) = Panic"
    using d2 by (simp add: goc_write_def conn_rw_def NewGoatOverChannel_def chan_send_def Background_def on_done_def)
  ultimately show ?thesis by (intro exI[of _ ?s2] exI[of _ 0]) (simp add: s1_def)
qed

definition demo_dm_rpc :: "u64 \<Rightarrow> Rpc" where
  "demo_dm_rpc i = \<lparr>rpcId = i, rpcHeader = None, rpcStatus = None, rpcBody = None, rpcTrailer = None, rpcReset = None\<rparr>"

definition demo_dm :: dm_sys where
  "demo_dm =
     \<lparr>dm = snd (snd (run_lookup ''a'' (NewDemux Background))), runPc = RunSend 0 (demo_dm_rpc 1), dmRouted = [(0, demo_dm_rpc 1)], dmCancels = [], dmGot = []\<rparr>"

lemma reach_demo_dm: "reach dm_init (dm_step (\<lambda>_. ''a'')) demo_dm"
proof -
  define s0 where "s0 = \<lparr>dm = NewDemux Background, runPc = RunRead, dmRouted = [], dmCancels = [], dmGot = []\<rparr>"
  have "reach dm_init (dm_step (\<lambda>_. ''a'')) s0" by (rule reach_init) (auto simp: dm_init_def s0_def)
  moreover have "dm_step (\<lambda>_. ''a'') s0 (s0\<lparr>dm := snd (snd (run_lookup ''a'' (NewDemux Background))),
      runPc := RunSend 0 (demo_dm_rpc 1), dmRouted := dmRouted s0 @ [(0, demo_dm_rpc 1)]\<rparr>)"
    by (rule dm_step.run_read[where new = True]) (simp_all add: s0_def run_lookup_def newConnLocked_def NewDemux_def)
  ultimately have "reach dm_init (dm_step (\<lambda>_. ''a'')) (s0\<lparr>dm := snd (snd (run_lookup ''a'' (NewDemux Background))),
      runPc := RunSend 0 (demo_dm_rpc 1), dmRouted := dmRouted s0 @ [(0, demo_dm_rpc 1)]\<rparr>)" by (rule reach_step)
  then show ?thesis by (simp add: s0_def demo_dm_def)
qed

theorem demux_delivery_witness:
  "\<exists>t. (dm_step (\<lambda>_. ''a''))\<^sup>*\<^sup>* demo_dm t \<and> dmGot t = [(0, demo_dm_rpc 1)]"
proof -
  have "0 < length (dmObjs (dm demo_dm))" "runPc demo_dm = RunSend 0 (demo_dm_rpc 1)" "dmCancels demo_dm = []" "dmGot demo_dm = []"
    "buf (dcR (dmObjs (dm demo_dm) ! 0)) = []"
    by (simp_all add: demo_dm_def run_lookup_def newConnLocked_def NewDemux_def)
  with demux_delivery[OF reach_demo_dm, of 0 "demo_dm_rpc 1" "''a''"] show ?thesis by auto
qed

end
