(* ===== verification/Goat_Mux.thy ===== *)
theory Goat_Mux
  imports Goat_Transport
begin

text \<open>
  The client's multiplexer, \<^verbatim>\<open>internal/client/multiplexer.go\<close>. First the operations on the
  multiplexer's state; then the goroutines that share it (the read loop, unary calls and streams)
  as a step relation, with the mutex: a critical section is one step, except \<open>handleResponse\<close>, which
  holds the mutex while it waits for room in a response channel. Channels are references into the
  list of channels made so far, so that the map of handlers and a caller can share one.
\<close>

section \<open>State and operations\<close>

record RpcMultiplexer =
  handlers :: "u64 \<rightharpoonup> nat"
  chans :: "Rpc chan list"
  cancelled :: bool
  streamCounter :: u64
  rErr :: "gerr option"

definition NewRpcMultiplexer :: RpcMultiplexer where
  "NewRpcMultiplexer =
     \<lparr>handlers = Map.empty, chans = [], cancelled = False, streamCounter = 0, rErr = None\<rparr>"

definition registerHandler :: "u64 \<Rightarrow> nat \<Rightarrow> RpcMultiplexer \<Rightarrow> RpcMultiplexer" where
  "registerHandler sid c m = m\<lparr>handlers := (handlers m)(sid \<mapsto> c)\<rparr>"

definition unregisterHandler :: "u64 \<Rightarrow> RpcMultiplexer \<Rightarrow> RpcMultiplexer go" where
  "unregisterHandler sid m =
     go_bind
       (case handlers m sid of
          Some c \<Rightarrow> go_bind (chan_close (chans m ! c)) (\<lambda>ch. Ret (m\<lparr>chans := (chans m)[c := ch]\<rparr>))
        | None \<Rightarrow> Ret m)
       (\<lambda>m'. Ret (m'\<lparr>handlers := (handlers m')(sid := None)\<rparr>))"

definition readErrorIfDone :: "RpcMultiplexer \<Rightarrow> gerr option" where
  "readErrorIfDone m = rErr m"

text \<open>The loop of \<open>closeError\<close>; \<open>ids\<close> is the order in which \<^verbatim>\<open>range\<close> visits the handlers.\<close>

fun close_handlers :: "u64 list \<Rightarrow> RpcMultiplexer \<Rightarrow> RpcMultiplexer go" where
  "close_handlers [] m = Ret m"
| "close_handlers (sid # ids) m = go_bind (unregisterHandler sid m) (close_handlers ids)"

definition closeError :: "u64 list \<Rightarrow> gerr option \<Rightarrow> RpcMultiplexer \<Rightarrow> RpcMultiplexer go" where
  "closeError ids err m =
     (let m1 = m\<lparr>cancelled := True\<rparr>
      in case err of
           None \<Rightarrow> Ret m1
         | Some e \<Rightarrow> close_handlers ids (m1\<lparr>rErr := Some e\<rparr>))"

definition handleResponse :: "Rpc \<Rightarrow> RpcMultiplexer \<Rightarrow> RpcMultiplexer go" where
  "handleResponse rpc m =
     (case handlers m (rpcId rpc) of
        None \<Rightarrow> Ret m
      | Some c \<Rightarrow>
          go_bind (chan_send (chans m ! c) rpc) (\<lambda>ch. Ret (m\<lparr>chans := (chans m)[c := ch]\<rparr>)))"

text \<open>\<^verbatim>\<open>atomic.AddUint64(&rm.streamCounter, 1)\<close> and the caller's \<^verbatim>\<open>make(chan *Rpc, 1)\<close>.\<close>

definition newStreamId :: "RpcMultiplexer \<Rightarrow> u64 \<times> nat \<times> RpcMultiplexer" where
  "newStreamId m =
     (let sid = streamCounter m + 1
      in (sid, length (chans m), m\<lparr>streamCounter := sid, chans := chans m @ [make_chan 1]\<rparr>))"

text \<open>
  What \<open>CallUnaryMethod\<close> makes of a response: \<open>n\<close> stats handlers read the response's headers, which
  needs a header; then a status gives an error (nil for code OK), then a body is the result.
\<close>

definition unary_reply ::
  "env \<Rightarrow> nat \<Rightarrow> RequestHeader \<Rightarrow> Rpc \<Rightarrow> ((Body option \<times> gerr option) \<times> trace) go" where
  "unary_reply env n header resp =
     (if 0 < n \<and> rpcHeader resp = None then Panic
      else
        let headers = (case ToMetadata env (GetHeaders (rpcHeader resp)) of
                         Inl e \<Rightarrow> Map.empty | Inr m \<Rightarrow> m);
            tr = stats_all n [EvInHeader True (hMethod header) headers]
        in (case rpcStatus resp of
              Some st \<Rightarrow>
                Ret ((None, stErr env \<lparr>stCode = rsCode st, stMessage = rsMessage st,
                                        stDetails = rsDetails st\<rparr>), tr)
            | None \<Rightarrow>
                (case rpcBody resp of
                   Some b \<Rightarrow> Ret ((Some b, None), tr)
                 | None \<Rightarrow> Ret ((None, Some (Errorf ''malformed response: no body or status'')), tr))))"

text \<open>The read side of a stream made by \<open>NewStreamReadWriter\<close>: a \<^verbatim>\<open>select\<close> on the response channel
  and the context; a closed channel reports the read error when there is one.\<close>

definition stream_read ::
  "bool \<Rightarrow> Context \<Rightarrow> nat \<Rightarrow> RpcMultiplexer \<Rightarrow> ((gerr + Rpc) \<times> RpcMultiplexer) go" where
  "stream_read pick ctx c m =
     select2 pick
       (go_bind (chan_recv (chans m ! c)) (\<lambda>(v, ch).
          let m' = m\<lparr>chans := (chans m)[c := ch]\<rparr>
          in case v of
               None \<Rightarrow> (case readErrorIfDone m' of
                          Some e \<Rightarrow> Ret (Inl e, m')
                        | None \<Rightarrow> Ret (Inl (Errorf ''respChan closed''), m'))
             | Some rpc \<Rightarrow> Ret (Inr rpc, m')))
       (on_done ctx (\<lambda>e. (Inl e, m)))"

text \<open>Its write side: an error of the transport is replaced by the read error when there is one.\<close>

definition stream_write ::
  "(Context \<Rightarrow> Rpc \<Rightarrow> 't \<Rightarrow> (gerr option \<times> 't) go) \<Rightarrow> Context \<Rightarrow> Rpc \<Rightarrow> RpcMultiplexer \<Rightarrow> 't \<Rightarrow>
   (gerr option \<times> 't) go" where
  "stream_write wr ctx rpc m t =
     go_bind (wr ctx rpc t) (\<lambda>(err, t').
       case err of
         None \<Rightarrow> Ret (None, t')
       | Some e \<Rightarrow> (case readErrorIfDone m of Some re \<Rightarrow> Ret (Some re, t')
                                            | None \<Rightarrow> Ret (Some e, t')))"

section \<open>The goroutines\<close>

text \<open>
  A caller of \<open>CallUnaryMethod\<close> or owner of a stream, with its program counter: before
  \<open>readErrorIfDone\<close>, before the id is taken, before \<open>registerHandler\<close>, before the transport write,
  waiting on the response channel, before \<open>unregisterHandler\<close>, and returned. A stream whose opening message could not
  be written has returned as well, but \<^verbatim>\<open>newStream\<close> does not unregister it (\<open>PLeaked\<close>). \<open>cGot\<close> is what it has
  received; \<open>cRes\<close> what a call returned, none when it panicked.
\<close>

datatype call_pc = PStart | PAlloc | PRegister | PWrite | PWait | PUnregister | PDone | PLeaked

record call =
  cUnary :: bool
  cPc :: call_pc
  cId :: u64
  cRef :: "nat option"
  cGot :: "Rpc list"
  cRes :: "(Body option \<times> gerr option) option"

definition new_call :: "bool \<Rightarrow> call" where
  "new_call u = \<lparr>cUnary = u, cPc = PStart, cId = 0, cRef = None, cGot = [], cRes = None\<rparr>"

text \<open>The read loop: in \<open>Read\<close>; with a message, before the mutex; inside \<open>handleResponse\<close>, holding
  the mutex; before \<open>closeError\<close>; returned.\<close>

datatype reader_pc = RRead | RGot Rpc | RDeliver Rpc | RClosing gerr | RExit

text \<open>The whole client; \<open>log\<close> is the history of responses handed to a handler.\<close>

record mux_sys =
  rm :: RpcMultiplexer
  calls :: "call list"
  reader :: reader_pc
  log :: "Rpc list"

definition mux_init :: "mux_sys \<Rightarrow> bool" where
  "mux_init s \<longleftrightarrow> s = \<lparr>rm = NewRpcMultiplexer, calls = [], reader = RRead, log = []\<rparr>"

definition mutex_free :: "mux_sys \<Rightarrow> bool" where
  "mutex_free s \<longleftrightarrow> (case reader s of RDeliver rpc \<Rightarrow> False | _ \<Rightarrow> True)"

definition at_pc :: "mux_sys \<Rightarrow> nat \<Rightarrow> call_pc \<Rightarrow> bool" where
  "at_pc s i p \<longleftrightarrow> i < length (calls s) \<and> cPc (calls s ! i) = p"

definition upd_call :: "nat \<Rightarrow> (call \<Rightarrow> call) \<Rightarrow> mux_sys \<Rightarrow> mux_sys" where
  "upd_call i f s = s\<lparr>calls := (calls s)[i := f (calls s ! i)]\<rparr>"

lemma upd_call_sel [simp]:
  "rm (upd_call i f s) = rm s" "log (upd_call i f s) = log s" "reader (upd_call i f s) = reader s"
  "length (calls (upd_call i f s)) = length (calls s)"
  by (simp_all add: upd_call_def)

text \<open>
  A deferred \<open>unregisterHandler\<close> runs when a unary call panics, too (\<open>recv_panic\<close>). A stream's handler is unregistered by its
  read loop (\<open>unregister\<close>) and, when the marshalling or the write of a message fails, by \<^verbatim>\<open>SendMsg\<close> (\<open>send_teardown\<close>), from
  another goroutine and whatever the read loop is doing.
\<close>

inductive mux_step :: "env \<Rightarrow> nat \<Rightarrow> RequestHeader \<Rightarrow> mux_sys \<Rightarrow> mux_sys \<Rightarrow> bool"
  for env n header where
  spawn: "mux_step env n header s (s\<lparr>calls := calls s @ [new_call u]\<rparr>)"
| check_err: "at_pc s i PStart \<Longrightarrow> mutex_free s \<Longrightarrow> readErrorIfDone (rm s) = Some e \<Longrightarrow>
    mux_step env n header s (upd_call i (\<lambda>k. k\<lparr>cPc := PDone, cRes := Some (None, Some e)\<rparr>) s)"
| check_ok: "at_pc s i PStart \<Longrightarrow> mutex_free s \<Longrightarrow> readErrorIfDone (rm s) = None \<Longrightarrow>
    mux_step env n header s (upd_call i (\<lambda>k. k\<lparr>cPc := PAlloc\<rparr>) s)"
| alloc: "at_pc s i PAlloc \<Longrightarrow> newStreamId (rm s) = (sid, c, m) \<Longrightarrow>
    mux_step env n header s
      (upd_call i (\<lambda>k. k\<lparr>cPc := PRegister, cId := sid, cRef := Some c\<rparr>) (s\<lparr>rm := m\<rparr>))"
| register: "at_pc s i PRegister \<Longrightarrow> mutex_free s \<Longrightarrow> cRef (calls s ! i) = Some c \<Longrightarrow>
    mux_step env n header s
      (upd_call i (\<lambda>k. k\<lparr>cPc := PWrite\<rparr>)
        (s\<lparr>rm := registerHandler (cId (calls s ! i)) c (rm s)\<rparr>))"
| write_ok: "at_pc s i PWrite \<Longrightarrow>
    mux_step env n header s (upd_call i (\<lambda>k. k\<lparr>cPc := PWait\<rparr>) s)"
| write_err: "at_pc s i PWrite \<Longrightarrow> cUnary (calls s ! i) \<Longrightarrow>
    mux_step env n header s
      (upd_call i (\<lambda>k. k\<lparr>cPc := PUnregister, cRes := Some (None, Some e)\<rparr>) s)"
| open_err: "at_pc s i PWrite \<Longrightarrow> \<not> cUnary (calls s ! i) \<Longrightarrow>
    mux_step env n header s
      (upd_call i (\<lambda>k. k\<lparr>cPc := PLeaked, cRes := Some (None, Some e)\<rparr>) s)"
| recv_unary: "at_pc s i PWait \<Longrightarrow> cUnary (calls s ! i) \<Longrightarrow> cRef (calls s ! i) = Some c \<Longrightarrow>
    chan_recv (chans (rm s) ! c) = Ret (Some rpc, ch) \<Longrightarrow>
    unary_reply env n header rpc = Ret (r, tr) \<Longrightarrow>
    mux_step env n header s
      (upd_call i (\<lambda>k. k\<lparr>cPc := PUnregister, cGot := cGot k @ [rpc], cRes := Some r\<rparr>)
        (s\<lparr>rm := (rm s)\<lparr>chans := (chans (rm s))[c := ch]\<rparr>\<rparr>))"
| recv_panic: "at_pc s i PWait \<Longrightarrow> cUnary (calls s ! i) \<Longrightarrow> cRef (calls s ! i) = Some c \<Longrightarrow>
    chan_recv (chans (rm s) ! c) = Ret (Some rpc, ch) \<Longrightarrow>
    unary_reply env n header rpc = Panic \<Longrightarrow>
    mux_step env n header s
      (upd_call i (\<lambda>k. k\<lparr>cPc := PUnregister, cGot := cGot k @ [rpc], cRes := None\<rparr>)
        (s\<lparr>rm := (rm s)\<lparr>chans := (chans (rm s))[c := ch]\<rparr>\<rparr>))"
| recv_stream: "at_pc s i PWait \<Longrightarrow> \<not> cUnary (calls s ! i) \<Longrightarrow> cRef (calls s ! i) = Some c \<Longrightarrow>
    chan_recv (chans (rm s) ! c) = Ret (Some rpc, ch) \<Longrightarrow>
    mux_step env n header s
      (upd_call i (\<lambda>k. k\<lparr>cGot := cGot k @ [rpc]\<rparr>)
        (s\<lparr>rm := (rm s)\<lparr>chans := (chans (rm s))[c := ch]\<rparr>\<rparr>))"
| recv_closed: "at_pc s i PWait \<Longrightarrow> cUnary (calls s ! i) \<Longrightarrow> cRef (calls s ! i) = Some c \<Longrightarrow>
    chan_recv (chans (rm s) ! c) = Ret (None, ch) \<Longrightarrow>
    mux_step env n header s
      (upd_call i (\<lambda>k. k\<lparr>cPc := PUnregister, cRes := Some (None, Some (Errorf ''respChan closed''))\<rparr>) s)"
| recv_closed_stream: "at_pc s i PWait \<Longrightarrow> \<not> cUnary (calls s ! i) \<Longrightarrow> mutex_free s \<Longrightarrow>
    cRef (calls s ! i) = Some c \<Longrightarrow> stream_read True Background c (rm s) = Ret (Inl e, m) \<Longrightarrow>
    mux_step env n header s
      (upd_call i (\<lambda>k. k\<lparr>cPc := PUnregister, cRes := Some (None, Some e)\<rparr>) s)"
| give_up: "at_pc s i PWait \<Longrightarrow>
    mux_step env n header s
      (upd_call i (\<lambda>k. k\<lparr>cPc := PUnregister, cRes := Some (None, Some e)\<rparr>) s)"
| unregister: "at_pc s i PUnregister \<Longrightarrow> mutex_free s \<Longrightarrow>
    unregisterHandler (cId (calls s ! i)) (rm s) = Ret m \<Longrightarrow>
    mux_step env n header s (upd_call i (\<lambda>k. k\<lparr>cPc := PDone\<rparr>) (s\<lparr>rm := m\<rparr>))"
| send_teardown: "i < length (calls s) \<Longrightarrow> cPc (calls s ! i) \<in> {PWait, PUnregister, PDone} \<Longrightarrow> \<not> cUnary (calls s ! i) \<Longrightarrow>
    cRef (calls s ! i) = Some c \<Longrightarrow> mutex_free s \<Longrightarrow> unregisterHandler (cId (calls s ! i)) (rm s) = Ret m \<Longrightarrow>
    mux_step env n header s (s\<lparr>rm := m\<rparr>)"
| read: "reader s = RRead \<Longrightarrow> mux_step env n header s (s\<lparr>reader := RGot rpc\<rparr>)"
| lock: "reader s = RGot rpc \<Longrightarrow> mux_step env n header s (s\<lparr>reader := RDeliver rpc\<rparr>)"
| deliver: "reader s = RDeliver rpc \<Longrightarrow> handlers (rm s) (rpcId rpc) \<noteq> None \<Longrightarrow>
    handleResponse rpc (rm s) = Ret m \<Longrightarrow>
    mux_step env n header s (s\<lparr>rm := m, reader := RRead, log := log s @ [rpc]\<rparr>)"
| drop: "reader s = RDeliver rpc \<Longrightarrow> handlers (rm s) (rpcId rpc) = None \<Longrightarrow>
    handleResponse rpc (rm s) = Ret m \<Longrightarrow>
    mux_step env n header s (s\<lparr>rm := m, reader := RRead\<rparr>)"
| read_err: "reader s = RRead \<Longrightarrow> mux_step env n header s (s\<lparr>reader := RClosing e\<rparr>)"
| close_err: "reader s = RClosing e \<Longrightarrow> distinct ids \<Longrightarrow> set ids = dom (handlers (rm s)) \<Longrightarrow>
    closeError ids (Some e) (rm s) = Ret m \<Longrightarrow>
    mux_step env n header s (s\<lparr>rm := m, reader := RExit\<rparr>)"
| close_nil: "mutex_free s \<Longrightarrow> closeError ids None (rm s) = Ret m \<Longrightarrow>
    mux_step env n header s (s\<lparr>rm := m\<rparr>)"

inductive_cases mux_stepE: "mux_step env n header s t"

section \<open>The invariant\<close>

text \<open>The channel with reference \<open>c\<close> belongs to the call that took the id \<open>c + 1\<close>. Ids are taken
  modulo \<open>2 ^ 64\<close>, so they are distinct as long as fewer than \<open>2 ^ 64\<close> have been taken.\<close>

definition ident :: "nat \<Rightarrow> u64" where
  "ident c = of_nat (Suc c)"

definition ids_left :: "RpcMultiplexer \<Rightarrow> bool" where
  "ids_left m \<longleftrightarrow> length (chans m) < 2 ^ 64"

definition resp_chan_ok :: "Rpc chan \<Rightarrow> bool" where
  "resp_chan_ok ch \<longleftrightarrow> cap ch = 1 \<and> waiting ch = 0 \<and> length (buf ch) \<le> 1"

definition mux_ok :: "RpcMultiplexer \<Rightarrow> Rpc list \<Rightarrow> bool" where
  "mux_ok m lg \<longleftrightarrow>
     streamCounter m = of_nat (length (chans m)) \<and>
     (\<forall>ch \<in> set (chans m). resp_chan_ok ch) \<and>
     (\<forall>sid c. handlers m sid = Some c \<longrightarrow>
        c < length (chans m) \<and> sid = ident c \<and> \<not> closed (chans m ! c)) \<and>
     (\<forall>r \<in> set lg. \<exists>c < length (chans m). rpcId r = ident c)"

text \<open>A call owns its channel: what was handed to its handler is what it has received and what its
  channel still holds, in order. Its handler is gone once it has returned.\<close>

definition call_ok :: "RpcMultiplexer \<Rightarrow> Rpc list \<Rightarrow> call \<Rightarrow> bool" where
  "call_ok m lg k \<longleftrightarrow>
     (case cRef k of
        None \<Rightarrow> cPc k \<in> {PStart, PAlloc, PDone} \<and> cGot k = []
      | Some c \<Rightarrow>
          cPc k \<notin> {PStart, PAlloc} \<and> c < length (chans m) \<and> cId k = ident c \<and>
          filter (\<lambda>r. rpcId r = ident c) lg = cGot k @ buf (chans m ! c) \<and>
          (cPc k \<in> {PRegister, PDone} \<longrightarrow> handlers m (ident c) = None) \<and>
          (cPc k = PRegister \<longrightarrow> \<not> closed (chans m ! c)))"

definition owners_ok :: "RpcMultiplexer \<Rightarrow> nat option list \<Rightarrow> bool" where
  "owners_ok m rs \<longleftrightarrow>
     (\<forall>i < length rs. \<forall>j < length rs. i \<noteq> j \<longrightarrow> rs ! i \<noteq> None \<longrightarrow> rs ! i \<noteq> rs ! j) \<and>
     (\<forall>c < length (chans m). Some c \<in> set rs)"

definition mux_core :: "mux_sys \<Rightarrow> bool" where
  "mux_core s \<longleftrightarrow>
     mux_ok (rm s) (log s) \<and> (\<forall>k \<in> set (calls s). call_ok (rm s) (log s) k) \<and>
     owners_ok (rm s) (map cRef (calls s))"

definition mux_inv :: "mux_sys \<Rightarrow> bool" where
  "mux_inv s \<longleftrightarrow> (ids_left (rm s) \<longrightarrow> mux_core s)"

lemma ident_inj:
  assumes "c < n" "d < n" "n < 2 ^ 64"
  shows "ident c = ident d \<longleftrightarrow> c = d"
proof
  assume "ident c = ident d"
  then have "unat (ident c) = unat (ident d)" by simp
  moreover have "unat (ident c) = Suc c" "unat (ident d) = Suc d"
    using assms unfolding ident_def by (auto simp: unat_of_nat simp del: of_nat_Suc)
  ultimately show "c = d" by simp
qed simp

lemma handlers_okD:
  "mux_ok m lg \<Longrightarrow> handlers m sid = Some c \<Longrightarrow>
     c < length (chans m) \<and> sid = ident c \<and> \<not> closed (chans m ! c)"
  by (simp add: mux_ok_def)

lemma mux_okI:
  assumes "streamCounter m = of_nat (length (chans m))"
    and "\<And>c. c < length (chans m) \<Longrightarrow> resp_chan_ok (chans m ! c)"
    and "\<And>sid c. handlers m sid = Some c \<Longrightarrow>
      c < length (chans m) \<and> sid = ident c \<and> \<not> closed (chans m ! c)"
    and "\<And>r. r \<in> set lg \<Longrightarrow> \<exists>c < length (chans m). rpcId r = ident c"
  shows "mux_ok m lg"
  using assms by (auto simp: mux_ok_def in_set_conv_nth)

lemma mux_okD:
  assumes "mux_ok m lg"
  shows "streamCounter m = of_nat (length (chans m))"
    and "c < length (chans m) \<Longrightarrow> resp_chan_ok (chans m ! c)"
    and "r \<in> set lg \<Longrightarrow> \<exists>c < length (chans m). rpcId r = ident c"
  using assms by (auto simp: mux_ok_def)

subsection \<open>The operations keep it\<close>

lemma unregisterHandler_Ret_iff:
  "unregisterHandler sid m = Ret m' \<longleftrightarrow>
     (case handlers m sid of
        None \<Rightarrow> m' = m\<lparr>handlers := (handlers m)(sid := None)\<rparr>
      | Some c \<Rightarrow> \<not> closed (chans m ! c) \<and>
          m' = m\<lparr>chans := (chans m)[c := (chans m ! c)\<lparr>closed := True\<rparr>],
                 handlers := (handlers m)(sid := None)\<rparr>)"
  by (auto simp: unregisterHandler_def go_bind_Ret_iff chan_simps split: option.split)

lemma unregisterHandler_no_panic:
  assumes "mux_ok m lg"
  shows "\<exists>m'. unregisterHandler sid m = Ret m'"
proof (cases "handlers m sid")
  case (Some c)
  with handlers_okD[OF assms Some] show ?thesis by (simp add: unregisterHandler_Ret_iff)
qed (simp add: unregisterHandler_Ret_iff)

lemma unregisterHandler_frame:
  "unregisterHandler sid m = Ret m' \<Longrightarrow>
     length (chans m') = length (chans m) \<and> handlers m' = (handlers m)(sid := None)"
  by (auto simp: unregisterHandler_Ret_iff split: option.splits)

lemma resp_chan_ok_close: "resp_chan_ok ch \<Longrightarrow> resp_chan_ok (ch\<lparr>closed := True\<rparr>)"
  by (simp add: resp_chan_ok_def)

lemma unregisterHandler_mux_ok:
  assumes ok: "mux_ok m lg" and ret: "unregisterHandler sid m = Ret m'"
  shows "mux_ok m' lg"
proof (cases "handlers m sid")
  case None
  with ret have "m' = m\<lparr>handlers := (handlers m)(sid := None)\<rparr>"
    by (simp add: unregisterHandler_Ret_iff)
  with ok show ?thesis by (auto simp: mux_ok_def)
next
  case (Some c)
  with ret have m': "m' = m\<lparr>chans := (chans m)[c := (chans m ! c)\<lparr>closed := True\<rparr>],
      handlers := (handlers m)(sid := None)\<rparr>"
    by (simp add: unregisterHandler_Ret_iff)
  show ?thesis
  proof (rule mux_okI)
    show "streamCounter m' = of_nat (length (chans m'))"
      using mux_okD(1)[OF ok] by (simp add: m')
  next
    fix d assume "d < length (chans m')"
    then show "resp_chan_ok (chans m' ! d)"
      using mux_okD(2)[OF ok] handlers_okD[OF ok Some]
      by (simp add: m' nth_list_update resp_chan_ok_close)
  next
    fix sid' d assume "handlers m' sid' = Some d"
    then have h: "handlers m sid' = Some d" "sid' \<noteq> sid"
      by (auto simp: m' split: if_splits)
    with Some handlers_okD[OF ok] have "d \<noteq> c" by blast
    with handlers_okD[OF ok h(1)]
    show "d < length (chans m') \<and> sid' = ident d \<and> \<not> closed (chans m' ! d)"
      by (simp add: m')
  next
    fix r assume "r \<in> set lg"
    then show "\<exists>c < length (chans m'). rpcId r = ident c"
      using mux_okD(3)[OF ok] by (simp add: m')
  qed
qed

lemma unregisterHandler_call_ok:
  assumes ok: "mux_ok m lg" and ret: "unregisterHandler sid m = Ret m'" and k: "call_ok m lg k"
  shows "call_ok m' lg k"
proof (cases "handlers m sid")
  case None
  with ret have "m' = m\<lparr>handlers := (handlers m)(sid := None)\<rparr>"
    by (simp add: unregisterHandler_Ret_iff)
  with k show ?thesis by (auto simp: call_ok_def split: option.splits)
next
  case (Some c)
  with ret have m': "m' = m\<lparr>chans := (chans m)[c := (chans m ! c)\<lparr>closed := True\<rparr>],
      handlers := (handlers m)(sid := None)\<rparr>"
    by (simp add: unregisterHandler_Ret_iff)
  from handlers_okD[OF ok Some] have "c < length (chans m)" "sid = ident c" by auto
  with k Some show ?thesis
    by (auto simp: call_ok_def m' nth_list_update split: option.splits)
qed

lemma close_handlers_keeps:
  assumes "mux_ok m lg"
  shows "\<exists>m'. close_handlers ids m = Ret m' \<and> mux_ok m' lg \<and>
           (\<forall>k. call_ok m lg k \<longrightarrow> call_ok m' lg k) \<and> length (chans m') = length (chans m) \<and>
           (\<forall>sid. handlers m' sid = (if sid \<in> set ids then None else handlers m sid))"
  using assms
proof (induction ids arbitrary: m)
  case (Cons sid ids)
  obtain m1 where m1: "unregisterHandler sid m = Ret m1"
    using unregisterHandler_no_panic[OF Cons.prems] by blast
  from Cons.IH[OF unregisterHandler_mux_ok[OF Cons.prems m1]] m1
    unregisterHandler_frame[OF m1] unregisterHandler_call_ok[OF Cons.prems m1]
  show ?case by fastforce
qed simp

lemma mux_ok_flags [simp]:
  "mux_ok (m\<lparr>cancelled := b\<rparr>) lg = mux_ok m lg" "mux_ok (m\<lparr>rErr := e\<rparr>) lg = mux_ok m lg"
  by (simp_all add: mux_ok_def)

lemma call_ok_flags [simp]:
  "call_ok (m\<lparr>cancelled := b\<rparr>) lg k = call_ok m lg k"
  "call_ok (m\<lparr>rErr := e\<rparr>) lg k = call_ok m lg k"
  by (cases "cRef k"; simp add: call_ok_def)+

text \<open>\<open>closeError\<close> never panics; with an error it leaves no handler.\<close>

lemma closeError_keeps:
  assumes "mux_ok m lg"
  shows "\<exists>m'. closeError ids err m = Ret m' \<and> mux_ok m' lg \<and>
           (\<forall>k. call_ok m lg k \<longrightarrow> call_ok m' lg k) \<and> length (chans m') = length (chans m) \<and>
           (\<forall>sid. handlers m' sid = (if err \<noteq> None \<and> sid \<in> set ids then None else handlers m sid))"
proof (cases err)
  case (Some e)
  from close_handlers_keeps[of "m\<lparr>cancelled := True, rErr := Some e\<rparr>" lg ids] assms Some
  show ?thesis by (auto simp: closeError_def Let_def)
qed (use assms in \<open>simp add: closeError_def\<close>)

subsection \<open>Every step keeps it\<close>

lemma mux_core_upd:
  assumes "mux_core s" "i < length (calls s)"
    and "call_ok (rm s) (log s) (f (calls s ! i))" "cRef (f (calls s ! i)) = cRef (calls s ! i)"
  shows "mux_core (upd_call i f s)"
proof -
  have "map cRef ((calls s)[i := f (calls s ! i)]) = map cRef (calls s)"
    using assms(2,4) by (metis list_update_id map_update nth_map)
  with assms set_update_subset_insert[of "calls s" i "f (calls s ! i)"]
  show ?thesis by (auto simp: mux_core_def upd_call_def)
qed

text \<open>Steps that change the multiplexer by dropping handlers.\<close>

lemma mux_core_drop:
  assumes "mux_core s" "mux_ok m (log s)" "\<forall>k. call_ok (rm s) (log s) k \<longrightarrow> call_ok m (log s) k"
    and "length (chans m) = length (chans (rm s))"
  shows "mux_core (s\<lparr>rm := m\<rparr>)"
  using assms by (simp add: mux_core_def owners_ok_def)

lemma mux_core_reader [simp]: "mux_core (s\<lparr>reader := r\<rparr>) = mux_core s"
  by (simp add: mux_core_def)

lemma mux_core_callD:
  "mux_core s \<Longrightarrow> i < length (calls s) \<Longrightarrow> call_ok (rm s) (log s) (calls s ! i)"
  by (simp add: mux_core_def)

lemma mux_core_owner:
  assumes "mux_core s" "c < length (chans (rm s))"
  shows "\<exists>i < length (calls s). cRef (calls s ! i) = Some c"
proof -
  from assms have "Some c \<in> set (map cRef (calls s))" by (simp add: mux_core_def owners_ok_def)
  then show ?thesis unfolding in_set_conv_nth by auto
qed

lemma mux_core_unique:
  assumes "mux_core s" "i < length (calls s)" "j < length (calls s)"
    and "cRef (calls s ! i) = Some c" "cRef (calls s ! j) = Some c"
  shows "i = j"
proof (rule ccontr)
  assume "i \<noteq> j"
  moreover have "\<forall>i < length (calls s). \<forall>j < length (calls s).
      i \<noteq> j \<longrightarrow> cRef (calls s ! i) \<noteq> None \<longrightarrow> cRef (calls s ! i) \<noteq> cRef (calls s ! j)"
    using assms(1) by (simp add: mux_core_def owners_ok_def)
  ultimately show False using assms(2-5) by (metis option.distinct(1))
qed

text \<open>The shape of a step that changes the multiplexer and one call.\<close>

lemma mux_coreI:
  assumes "i < length (calls s)" "mux_ok m lg"
    and "\<And>j. j < length (calls s) \<Longrightarrow> j \<noteq> i \<Longrightarrow> call_ok m lg (calls s ! j)"
    and "call_ok m lg (f (calls s ! i))"
    and "owners_ok m (map cRef ((calls s)[i := f (calls s ! i)]))"
  shows "mux_core (upd_call i f (s\<lparr>rm := m, log := lg\<rparr>))"
proof -
  have "call_ok m lg ((calls s)[i := f (calls s ! i)] ! j)" if "j < length (calls s)" for j
    using assms that by (cases "j = i") auto
  then have "\<forall>k \<in> set ((calls s)[i := f (calls s ! i)]). call_ok m lg k"
    by (simp add: all_set_conv_all_nth)
  with assms show ?thesis by (simp add: mux_core_def upd_call_def)
qed

lemma owners_okI:
  assumes "mux_core s" "length (chans m) = length (chans (rm s))" "i < length (calls s)"
    and "cRef k = cRef (calls s ! i)"
  shows "owners_ok m (map cRef ((calls s)[i := k]))"
proof -
  have "map cRef ((calls s)[i := k]) = map cRef (calls s)"
    using assms(3,4) by (metis list_update_id map_update nth_map)
  with assms show ?thesis by (simp add: mux_core_def owners_ok_def)
qed

lemma ident_fresh:
  assumes ok: "mux_ok m lg" and "Suc (length (chans m)) < 2 ^ 64"
  shows "handlers m (ident (length (chans m))) = None"
    and "filter (\<lambda>r. rpcId r = ident (length (chans m))) lg = []"
proof -
  have new: "ident d \<noteq> ident (length (chans m))" if "d < length (chans m)" for d
    using that assms(2) ident_inj[of d "Suc (length (chans m))" "length (chans m)"] by simp
  then show "handlers m (ident (length (chans m))) = None"
    using handlers_okD[OF ok] by (metis not_None_eq)
  show "filter (\<lambda>r. rpcId r = ident (length (chans m))) lg = []"
    using mux_okD(3)[OF ok] new by (fastforce simp: filter_empty_conv)
qed

lemma mux_core_alloc:
  assumes core: "mux_core s" and at: "at_pc s i PAlloc"
    and new: "newStreamId (rm s) = (sid, c, m)" and left: "ids_left m"
  shows "mux_core (upd_call i (\<lambda>k. k\<lparr>cPc := PRegister, cId := sid, cRef := Some c\<rparr>) (s\<lparr>rm := m\<rparr>))"
    (is "mux_core (upd_call i ?f _)")
proof -
  let ?n = "length (chans (rm s))"
  have ok: "mux_ok (rm s) (log s)" using core by (simp add: mux_core_def)
  have m: "m = (rm s)\<lparr>streamCounter := ident ?n, chans := chans (rm s) @ [make_chan 1]\<rparr>"
    and c: "c = ?n" and sid: "sid = ident ?n"
    using new mux_okD(1)[OF ok] by (auto simp: newStreamId_def ident_def Let_def add.commute)
  from left have lt: "Suc ?n < 2 ^ 64" by (simp add: ids_left_def m)
  note fresh = ident_fresh[OF ok lt]
  have i: "i < length (calls s)" and none: "cRef (calls s ! i) = None"
    and got: "cGot (calls s ! i) = []"
    using at mux_core_callD[OF core, of i] by (auto simp: at_pc_def call_ok_def split: option.splits)
  have mok: "mux_ok m (log s)"
    using handlers_okD[OF ok] mux_okD[OF ok]
    by (intro mux_okI) (fastforce simp: m nth_append ident_def resp_chan_ok_def less_Suc_eq)+
  have old: "call_ok m (log s) k" if "call_ok (rm s) (log s) k" for k
    using that by (auto simp: call_ok_def m nth_append split: option.splits)
  have "call_ok m (log s) (?f (calls s ! i))"
    using fresh got by (simp add: call_ok_def c sid m nth_append)
  moreover have "owners_ok m (map cRef ((calls s)[i := ?f (calls s ! i)]))"
  proof -
    have no: "cRef (calls s ! j) \<noteq> Some ?n" if "j < length (calls s)" for j
      using mux_core_callD[OF core that] by (auto simp: call_ok_def)
    have "Some d \<in> set ((map cRef (calls s))[i := Some ?n])" if d: "d < Suc ?n" for d
    proof (cases "d = ?n")
      case True
      then show ?thesis using i by (simp add: set_update_memI)
    next
      case False
      with d obtain j where "j < length (calls s)" "cRef (calls s ! j) = Some d"
        using mux_core_owner[OF core, of d] by auto
      with none i show ?thesis
        by (auto simp: in_set_conv_nth nth_list_update intro!: exI[of _ j])
    qed
    moreover have "False" if "j < length (calls s)" "k < length (calls s)" "j \<noteq> k"
      "((map cRef (calls s))[i := Some ?n]) ! j = ((map cRef (calls s))[i := Some ?n]) ! k"
      "((map cRef (calls s))[i := Some ?n]) ! j \<noteq> None" for j k
      using that no[of j] no[of k] mux_core_unique[OF core, of j k] i
      by (cases "i = j"; cases "i = k") (auto simp: nth_list_update)
    ultimately show ?thesis
      unfolding owners_ok_def map_update by (simp add: c m) (metis option.distinct(1))
  qed
  ultimately have "mux_core (upd_call i ?f (s\<lparr>rm := m, log := log s\<rparr>))"
    using mok old i mux_core_callD[OF core] by (intro mux_coreI) auto
  then show ?thesis by simp
qed

lemma mux_core_register:
  assumes core: "mux_core s" and at: "at_pc s i PRegister" and c: "cRef (calls s ! i) = Some c"
    and left: "ids_left (rm s)"
  shows "mux_core (upd_call i (\<lambda>k. k\<lparr>cPc := PWrite\<rparr>)
           (s\<lparr>rm := registerHandler (cId (calls s ! i)) c (rm s)\<rparr>))" (is "mux_core (upd_call i ?f ?s)")
proof -
  let ?m = "registerHandler (cId (calls s ! i)) c (rm s)"
  have i: "i < length (calls s)" using at by (simp add: at_pc_def)
  have k: "c < length (chans (rm s))" "cId (calls s ! i) = ident c" "\<not> closed (chans (rm s) ! c)"
    "call_ok (rm s) (log s) (calls s ! i)" "cPc (calls s ! i) = PRegister"
    using at c mux_core_callD[OF core i] by (auto simp: at_pc_def call_ok_def)
  have "mux_ok ?m (log s)"
    using core k by (auto simp: mux_core_def mux_ok_def registerHandler_def)
  moreover have "call_ok ?m (log s) (calls s ! j)" if j: "j < length (calls s)" "j \<noteq> i" for j
  proof -
    have "cRef (calls s ! j) \<noteq> Some c"
      using mux_core_unique[OF core j(1) i] c j by blast
    moreover have "ident d \<noteq> ident c" if "d < length (chans (rm s))" "d \<noteq> c" for d
      using that k left ident_inj[of d _ c] by (auto simp: ids_left_def)
    ultimately show ?thesis
      using mux_core_callD[OF core j(1)] k
      by (auto simp: call_ok_def registerHandler_def split: option.splits)
  qed
  moreover have "call_ok ?m (log s) (?f (calls s ! i))"
    using k c by (simp add: call_ok_def registerHandler_def)
  moreover have "owners_ok ?m (map cRef ((calls s)[i := ?f (calls s ! i)]))"
    using core i by (intro owners_okI) (simp_all add: registerHandler_def)
  ultimately have "mux_core (upd_call i ?f (s\<lparr>rm := ?m, log := log s\<rparr>))"
    using i by (intro mux_coreI)
  then show ?thesis by simp
qed

lemma mux_core_recv:
  assumes core: "mux_core s" and at: "at_pc s i PWait" and c: "cRef (calls s ! i) = Some c"
    and recv: "chan_recv (chans (rm s) ! c) = Ret (Some rpc, ch)"
    and f: "cRef (f (calls s ! i)) = Some c" "cId (f (calls s ! i)) = cId (calls s ! i)"
      "cGot (f (calls s ! i)) = cGot (calls s ! i) @ [rpc]" "cPc (f (calls s ! i)) \<in> {PWait, PUnregister}"
  shows "mux_core (upd_call i f (s\<lparr>rm := (rm s)\<lparr>chans := (chans (rm s))[c := ch]\<rparr>\<rparr>))"
proof -
  let ?m = "(rm s)\<lparr>chans := (chans (rm s))[c := ch]\<rparr>"
  have i: "i < length (calls s)" using at by (simp add: at_pc_def)
  have k: "c < length (chans (rm s))" "call_ok (rm s) (log s) (calls s ! i)"
    using at c mux_core_callD[OF core i] by (auto simp: at_pc_def call_ok_def)
  have ok: "mux_ok (rm s) (log s)" using core by (simp add: mux_core_def)
  obtain vs where vs: "buf (chans (rm s) ! c) = rpc # vs"
    and ch: "ch = (chans (rm s) ! c)\<lparr>buf := vs, waiting := waiting (chans (rm s) ! c) - 1\<rparr>"
    using recv by (auto simp: chan_simps)
  have "resp_chan_ok ch"
    using mux_okD(2)[OF ok k(1)] vs by (simp add: resp_chan_ok_def ch)
  then have "mux_ok ?m (log s)"
    using mux_okD[OF ok] handlers_okD[OF ok] ch k
    by (intro mux_okI) (auto simp: nth_list_update)
  moreover have "call_ok ?m (log s) (calls s ! j)" if j: "j < length (calls s)" "j \<noteq> i" for j
  proof (cases "cRef (calls s ! j)")
    case (Some d)
    with mux_core_unique[OF core j(1) i] c j(2) have "d \<noteq> c" by blast
    with mux_core_callD[OF core j(1)] Some show ?thesis by (simp add: call_ok_def)
  qed (use mux_core_callD[OF core j(1)] in \<open>simp add: call_ok_def\<close>)
  moreover have "call_ok ?m (log s) (f (calls s ! i))"
    using k c f vs by (auto simp: call_ok_def ch)
  moreover have "owners_ok ?m (map cRef ((calls s)[i := f (calls s ! i)]))"
    using core i c f by (intro owners_okI) simp_all
  ultimately have "mux_core (upd_call i f (s\<lparr>rm := ?m, log := log s\<rparr>))"
    using i by (intro mux_coreI)
  then show ?thesis by simp
qed

lemma mux_core_deliver:
  assumes core: "mux_core s" and left: "ids_left (rm s)"
    and h: "handlers (rm s) (rpcId rpc) = Some c" and ret: "handleResponse rpc (rm s) = Ret m"
  shows "mux_core (s\<lparr>rm := m, log := log s @ [rpc]\<rparr>)"
proof -
  have ok: "mux_ok (rm s) (log s)" using core by (simp add: mux_core_def)
  have c: "c < length (chans (rm s))" "rpcId rpc = ident c"
    using handlers_okD[OF ok h] by auto
  have room: "length (buf (chans (rm s) ! c)) < cap (chans (rm s) ! c) + waiting (chans (rm s) ! c)"
    and m: "m = (rm s)\<lparr>chans := (chans (rm s))[c := (chans (rm s) ! c)\<lparr>buf := buf (chans (rm s) ! c) @ [rpc]\<rparr>]\<rparr>"
    using ret h by (auto simp: handleResponse_def go_bind_Ret_iff chan_simps)
  have "resp_chan_ok ((chans (rm s) ! c)\<lparr>buf := buf (chans (rm s) ! c) @ [rpc]\<rparr>)"
    using mux_okD(2)[OF ok c(1)] room by (simp add: resp_chan_ok_def)
  then have "mux_ok m (log s @ [rpc])"
    using mux_okD[OF ok] handlers_okD[OF ok] c
    by (intro mux_okI) (auto simp: m nth_list_update)
  moreover have "call_ok m (log s @ [rpc]) k" if k: "call_ok (rm s) (log s) k" for k
  proof (cases "cRef k")
    case (Some d)
    with k have d: "d < length (chans (rm s))" by (simp add: call_ok_def)
    then have "ident c = ident d \<longleftrightarrow> c = d"
      using c left ident_inj by (auto simp: ids_left_def)
    with k Some c show ?thesis
      by (cases "c = d") (auto simp: call_ok_def m)
  qed (use k in \<open>simp add: call_ok_def\<close>)
  ultimately show ?thesis
    using core by (simp add: mux_core_def owners_ok_def m)
qed

lemma mux_core_spawn: "mux_core s \<Longrightarrow> mux_core (s\<lparr>calls := calls s @ [new_call u]\<rparr>)"
  by (auto simp: mux_core_def owners_ok_def call_ok_def new_call_def nth_append)

text \<open>A step of a call that touches nothing shared.\<close>

lemma mux_core_local:
  assumes "mux_core s" "at_pc s i p" "cRef (f (calls s ! i)) = cRef (calls s ! i)"
    and "cId (f (calls s ! i)) = cId (calls s ! i)" "cGot (f (calls s ! i)) = cGot (calls s ! i)"
    and "(p = PStart \<and> cPc (f (calls s ! i)) \<in> {PAlloc, PDone}) \<or>
         (p \<in> {PWrite, PWait} \<and> cPc (f (calls s ! i)) \<in> {PWait, PUnregister, PLeaked})"
  shows "mux_core (upd_call i f s)"
proof (rule mux_core_upd)
  show i: "i < length (calls s)" using assms(2) by (simp add: at_pc_def)
  have "cPc (calls s ! i) = p" using assms(2) by (simp add: at_pc_def)
  with mux_core_callD[OF assms(1) i] assms(3-6)
  show "call_ok (rm s) (log s) (f (calls s ! i))"
    by (cases "cRef (calls s ! i)") (auto simp: call_ok_def)
qed (use assms in simp_all)

lemma mux_core_teardown:
  assumes core: "mux_core s" and ret: "unregisterHandler sid (rm s) = Ret m"
  shows "mux_core (s\<lparr>rm := m\<rparr>)"
proof -
  have ok: "mux_ok (rm s) (log s)" using core by (simp add: mux_core_def)
  show ?thesis
    using unregisterHandler_mux_ok[OF ok ret] unregisterHandler_call_ok[OF ok ret] unregisterHandler_frame[OF ret]
    by (intro mux_core_drop[OF core]) auto
qed

lemma mux_core_unregister:
  assumes core: "mux_core s" and at: "at_pc s i PUnregister"
    and ret: "unregisterHandler (cId (calls s ! i)) (rm s) = Ret m"
  shows "mux_core (upd_call i (\<lambda>k. k\<lparr>cPc := PDone\<rparr>) (s\<lparr>rm := m\<rparr>))"
proof (rule mux_core_upd[OF mux_core_teardown[OF core ret]])
  show i: "i < length (calls (s\<lparr>rm := m\<rparr>))" using at by (simp add: at_pc_def)
  from mux_core_callD[OF mux_core_teardown[OF core ret] i] mux_core_callD[OF core, of i] at unregisterHandler_frame[OF ret]
  show "call_ok (rm (s\<lparr>rm := m\<rparr>)) (log (s\<lparr>rm := m\<rparr>))
      ((calls (s\<lparr>rm := m\<rparr>) ! i)\<lparr>cPc := PDone\<rparr>)"
    by (cases "cRef (calls s ! i)") (simp_all add: at_pc_def call_ok_def)
qed simp

lemma mux_core_close:
  assumes core: "mux_core s" and ret: "closeError ids err (rm s) = Ret m"
  shows "mux_core (s\<lparr>rm := m\<rparr>)"
  using closeError_keeps[of "rm s" "log s" ids err] core ret
  by (intro mux_core_drop[OF core]) (auto simp: mux_core_def)

lemma close_handlers_length:
  "close_handlers ids m = Ret m' \<Longrightarrow> length (chans m') = length (chans m)"
  by (induction ids arbitrary: m) (auto simp: go_bind_Ret_iff dest: unregisterHandler_frame)

lemma closeError_length:
  "closeError ids err m = Ret m' \<Longrightarrow> length (chans m') = length (chans m)"
  by (auto simp: closeError_def Let_def dest: close_handlers_length split: option.splits)

lemma mux_step_length:
  "mux_step env n header s t \<Longrightarrow> length (chans (rm s)) \<le> length (chans (rm t))"
  by (induction rule: mux_step.induct)
    (auto simp: upd_call_def newStreamId_def Let_def registerHandler_def handleResponse_def
      go_bind_Ret_iff dest: unregisterHandler_frame closeError_length split: option.splits)

lemma mux_core_step:
  assumes "mux_step env n header s t" "mux_core s" "ids_left (rm t)"
  shows "mux_core t"
proof -
  have left: "ids_left (rm s)"
    using mux_step_length[OF assms(1)] assms(3) by (simp add: ids_left_def)
  from assms(1) show ?thesis
  proof cases
    case (alloc i sid c m)
    with assms show ?thesis by (simp add: mux_core_alloc)
  next
    case (deliver rpc m)
    then obtain c where "handlers (rm s) (rpcId rpc) = Some c" by blast
    with mux_core_deliver[OF assms(2) left this] deliver show ?thesis
      by (simp add: mux_core_def)
  next
    case (recv_stream i c rpc ch)
    then have "cPc (calls s ! i) = PWait" by (simp add: at_pc_def)
    with recv_stream assms(2) show ?thesis by (simp add: mux_core_recv)
  next
    case (drop rpc m)
    with assms(2) show ?thesis by (simp add: handleResponse_def mux_core_def)
  next
    case (close_err e ids m)
    with mux_core_close[OF assms(2) close_err(5)] show ?thesis
      using mux_core_reader[of RExit "s\<lparr>rm := m\<rparr>"] by simp
  qed (use assms(2) left in \<open>simp_all add: mux_core_spawn mux_core_local mux_core_register mux_core_recv
        mux_core_unregister mux_core_teardown mux_core_close\<close>)
qed

interpretation mux: invariant_system mux_init "mux_step env n header" mux_inv for env n header
proof
  fix s assume "mux_init s"
  then show "mux_inv s"
    by (simp add: mux_init_def mux_inv_def mux_core_def NewRpcMultiplexer_def mux_ok_def owners_ok_def)
next
  fix s t assume "mux_inv s" "mux_step env n header s t"
  then show "mux_inv t"
    using mux_step_length[of env n header s t] mux_core_step[of env n header s t]
    by (auto simp: mux_inv_def ids_left_def)
qed

lemma reach_mux_core:
  "reach mux_init (mux_step env n header) s \<Longrightarrow> ids_left (rm s) \<Longrightarrow> mux_core s"
  using mux.reach_inv[of env n header s] by (simp add: mux_inv_def)

lemma mux_core_ids:
  assumes core: "mux_core m" and left: "ids_left (rm m)" and i: "i < length (calls m)" "j < length (calls m)" "j \<noteq> i"
    and r: "cRef (calls m ! i) \<noteq> None" "cRef (calls m ! j) \<noteq> None"
  shows "cId (calls m ! j) \<noteq> cId (calls m ! i)"
proof -
  obtain c d where c: "cRef (calls m ! i) = Some c" and d: "cRef (calls m ! j) = Some d" using r by auto
  then have "c \<noteq> d" using mux_core_unique[OF core i(1,2)] i(3) by blast
  moreover have "c < length (chans (rm m))" "d < length (chans (rm m))"
    "cId (calls m ! i) = ident c" "cId (calls m ! j) = ident d"
    using mux_core_callD[OF core i(1)] mux_core_callD[OF core i(2)] c d by (auto simp: call_ok_def)
  ultimately show ?thesis using ident_inj[of c "length (chans (rm m))" d] left by (auto simp: ids_left_def)
qed

text \<open>Unregistering a call's handler closes at most its own channel.\<close>

lemma unregister_own:
  assumes core: "mux_core s" and left: "ids_left (rm s)" and j: "j < length (calls s)" and d: "cRef (calls s ! j) = Some d"
    and ret: "unregisterHandler (cId (calls s ! j)) (rm s) = Ret m"
  shows "buf (chans m ! c) = buf (chans (rm s) ! c)" and "c \<noteq> d \<Longrightarrow> chans m ! c = chans (rm s) ! c"
proof -
  have id: "cId (calls s ! j) = ident d" "d < length (chans (rm s))"
    using mux_core_callD[OF core j] d by (auto simp: call_ok_def)
  have "e = d" if h: "handlers (rm s) (cId (calls s ! j)) = Some e" for e
  proof -
    have "e < length (chans (rm s))" "ident d = ident e"
      using handlers_okD[OF _ h] core id(1) by (auto simp: mux_core_def)
    then show ?thesis using id(2) left ident_inj[of d "length (chans (rm s))" e] by (simp add: ids_left_def)
  qed
  then have m: "chans m = chans (rm s) \<or> chans m = (chans (rm s))[d := (chans (rm s) ! d)\<lparr>closed := True\<rparr>]"
    using ret by (auto simp: unregisterHandler_Ret_iff split: option.splits)
  then show "buf (chans m ! c) = buf (chans (rm s) ! c)" by (cases "c = d") (auto simp: id(2))
  show "c \<noteq> d \<Longrightarrow> chans m ! c = chans (rm s) ! c" using m by auto
qed

section \<open>When the read loop blocks\<close>

lemma handleResponse_Block_iff:
  assumes "mux_core s"
  shows "handleResponse rpc (rm s) = Block \<longleftrightarrow>
    (\<exists>c. handlers (rm s) (rpcId rpc) = Some c \<and> length (buf (chans (rm s) ! c)) = 1)"
proof (cases "handlers (rm s) (rpcId rpc)")
  case (Some c)
  have ok: "mux_ok (rm s) (log s)" using assms by (simp add: mux_core_def)
  from handlers_okD[OF ok Some] mux_okD(2)[OF ok, of c] Some show ?thesis
    by (auto simp: handleResponse_def go_bind_Block_iff chan_simps resp_chan_ok_def)
qed (simp add: handleResponse_def)

text \<open>The read loop holds the mutex at a full channel whose owner has stopped receiving and waits
  for the mutex, or is a stream that was never opened and left its handler behind.\<close>

definition mux_stuck :: "nat \<Rightarrow> Rpc \<Rightarrow> mux_sys \<Rightarrow> bool" where
  "mux_stuck i rpc s \<longleftrightarrow>
     reader s = RDeliver rpc \<and> i < length (calls s) \<and> cPc (calls s ! i) \<in> {PUnregister, PLeaked} \<and>
     (case cRef (calls s ! i) of
        None \<Rightarrow> False
      | Some c \<Rightarrow> handlers (rm s) (rpcId rpc) = Some c \<and> length (buf (chans (rm s) ! c)) = 1)"

lemma at_pc_upd:
  "at_pc (upd_call j f s) i p \<longleftrightarrow>
     i < length (calls s) \<and> cPc (if i = j then f (calls s ! j) else calls s ! i) = p"
  by (auto simp: at_pc_def upd_call_def)

lemma nth_calls_upd:
  "i < length (calls s) \<Longrightarrow>
     calls (upd_call j f s) ! i = (if i = j then f (calls s ! j) else calls s ! i)"
  by (auto simp: upd_call_def)

lemma mux_stuck_step:
  assumes core: "mux_core s" and st: "mux_stuck i rpc s" and "mux_step env n header s t"
  shows "mux_stuck i rpc t"
proof -
  obtain c where i: "i < length (calls s)" "cPc (calls s ! i) \<in> {PUnregister, PLeaked}"
    and c: "cRef (calls s ! i) = Some c" "handlers (rm s) (rpcId rpc) = Some c"
      "length (buf (chans (rm s) ! c)) = 1" and rd: "reader s = RDeliver rpc"
    using st by (auto simp: mux_stuck_def at_pc_def split: option.splits)
  have lt: "c < length (chans (rm s))"
    using handlers_okD[OF _ c(2)] core by (auto simp: mux_core_def)
  have full: "handleResponse rpc (rm s) = Block"
    using c handleResponse_Block_iff[OF core] by blast
  have held: "\<not> mutex_free s" using rd by (simp add: mutex_free_def)
  have other: "d \<noteq> c" if "at_pc s j p" "p \<notin> {PUnregister, PLeaked}" "cRef (calls s ! j) = Some d" for j p d
    using that i c mux_core_unique[OF core, of i j] by (auto simp: at_pc_def)
  from assms(3) show ?thesis
  proof cases
    case (spawn u)
    with i c rd show ?thesis by (simp add: mux_stuck_def at_pc_def nth_append)
  next
    case (alloc j sid d m)
    with i c rd lt show ?thesis
      by (auto simp: mux_stuck_def at_pc_upd nth_calls_upd at_pc_def newStreamId_def Let_def nth_append)
  qed (use i c rd held full other in
      \<open>auto simp: mux_stuck_def at_pc_upd nth_calls_upd at_pc_def\<close>)
qed

section \<open>A run\<close>

text \<open>States of a client with one call, used to show that the situations the properties speak of
  are reached.\<close>

definition demo ::
  "(u64 \<rightharpoonup> nat) \<Rightarrow> Rpc chan list \<Rightarrow> u64 \<Rightarrow> call \<Rightarrow> reader_pc \<Rightarrow> Rpc list \<Rightarrow> mux_sys" where
  "demo h cs ctr k rd lg =
     \<lparr>rm = \<lparr>handlers = h, chans = cs, cancelled = False, streamCounter = ctr, rErr = None\<rparr>,
      calls = [k], reader = rd, log = lg\<rparr>"

definition demo_call :: "bool \<Rightarrow> call_pc \<Rightarrow> call" where
  "demo_call u p = \<lparr>cUnary = u, cPc = p, cId = 1, cRef = Some 0, cGot = [], cRes = None\<rparr>"

definition demo_rpc :: Rpc where
  "demo_rpc = \<lparr>rpcId = 1, rpcHeader = None, rpcStatus = None, rpcBody = Some \<lparr>bData = Some [7]\<rparr>,
               rpcTrailer = None, rpcReset = None\<rparr>"

lemmas demo_simps = demo_def demo_call_def upd_call_def at_pc_def mutex_free_def new_call_def
  readErrorIfDone_def newStreamId_def registerHandler_def handleResponse_def chan_send_def demo_rpc_def

definition demo_registering :: "bool \<Rightarrow> mux_sys" where
  "demo_registering u = demo Map.empty [make_chan 1] 1 (demo_call u PRegister) RRead []"

definition demo_waiting :: "bool \<Rightarrow> mux_sys" where
  "demo_waiting u = demo [1 \<mapsto> 0] [make_chan 1] 1 (demo_call u PWait) RRead []"

definition demo_full :: "bool \<Rightarrow> call \<Rightarrow> mux_sys" where
  "demo_full u k = demo [1 \<mapsto> 0] [(make_chan 1)\<lparr>buf := [demo_rpc]\<rparr>] 1 k (RDeliver demo_rpc) [demo_rpc]"

lemma reach_demo_registering: "reach mux_init (mux_step env n header) (demo_registering u)"
proof -
  let ?s0 = "\<lparr>rm = NewRpcMultiplexer, calls = [], reader = RRead, log = []\<rparr>"
  have "reach mux_init (mux_step env n header) ?s0"
    by (rule reach_init) (simp add: mux_init_def)
  from reach_step[OF this mux_step.spawn[of env n header _ u]]
  have "reach mux_init (mux_step env n header) (demo Map.empty [] 0 (new_call u) RRead [])"
    by (simp add: demo_def NewRpcMultiplexer_def)
  from reach_step[OF this mux_step.check_ok[of _ 0]]
  have "reach mux_init (mux_step env n header)
      (demo Map.empty [] 0 ((new_call u)\<lparr>cPc := PAlloc\<rparr>) RRead [])"
    by (simp add: demo_simps)
  from reach_step[OF this mux_step.alloc[of _ 0]] show ?thesis
    by (simp add: demo_simps demo_registering_def)
qed

lemma reach_demo_waiting: "reach mux_init (mux_step env n header) (demo_waiting u)"
proof -
  from reach_step[OF reach_demo_registering mux_step.register[of _ 0 0]]
  have "reach mux_init (mux_step env n header)
      (demo [1 \<mapsto> 0] [make_chan 1] 1 (demo_call u PWrite) RRead [])"
    by (simp add: demo_simps demo_registering_def)
  from reach_step[OF this mux_step.write_ok[of _ 0]] show ?thesis
    by (simp add: demo_simps demo_waiting_def)
qed

lemma reach_demo_full: "reach mux_init (mux_step env n header) (demo_full u (demo_call u PWait))"
proof -
  let ?d = "\<lambda>cs rd lg. demo [1 \<mapsto> 0] cs 1 (demo_call u PWait) rd lg"
  let ?R = "reach mux_init (mux_step env n header)"
  have step_got: "?R (?d cs RRead lg) \<Longrightarrow> ?R (?d cs (RDeliver demo_rpc) lg)" for cs lg
  proof -
    assume "?R (?d cs RRead lg)"
    from reach_step[OF this mux_step.read[of _ env n header demo_rpc]]
    have "?R (?d cs (RGot demo_rpc) lg)" by (simp add: demo_def)
    from reach_step[OF this mux_step.lock[of _ demo_rpc]]
    show "?R (?d cs (RDeliver demo_rpc) lg)" by (simp add: demo_def)
  qed
  have "?R (?d [make_chan 1] (RDeliver demo_rpc) [])"
    using reach_demo_waiting[of env n header u] by (intro step_got) (simp add: demo_waiting_def)
  from reach_step[OF this mux_step.deliver[of _ demo_rpc]]
  have "?R (?d [(make_chan 1)\<lparr>buf := [demo_rpc]\<rparr>] RRead [demo_rpc])"
    by (simp add: demo_simps)
  from step_got[OF this] show ?thesis by (simp add: demo_full_def)
qed

lemma reach_demo_stuck:
  "\<exists>k. reach mux_init (mux_step env n header) (demo_full u k) \<and> mux_stuck 0 demo_rpc (demo_full u k)"
proof -
  let ?k = "(demo_call u PWait)\<lparr>cPc := PUnregister, cRes := Some (None, Some Canceled)\<rparr>"
  have "reach mux_init (mux_step env n header) (demo_full u ?k)"
    using reach_step[OF reach_demo_full[of env n header u] mux_step.give_up[of _ 0 env n header Canceled]]
    by (simp add: demo_simps demo_full_def)
  moreover have "mux_stuck 0 demo_rpc (demo_full u ?k)"
    by (simp add: demo_simps demo_full_def mux_stuck_def)
  ultimately show ?thesis by blast
qed

lemma unary_reply_Panic_iff:
  "unary_reply env n header resp = Panic \<longleftrightarrow> 0 < n \<and> rpcHeader resp = None"
  by (auto simp: unary_reply_def Let_def split: option.split)

lemma unary_reply_not_Block [simp]: "unary_reply env n header resp \<noteq> Block"
  by (auto simp: unary_reply_def Let_def split: option.split)

section \<open>A handler registered after the connection failed\<close>

text \<open>\<open>closeError\<close> closes the channels of the handlers it finds. A call that passed \<open>readErrorIfDone\<close>
  before it and registers after it is not among them.\<close>

definition mux_stranded :: "nat \<Rightarrow> mux_sys \<Rightarrow> bool" where
  "mux_stranded i s \<longleftrightarrow>
     reader s = RExit \<and> i < length (calls s) \<and> cGot (calls s ! i) = [] \<and>
     cPc (calls s ! i) \<in> {PWrite, PWait, PUnregister, PDone, PLeaked} \<and>
     (case cRef (calls s ! i) of
        None \<Rightarrow> False
      | Some c \<Rightarrow> buf (chans (rm s) ! c) = [] \<and>
          (cUnary (calls s ! i) \<and> cPc (calls s ! i) \<in> {PWrite, PWait} \<longrightarrow> \<not> closed (chans (rm s) ! c)))"

lemma mux_stranded_step:
  assumes core: "mux_core s" and left: "ids_left (rm s)" and st: "mux_stranded i s"
    and step: "mux_step env n header s t"
  shows "mux_stranded i t"
proof -
  obtain c where i: "i < length (calls s)" "cGot (calls s ! i) = []"
      "cPc (calls s ! i) \<in> {PWrite, PWait, PUnregister, PDone, PLeaked}"
    and c: "cRef (calls s ! i) = Some c" "buf (chans (rm s) ! c) = []"
      "cUnary (calls s ! i) \<and> cPc (calls s ! i) \<in> {PWrite, PWait} \<Longrightarrow> \<not> closed (chans (rm s) ! c)"
    and rd: "reader s = RExit"
    using st by (auto simp: mux_stranded_def split: option.splits)
  have lt: "c < length (chans (rm s))"
    using mux_core_callD[OF core i(1)] c(1) by (simp add: call_ok_def)
  have other: "d \<noteq> c" if "j < length (calls s)" "j \<noteq> i" "cRef (calls s ! j) = Some d" for j d
    using that i c mux_core_unique[OF core, of i j] by auto
  from step show ?thesis
  proof cases
    case (spawn u)
    with i c rd show ?thesis by (simp add: mux_stranded_def nth_append)
  next
    case (alloc j sid d m)
    with i c rd lt show ?thesis
      by (auto simp: mux_stranded_def nth_calls_upd at_pc_def newStreamId_def Let_def nth_append)
  next
    case (register j d)
    with i c rd show ?thesis
      by (auto simp: mux_stranded_def nth_calls_upd at_pc_def registerHandler_def)
  next
    case (recv_unary j d rpc ch r tr)
    with i c rd other[of j d] show ?thesis
      by (cases "j = i") (auto simp: mux_stranded_def nth_calls_upd at_pc_def chan_simps)
  next
    case (recv_stream j d rpc ch)
    with i c rd other[of j d] show ?thesis
      by (cases "j = i") (auto simp: mux_stranded_def nth_calls_upd at_pc_def chan_simps)
  next
    case (unregister j m)
    then have j: "j < length (calls s)" "cPc (calls s ! j) = PUnregister" by (auto simp: at_pc_def)
    obtain d where d: "cRef (calls s ! j) = Some d"
      using mux_core_callD[OF core j(1)] j(2) by (auto simp: call_ok_def split: option.splits)
    note own = unregister_own[OF core left j(1) d unregister(4), of c]
    show ?thesis
    proof (cases "j = i")
      case False
      with own(2) other[OF j(1) _ d] unregister i c rd show ?thesis by (auto simp: mux_stranded_def nth_calls_upd)
    qed (use own(1) unregister i c rd j in \<open>auto simp: mux_stranded_def nth_calls_upd\<close>)
  next
    case (send_teardown j d m)
    note own = unregister_own[OF core left send_teardown(2,5,7), of c]
    show ?thesis
    proof (cases "j = i")
      case False
      with own(2) other[OF send_teardown(2) _ send_teardown(5)] send_teardown i c rd show ?thesis by (auto simp: mux_stranded_def)
    qed (use own(1) send_teardown i c rd in \<open>auto simp: mux_stranded_def\<close>)
  next
    case (recv_panic j d rpc ch)
    with i c rd other[of j d] show ?thesis
      by (cases "j = i") (auto simp: mux_stranded_def nth_calls_upd at_pc_def chan_simps)
  next
    case (close_nil ids m)
    with i c rd show ?thesis by (auto simp: mux_stranded_def closeError_def)
  qed (use i c rd in \<open>auto simp: mux_stranded_def nth_calls_upd at_pc_def\<close>)
qed

definition demo_stranded :: "bool \<Rightarrow> mux_sys" where
  "demo_stranded u =
     \<lparr>rm = \<lparr>handlers = [1 \<mapsto> 0], chans = [make_chan 1], cancelled = True, streamCounter = 1,
            rErr = Some EOF\<rparr>,
      calls = [demo_call u PWait], reader = RExit, log = []\<rparr>"

lemma reach_demo_stranded: "reach mux_init (mux_step env n header) (demo_stranded u)"
proof -
  let ?R = "reach mux_init (mux_step env n header)"
  let ?m = "\<lambda>h. \<lparr>handlers = h, chans = [make_chan 1], cancelled = True, streamCounter = 1, rErr = Some EOF\<rparr>"
  from reach_step[OF reach_demo_registering mux_step.read_err[of _ env n header EOF]]
  have "?R (demo Map.empty [make_chan 1] 1 (demo_call u PRegister) (RClosing EOF) [])"
    by (simp add: demo_def demo_registering_def)
  from reach_step[OF this mux_step.close_err[of _ EOF "[]"]]
  have "?R \<lparr>rm = ?m Map.empty, calls = [demo_call u PRegister], reader = RExit, log = []\<rparr>"
    by (simp add: demo_def closeError_def)
  from reach_step[OF this mux_step.register[of _ 0 0]]
  have "?R \<lparr>rm = ?m [1 \<mapsto> 0], calls = [demo_call u PWrite], reader = RExit, log = []\<rparr>"
    by (simp add: demo_simps)
  from reach_step[OF this mux_step.write_ok[of _ 0]] show ?thesis
    by (simp add: demo_simps demo_stranded_def)
qed

section \<open>Properties\<close>

text \<open>C11: No interleaving of calls, streams and the read loop makes a channel operation panic: as long as fewer than
  \<open>2 ^ 64\<close> ids have been taken, \<open>handleResponse\<close> never sends on a closed channel, and neither
  \<open>unregisterHandler\<close> nor \<open>closeError\<close> closes a channel twice.\<close>

theorem mux_no_panic:
  assumes "reach mux_init (mux_step env n header) s" and "ids_left (rm s)"
  shows "handleResponse rpc (rm s) \<noteq> Panic \<and> unregisterHandler sid (rm s) \<noteq> Panic \<and>
    closeError ids err (rm s) \<noteq> Panic"
proof -
  from reach_mux_core[OF assms] have ok: "mux_ok (rm s) (log s)" by (simp add: mux_core_def)
  have "handleResponse rpc (rm s) \<noteq> Panic"
    using handlers_okD[OF ok, of "rpcId rpc"]
    by (cases "handlers (rm s) (rpcId rpc)") (auto simp: handleResponse_def go_bind_Panic_iff chan_simps)
  then show ?thesis
    using unregisterHandler_no_panic[OF ok, of sid] closeError_keeps[OF ok, of ids err] by auto
qed

theorem mux_no_panic_witness:
  "unregisterHandler 1 (rm (demo_full False (demo_call False PWait))) \<noteq> Panic \<and>
   closeError [1] (Some EOF) (rm (demo_full False (demo_call False PWait))) \<noteq> Panic"
  using mux_no_panic[OF reach_demo_full[of sample_env 0 "header_of [] [] [] []" False], of demo_rpc 1 "[1]" "Some EOF"]
  by (simp add: demo_full_def demo_def ids_left_def)

text \<open>C5: Responses are routed by id and never lost, duplicated or reordered: what a call or
  stream has received, followed by what its channel still holds, is exactly the sequence of
  responses with its id that the read loop handed over, in the order they were read.\<close>

theorem mux_fifo:
  assumes "reach mux_init (mux_step env n header) s" and "ids_left (rm s)"
    and "i < length (calls s)" and "cRef (calls s ! i) = Some c"
  shows "filter (\<lambda>r. rpcId r = cId (calls s ! i)) (log s) = cGot (calls s ! i) @ buf (chans (rm s) ! c)"
  using mux_core_callD[OF reach_mux_core[OF assms(1,2)] assms(3)] assms(4) by (simp add: call_ok_def)

theorem mux_fifo_witness:
  "filter (\<lambda>r. rpcId r = 1) [demo_rpc] = cGot (demo_call True PWait) @ [demo_rpc]"
  using mux_fifo[OF reach_demo_full[of sample_env 0 "header_of [] [] [] []" True], of 0 0]
  by (simp add: demo_full_def demo_def demo_call_def ids_left_def)

text \<open>With room in the channel the read loop can deliver; with a response in it the owner can receive while it waits.\<close>

lemma mux_can_deliver:
  assumes rd: "reader s = RDeliver rpc" and h: "handlers (rm s) (rpcId rpc) = Some c" and core: "mux_core s"
    and room: "length (buf (chans (rm s) ! c)) \<noteq> 1"
  shows "\<exists>t. mux_step env n header s t \<and> reader t = RRead \<and> log t = log s @ [rpc]"
proof -
  have ok: "mux_ok (rm s) (log s)" using core by (simp add: mux_core_def)
  then have "handleResponse rpc (rm s) \<noteq> Panic"
    using handlers_okD[OF ok h] h by (auto simp: handleResponse_def go_bind_Panic_iff chan_simps)
  moreover have "handleResponse rpc (rm s) \<noteq> Block"
    using handleResponse_Block_iff[OF core] h room by auto
  ultimately obtain m where "handleResponse rpc (rm s) = Ret m" by (cases "handleResponse rpc (rm s)") auto
  from mux_step.deliver[OF rd _ this, of env n header] h show ?thesis by force
qed

lemma mux_can_receive:
  assumes i: "at_pc s i PWait" and c: "cRef (calls s ! i) = Some c" and full: "length (buf (chans (rm s) ! c)) = 1"
  shows "\<exists>t v. mux_step env 0 header s t \<and> cGot (calls t ! i) = cGot (calls s ! i) @ [v]"
proof -
  from full obtain v ch where recv: "chan_recv (chans (rm s) ! c) = Ret (Some v, ch)"
    by (cases "buf (chans (rm s) ! c)") (auto simp: chan_recv_def)
  have lt: "i < length (calls s)" using i by (simp add: at_pc_def)
  show ?thesis
  proof (cases "cUnary (calls s ! i)")
    case True
    obtain r tr where "unary_reply env 0 header v = Ret (r, tr)"
      using unary_reply_Panic_iff[of env 0 header v] by (cases "unary_reply env 0 header v") auto
    from mux_step.recv_unary[OF i True c recv this] lt show ?thesis by (fastforce simp: upd_call_def)
  next
    case False
    from mux_step.recv_stream[OF i False c recv, of env 0 header] lt show ?thesis by (fastforce simp: upd_call_def)
  qed
qed

text \<open>C31: The multiplexer can deadlock. Once the read loop waits, with the mutex, for room in the
  channel of a call that has stopped receiving and is about to unregister (its context was
  cancelled, say), or of a stream whose opening failed and left its handler behind, it waits for ever: in every later state
  the mutex is held, the response is not delivered and that call has not unregistered. The witness is a reachable such state.\<close>

theorem mux_deadlock_forever:
  assumes "reach mux_init (mux_step env n header) s" and "mux_stuck i rpc s"
    and "(mux_step env n header)\<^sup>*\<^sup>* s t" and "ids_left (rm t)"
  shows "mux_stuck i rpc t \<and> \<not> mutex_free t"
  using assms(3,1,2,4)
proof (induction rule: rtranclp_induct)
  case base
  then show ?case by (simp add: mux_stuck_def mutex_free_def)
next
  case (step t u)
  have left: "ids_left (rm t)"
    using mux_step_length[OF step.hyps(2)] step.prems(3) by (simp add: ids_left_def)
  with step have st: "mux_stuck i rpc t" by simp
  have "mux_core t"
    using reach_mux_core[OF reach_steps[OF step.hyps(1) step.prems(1)] left] .
  from mux_stuck_step[OF this st step.hyps(2)] show ?case
    by (simp add: mux_stuck_def mutex_free_def)
qed

theorem mux_deadlock_forever_witness:
  "\<exists>s. reach mux_init (mux_step sample_env 0 (header_of [] [] [] [])) s \<and> mux_stuck 0 demo_rpc s \<and> \<not> mutex_free s"
proof -
  obtain k where k: "reach mux_init (mux_step sample_env 0 (header_of [] [] [] [])) (demo_full False k)"
    "mux_stuck 0 demo_rpc (demo_full False k)"
    using reach_demo_stuck[of sample_env 0 "header_of [] [] [] []" False] by blast
  have "ids_left (rm (demo_full False k))" by (simp add: demo_full_def demo_def ids_left_def)
  from mux_deadlock_forever[OF k rtranclp.rtrancl_refl this] k show ?thesis by blast
qed

text \<open>C35: A call can miss the failure of the connection. If \<open>closeError\<close> runs between its check of
  the read error and its registration, no later step gives it a response: the read loop has ended and it has received
  nothing. Nobody ever closes the channel of a unary call: while it waits its receive blocks, so it ends only
  through its context. The witness is a reachable such state, with the read error set.\<close>

theorem mux_lost_close:
  assumes "reach mux_init (mux_step env n header) s" and "mux_stranded i s"
    and "(mux_step env n header)\<^sup>*\<^sup>* s t" and "ids_left (rm t)"
  shows "reader t = RExit \<and> cGot (calls t ! i) = [] \<and>
    (at_pc t i PWait \<and> cUnary (calls t ! i) \<longrightarrow> chan_recv (chans (rm t) ! the (cRef (calls t ! i))) = Block)"
proof -
  have "mux_stranded i t"
    using assms(3,1,2,4)
  proof (induction rule: rtranclp_induct)
    case (step t u)
    have left: "ids_left (rm t)"
      using mux_step_length[OF step.hyps(2)] step.prems(3) by (simp add: ids_left_def)
    have "mux_core t"
      using reach_mux_core[OF reach_steps[OF step.hyps(1) step.prems(1)] left] .
    with step left show ?case by (auto intro: mux_stranded_step)
  qed simp
  then show ?thesis
    by (auto simp: mux_stranded_def at_pc_def chan_simps split: option.splits)
qed

theorem mux_lost_close_witness:
  "rErr (rm (demo_stranded True)) = Some EOF \<and> chan_recv (chans (rm (demo_stranded True)) ! 0) = Block"
  using mux_lost_close[OF reach_demo_stranded[of sample_env 0 "header_of [] [] [] []" True]
      _ rtranclp.rtrancl_refl, of 0]
  by (simp add: demo_stranded_def demo_call_def mux_stranded_def at_pc_def ids_left_def)

text \<open>C29: The multiplexer's state is well formed in every reachable state, until \<open>2 ^ 64\<close> ids have been taken: every registered
  channel exists, is open and has the id it was made for; every response channel holds at most its one element;
  every call that took an id owns an existing channel, and two calls never share an id or a channel.\<close>

theorem mux_wellformed:
  assumes "reach mux_init (mux_step env n header) s" and "ids_left (rm s)"
  shows "(\<forall>sid c. handlers (rm s) sid = Some c \<longrightarrow>
       c < length (chans (rm s)) \<and> sid = of_nat (c + 1) \<and> \<not> closed (chans (rm s) ! c)) \<and>
    (\<forall>ch \<in> set (chans (rm s)). cap ch = 1 \<and> length (buf ch) \<le> 1) \<and>
    (\<forall>i < length (calls s). \<forall>c. cRef (calls s ! i) = Some c \<longrightarrow>
       c < length (chans (rm s)) \<and> cId (calls s ! i) = of_nat (c + 1) \<and>
       (\<forall>j < length (calls s). j \<noteq> i \<and> cRef (calls s ! j) \<noteq> None \<longrightarrow>
          cRef (calls s ! j) \<noteq> Some c \<and> cId (calls s ! j) \<noteq> cId (calls s ! i)))"
proof -
  note core = reach_mux_core[OF assms]
  then have ok: "mux_ok (rm s) (log s)" by (simp add: mux_core_def)
  have "c < length (chans (rm s)) \<and> sid = of_nat (c + 1) \<and> \<not> closed (chans (rm s) ! c)"
    if "handlers (rm s) sid = Some c" for sid c
    using handlers_okD[OF ok that] by (simp add: ident_def)
  moreover have "cap ch = 1 \<and> length (buf ch) \<le> 1" if "ch \<in> set (chans (rm s))" for ch
    using ok that by (simp add: mux_ok_def resp_chan_ok_def)
  moreover have "c < length (chans (rm s)) \<and> cId (calls s ! i) = of_nat (c + 1)"
    if "i < length (calls s)" "cRef (calls s ! i) = Some c" for i c
    using mux_core_callD[OF core that(1)] that(2) by (simp add: call_ok_def ident_def)
  moreover have "cRef (calls s ! j) \<noteq> Some c \<and> cId (calls s ! j) \<noteq> cId (calls s ! i)"
    if "i < length (calls s)" "cRef (calls s ! i) = Some c" "j < length (calls s)" "j \<noteq> i" "cRef (calls s ! j) \<noteq> None" for i j c
    using mux_core_unique[OF core that(3,1)] mux_core_ids[OF core assms(2) that(1,3,4)] that by auto
  ultimately show ?thesis by blast
qed

theorem mux_wellformed_witness:
  "\<exists>s. reach mux_init (mux_step sample_env 0 (header_of [] [] [] [])) s \<and>
       cRef (calls s ! 0) \<noteq> None \<and> cRef (calls s ! 1) \<noteq> None \<and> cId (calls s ! 0) \<noteq> cId (calls s ! 1)"
proof -
  let ?R = "reach mux_init (mux_step sample_env 0 (header_of [] [] [] []))"
  let ?s = "demo_registering True"
  from reach_step[OF reach_demo_registering mux_step.spawn[of sample_env 0 "header_of [] [] [] []" ?s False]]
  have "?R (?s\<lparr>calls := calls ?s @ [new_call False]\<rparr>)" by simp
  from reach_step[OF this mux_step.check_ok[of _ 1]]
  have "?R (?s\<lparr>calls := calls ?s @ [(new_call False)\<lparr>cPc := PAlloc\<rparr>]\<rparr>)"
    by (simp add: demo_registering_def demo_simps)
  from reach_step[OF this mux_step.alloc[of _ 1 2 1]]
  have R: "?R (?s\<lparr>rm := (rm ?s)\<lparr>streamCounter := 2, chans := chans (rm ?s) @ [make_chan 1]\<rparr>,
        calls := calls ?s @ [(new_call False)\<lparr>cPc := PRegister, cId := 2, cRef := Some 1\<rparr>]\<rparr>)" (is "reach _ _ ?t")
    by (simp add: demo_registering_def demo_simps newStreamId_def)
  have c: "0 < length (calls ?t)" "1 < length (calls ?t)" "cRef (calls ?t ! 1) = Some 1" "cRef (calls ?t ! 0) \<noteq> None"
    and l: "ids_left (rm ?t)"
    by (simp_all add: demo_registering_def demo_simps ids_left_def)
  note wf = conjunct2[OF conjunct2[OF mux_wellformed[OF R l]]]
  have "cId (calls ?t ! 0) \<noteq> cId (calls ?t ! 1)"
    using wf[THEN spec, of 1, THEN mp, OF c(2), THEN spec, of 1, THEN mp, OF c(3)] c(1,4) by (metis zero_neq_one)
  with R show ?thesis
    by (intro exI[of _ ?t] conjI) (simp_all add: demo_registering_def demo_simps)
qed

end
