(* ===== verification/Goat_Client_Stream.thy ===== *)
theory Goat_Client_Stream
  imports Goat_Transport
begin

text \<open>
  The client side of a stream, \<^verbatim>\<open>internal/client/stream.go\<close>. First the operations of
  \<^verbatim>\<open>clientStream\<close>, each a function of the stream's state and of the transport's; then its read loop and
  a receiving goroutine as a step relation with the stream's mutex and the unbuffered channel
  between them; last, a reference function from the sequence of responses to what the application
  must see, and the proof that every interleaving implements it.
\<close>

section \<open>State\<close>

text \<open>\<open>csReady\<close> is the counter of the \<^verbatim>\<open>WaitGroup\<close> that holds back \<open>Header\<close>; \<open>csRChClosed\<close> says whether
  the unbuffered channel \<^verbatim>\<open>rCh\<close> is closed; \<open>csStats\<close> is the trace of stats events so far. The field
  \<^verbatim>\<open>eErr\<close> is never used by the code and left out.\<close>

record clientStream =
  csCtx :: Context
  csId :: u64
  csMethod :: string
  csSource :: string
  csDest :: string
  csReady :: nat
  csHeader :: "MD option"
  csHandlers :: nat
  csDone :: bool
  csHeaderErr :: "gerr option"
  csRErr :: "gerr option"
  csTrailer :: "Trailer option"
  csRChClosed :: bool
  csStats :: trace

definition NewStream ::
  "Context \<Rightarrow> u64 \<Rightarrow> string \<Rightarrow> string \<Rightarrow> string \<Rightarrow> nat \<Rightarrow> clientStream" where
  "NewStream ctx sid method sourceAddress destAddress n =
     \<lparr>csCtx = ctx, csId = sid, csMethod = method, csSource = sourceAddress, csDest = destAddress,
      csReady = 1, csHeader = None, csHandlers = n, csDone = False, csHeaderErr = None,
      csRErr = None, csTrailer = None, csRChClosed = False, csStats = []\<rparr>"

text \<open>A message of the stream: its id, method and addresses.\<close>

definition cs_rpc :: "clientStream \<Rightarrow> Rpc" where
  "cs_rpc cs =
     \<lparr>rpcId = csId cs, rpcHeader = Some (header_of (csMethod cs) (csSource cs) (csDest cs) []),
      rpcStatus = None, rpcBody = None, rpcTrailer = None, rpcReset = None\<rparr>"

section \<open>Operations\<close>

text \<open>\<open>wr\<close> is the write side of the stream's \<^verbatim>\<open>RpcReadWriter\<close> and \<open>td\<close> the multiplexer's teardown, both
  on the state \<open>t\<close> behind them; \<open>now\<close> is the time. The reset message is written under a context of
  its own with 30 seconds; its error is only logged.\<close>

type_synonym 't writer = "Context \<Rightarrow> Rpc \<Rightarrow> 't \<Rightarrow> (gerr option \<times> 't) go"

definition cs_teardown ::
  "'t writer \<Rightarrow> ('t \<Rightarrow> 't go) \<Rightarrow> int \<Rightarrow> bool \<Rightarrow> clientStream \<Rightarrow> 't \<Rightarrow> (clientStream \<times> 't) go" where
  "cs_teardown wr td now sendRst cs t =
     go_bind
       (if sendRst
        then go_bind (wr (Background\<lparr>ctxDeadline := Some (now + 30 * 10 ^ 9)\<rparr>)
                         ((cs_rpc cs)\<lparr>rpcReset := Some \<lparr>rType = ''RST_STREAM''\<rparr>\<rparr>) t)
                     (\<lambda>(err, t1). Ret t1)
        else Ret t)
       (\<lambda>t1. go_bind (td t1) (\<lambda>t2. Ret (cs\<lparr>csCtx := ctx_cancel (csCtx cs)\<rparr>, t2)))"

definition cs_Header :: "clientStream \<Rightarrow> (MD option \<times> gerr option) go" where
  "cs_Header cs = (if 0 < csReady cs then Block else Ret (csHeader cs, csHeaderErr cs))"

definition cs_Trailer :: "env \<Rightarrow> clientStream \<Rightarrow> MD option go" where
  "cs_Trailer env cs =
     (case GetMetadata (csTrailer cs) of
        None \<Rightarrow> Ret None
      | Some kvs \<Rightarrow> (case ToMetadata env kvs of Inl err \<Rightarrow> Panic | Inr md \<Rightarrow> Ret (Some md)))"

definition cs_Context :: "clientStream \<Rightarrow> Context" where
  "cs_Context cs = csCtx cs"

definition cs_CloseSend ::
  "env \<Rightarrow> 't writer \<Rightarrow> clientStream \<Rightarrow> 't \<Rightarrow> (gerr option \<times> clientStream \<times> 't) go" where
  "cs_CloseSend env wr cs t =
     (let tr = (cs_rpc cs)\<lparr>rpcStatus := Some \<lparr>rsCode = code_OK, rsMessage = ''OK'', rsDetails = []\<rparr>,
                           rpcTrailer := Some \<lparr>tMetadata = None\<rparr>\<rparr>;
          md = (case GetMetadata (rpcTrailer tr) of None \<Rightarrow> [] | Some kvs \<Rightarrow> kvs);
          cs1 = cs\<lparr>csStats := csStats cs @ stats_all (csHandlers cs)
                     [EvOutTrailer True (case ToMetadata env md of Inl e \<Rightarrow> Map.empty | Inr m \<Rightarrow> m)]\<rparr>
      in go_bind (wr (csCtx cs) tr t) (\<lambda>(err, t1). Ret (err, cs1, t1)))"

definition cs_readErrorIfDone :: "clientStream \<Rightarrow> bool \<times> gerr option" where
  "cs_readErrorIfDone cs = (if \<not> csDone cs then (False, None) else (True, csRErr cs))"

definition cs_SendMsg ::
  "'m codec \<Rightarrow> 't writer \<Rightarrow> ('t \<Rightarrow> 't go) \<Rightarrow> int \<Rightarrow> 'm \<Rightarrow> clientStream \<Rightarrow> 't \<Rightarrow>
   (gerr option \<times> clientStream \<times> 't) go" where
  "cs_SendMsg cd wr td now msg cs t =
     (case cs_readErrorIfDone cs of
        (True, err) \<Rightarrow> Ret (err, cs, t)
      | (False, _) \<Rightarrow>
          (case Marshal cd msg of
             Inl err \<Rightarrow> go_bind (cs_teardown wr td now False cs t) (\<lambda>(cs1, t1). Ret (Some err, cs1, t1))
           | Inr body \<Rightarrow>
               go_bind (wr (csCtx cs) ((cs_rpc cs)\<lparr>rpcBody := Some \<lparr>bData = Materialize cd body\<rparr>\<rparr>) t)
                 (\<lambda>(err, t1).
                    case err of
                      Some e \<Rightarrow>
                        go_bind (cs_teardown wr td now False cs t1) (\<lambda>(cs1, t2). Ret (Some e, cs1, t2))
                    | None \<Rightarrow>
                        Ret (None,
                             cs\<lparr>csStats := csStats cs @
                                  stats_all (csHandlers cs) [EvOutPayload True (length body)]\<rparr>,
                             t1))))"

definition toStatusError :: "env \<Rightarrow> gerr \<Rightarrow> gerr option" where
  "toStatusError env err =
     (if errors_Is err DeadlineExceeded \<or> errors_Is err Canceled
      then stErr env (stFromContextError env err)
      else stErr env (fst (stFromError env err)))"

definition errorIfDone :: "env \<Rightarrow> Rpc \<Rightarrow> bool \<times> gerr option" where
  "errorIfDone env rpc =
     (if rpcTrailer rpc = None then (False, None)
      else let st = rpcStatus rpc
           in if GetCode st = code_OK then (True, Some EOF)
              else (True, stErr env \<lparr>stCode = GetCode st, stMessage = GetMessage st,
                                     stDetails = GetDetails st\<rparr>))"

text \<open>\<open>RecvMsg\<close> in three parts: the \<^verbatim>\<open>select\<close> (\<open>offer\<close> is the body the read loop is offering on the
  channel, if it is), what a received body gives, and what a closed channel gives.\<close>

datatype 'b recv_sel = SelDone "gerr option" | SelBody 'b | SelClosed

definition cs_RecvMsg_select ::
  "env \<Rightarrow> bool \<Rightarrow> Body option \<Rightarrow> clientStream \<Rightarrow> Body recv_sel go" where
  "cs_RecvMsg_select env pick offer cs =
     select2 pick
       (on_done (csCtx cs) (\<lambda>e. SelDone (toStatusError env e)))
       (case offer of
          Some b \<Rightarrow> Ret (SelBody b)
        | None \<Rightarrow> if csRChClosed cs then Ret SelClosed else Block)"

definition cs_RecvMsg_body :: "'m codec \<Rightarrow> Body \<Rightarrow> clientStream \<Rightarrow> (gerr + 'm) \<times> clientStream" where
  "cs_RecvMsg_body cd b cs =
     (case Unmarshal cd (bData b) of
        Inl err \<Rightarrow> (Inl err, cs)
      | Inr msg \<Rightarrow>
          (Inr msg, cs\<lparr>csStats := csStats cs @
                         stats_all (csHandlers cs) [EvInPayload False (nil_len (bData b))]\<rparr>))"

definition cs_RecvMsg_closed :: "clientStream \<Rightarrow> gerr option go" where
  "cs_RecvMsg_closed cs =
     (case cs_readErrorIfDone cs of (fin, err) \<Rightarrow> if \<not> fin then Panic else Ret err)"

text \<open>The read loop's \<open>onReady\<close>: a \<^verbatim>\<open>WaitGroup\<close> panics when its counter would become negative.\<close>

definition onReady :: "gerr option \<Rightarrow> MD option \<Rightarrow> clientStream \<Rightarrow> clientStream go" where
  "onReady err headers cs =
     (if csHeader cs = None
      then if csReady cs = 0 then Panic
           else Ret (cs\<lparr>csHeaderErr := err, csHeader := headers, csReady := csReady cs - 1,
                        csStats := csStats cs @
                          (if err = None
                           then stats_all (csHandlers cs)
                                  [EvInHeader True (csMethod cs)
                                     (case headers of None \<Rightarrow> Map.empty | Some md \<Rightarrow> md)]
                           else [])\<rparr>)
      else Ret cs)"

text \<open>One iteration of the read loop, from the result of \<^verbatim>\<open>Read\<close> to the next one, to the \<^verbatim>\<open>select\<close> that
  offers a body, or to a return with the local \<^verbatim>\<open>rErr\<close> and \<^verbatim>\<open>trailer\<close>.\<close>

datatype loop_next = LoopContinue | LoopSend Body | LoopReturn "gerr option" "Trailer option"

definition readLoop_dispatch :: "env \<Rightarrow> Rpc \<Rightarrow> loop_next" where
  "readLoop_dispatch env rpc =
     (case errorIfDone env rpc of
        (True, err) \<Rightarrow> LoopReturn err (rpcTrailer rpc)
      | (False, _) \<Rightarrow> (case rpcBody rpc of None \<Rightarrow> LoopContinue | Some b \<Rightarrow> LoopSend b))"

definition readLoop_iter :: "env \<Rightarrow> gerr + Rpc \<Rightarrow> clientStream \<Rightarrow> (loop_next \<times> clientStream) go" where
  "readLoop_iter env res cs =
     (case res of
        Inl err \<Rightarrow>
          (let re = toStatusError env err
           in go_bind (onReady re None cs) (\<lambda>cs1. Ret (LoopReturn re None, cs1)))
      | Inr rpc \<Rightarrow>
          if csHeader cs = None
          then (case ToMetadata env (GetHeaders (rpcHeader rpc)) of
                  Inl err \<Rightarrow> Ret (LoopReturn None None, cs)
                | Inr md \<Rightarrow> go_bind (onReady None (Some md) cs)
                              (\<lambda>cs1. Ret (readLoop_dispatch env rpc, cs1)))
          else Ret (readLoop_dispatch env rpc, cs))"

text \<open>The deferred function, in two parts: closing the channel and the teardown, then the final
  state; both run under the mutex, and a receiver can see the channel closed in between.\<close>

definition readLoop_close ::
  "'t writer \<Rightarrow> ('t \<Rightarrow> 't go) \<Rightarrow> int \<Rightarrow> Trailer option \<Rightarrow> clientStream \<Rightarrow> 't \<Rightarrow> (clientStream \<times> 't) go" where
  "readLoop_close wr td now trailer cs t =
     (if csRChClosed cs then Panic
      else let cs1 = cs\<lparr>csRChClosed := True\<rparr>;
               sendRst = (trailer = None \<and> ctx_done (csCtx cs1))
           in cs_teardown wr td now sendRst cs1 t)"

definition readLoop_end :: "gerr option \<Rightarrow> Trailer option \<Rightarrow> clientStream \<Rightarrow> clientStream" where
  "readLoop_end re trailer cs =
     cs\<lparr>csDone := True, csRErr := re, csTrailer := trailer,
        csStats := csStats cs @ stats_all (csHandlers cs)
          [EvEnd False (if re \<noteq> None \<and> re \<noteq> Some EOF then re else None)]\<rparr>"

section \<open>The reference\<close>

text \<open>
  What a sequence of reads means for the application, with no concurrency: the bodies it receives
  and, once the stream has ended, the error and the trailer it ended with. \<open>first\<close> says that no
  response has been seen yet, so that the next one carries the headers.
\<close>

fun cs_run :: "env \<Rightarrow> bool \<Rightarrow> (gerr + Rpc) list \<Rightarrow>
    Body list \<times> (gerr option \<times> Trailer option) option" where
  "cs_run env first [] = ([], None)"
| "cs_run env first (Inl e # rs) = ([], Some (toStatusError env e, None))"
| "cs_run env first (Inr rpc # rs) =
     (if first \<and> (\<exists>h \<in> set (GetHeaders (rpcHeader rpc)). kv_bad env h) then ([], Some (None, None))
      else if rpcTrailer rpc \<noteq> None then ([], Some (snd (errorIfDone env rpc), rpcTrailer rpc))
      else let (bs, en) = cs_run env False rs
           in ((case rpcBody rpc of None \<Rightarrow> bs | Some b \<Rightarrow> b # bs), en))"

text \<open>The stream ended on a first response whose headers do not decode.\<close>

fun malformed :: "env \<Rightarrow> (gerr + Rpc) list \<Rightarrow> bool" where
  "malformed env (Inr rpc # rs) = (\<exists>h \<in> set (GetHeaders (rpcHeader rpc)). kv_bad env h)"
| "malformed env rs = False"

lemma cs_run_snoc:
  assumes "cs_run env first rd = (bs, None)"
  shows "cs_run env first (rd @ [r]) =
    (case cs_run env (first \<and> rd = []) [r] of (bs', en) \<Rightarrow> (bs @ bs', en))"
  using assms
proof (induction env first rd arbitrary: bs rule: cs_run.induct)
  case (3 env first rpc rs)
  then show ?case by (auto split: prod.splits if_splits option.splits)
qed (auto split: prod.splits)


lemma malformed_append: "rd \<noteq> [] \<Longrightarrow> malformed env (rd @ rs) = malformed env rd"
proof (cases rd)
  case (Cons r rs')
  then show ?thesis by (cases r) auto
qed simp

lemma cs_run_not_malformed: "cs_run env True rd = (bs, None) \<Longrightarrow> \<not> malformed env rd"
  by (cases "(env, rd)" rule: malformed.cases) (auto split: if_splits)

section \<open>The goroutines of a stream\<close>

text \<open>
  The read loop: in \<^verbatim>\<open>Read\<close>; with its result; offering a body on the channel; in the deferred
  function before the mutex, and holding it with the channel closed; returned. The receiver: between
  calls of \<open>RecvMsg\<close>; in its \<^verbatim>\<open>select\<close>; having seen the channel closed, before the mutex.
\<close>

datatype loop_pc =
    LRead | LGot "gerr + Rpc" | LSend Body
  | LDefer "gerr option" "Trailer option" | LClosed "gerr option" "Trailer option" | LExit

datatype recv_pc = VIdle | VWait | VClosed

text \<open>\<open>cxRead\<close>, \<open>cxGot\<close> and \<open>cxResults\<close> record what the loop has read, the bodies handed to the receiver
  and the errors its calls have returned.\<close>

record 't cs_sys =
  cxS :: clientStream
  cxT :: 't
  cxReader :: loop_pc
  cxRecv :: recv_pc
  cxRead :: "(gerr + Rpc) list"
  cxGot :: "Body list"
  cxResults :: "gerr option list"

definition cs_init :: "'t cs_sys \<Rightarrow> bool" where
  "cs_init s \<longleftrightarrow>
     (\<exists>ctx sid method src dst n. cxS s = NewStream ctx sid method src dst n) \<and>
     cxReader s = LRead \<and> cxRecv s = VIdle \<and> cxRead s = [] \<and> cxGot s = [] \<and> cxResults s = []"

definition cs_mutex_free :: "'t cs_sys \<Rightarrow> bool" where
  "cs_mutex_free s \<longleftrightarrow> (case cxReader s of LClosed e tr \<Rightarrow> False | _ \<Rightarrow> True)"

definition cs_offer :: "'t cs_sys \<Rightarrow> Body option" where
  "cs_offer s = (case cxReader s of LSend b \<Rightarrow> Some b | _ \<Rightarrow> None)"

definition loop_goto :: "loop_next \<Rightarrow> loop_pc" where
  "loop_goto nx = (case nx of LoopContinue \<Rightarrow> LRead | LoopSend b \<Rightarrow> LSend b | LoopReturn e tr \<Rightarrow> LDefer e tr)"

inductive cs_step ::
  "env \<Rightarrow> 'm codec \<Rightarrow> 't writer \<Rightarrow> ('t \<Rightarrow> 't go) \<Rightarrow> 't cs_sys \<Rightarrow> 't cs_sys \<Rightarrow> bool"
  for env cd wr td where
  cs_read: "cxReader s = LRead \<Longrightarrow>
    cs_step env cd wr td s (s\<lparr>cxReader := LGot r, cxRead := cxRead s @ [r]\<rparr>)"
| cs_iter: "cxReader s = LGot r \<Longrightarrow> readLoop_iter env r (cxS s) = Ret (nx, cs') \<Longrightarrow>
    cs_step env cd wr td s (s\<lparr>cxReader := loop_goto nx, cxS := cs'\<rparr>)"
| cs_send_done: "cxReader s = LSend b \<Longrightarrow> ctxErr (csCtx (cxS s)) = Some e \<Longrightarrow>
    cs_step env cd wr td s (s\<lparr>cxReader := LDefer (toStatusError env e) None\<rparr>)"
| cs_close: "cxReader s = LDefer e tr \<Longrightarrow>
    readLoop_close wr td now tr (cxS s) (cxT s) = Ret (cs', t') \<Longrightarrow>
    cs_step env cd wr td s (s\<lparr>cxReader := LClosed e tr, cxS := cs', cxT := t'\<rparr>)"
| cs_finish: "cxReader s = LClosed e tr \<Longrightarrow>
    cs_step env cd wr td s (s\<lparr>cxReader := LExit, cxS := readLoop_end e tr (cxS s)\<rparr>)"
| recv_over: "cxRecv s = VIdle \<Longrightarrow> cs_mutex_free s \<Longrightarrow> cs_readErrorIfDone (cxS s) = (True, e) \<Longrightarrow>
    cs_step env cd wr td s (s\<lparr>cxResults := cxResults s @ [e]\<rparr>)"
| recv_start: "cxRecv s = VIdle \<Longrightarrow> cs_mutex_free s \<Longrightarrow> cs_readErrorIfDone (cxS s) = (False, e) \<Longrightarrow>
    cs_step env cd wr td s (s\<lparr>cxRecv := VWait\<rparr>)"
| recv_done: "cxRecv s = VWait \<Longrightarrow> cs_RecvMsg_select env pick (cs_offer s) (cxS s) = Ret (SelDone e) \<Longrightarrow>
    cs_step env cd wr td s (s\<lparr>cxRecv := VIdle, cxResults := cxResults s @ [e]\<rparr>)"
| recv_body: "cxRecv s = VWait \<Longrightarrow> cs_RecvMsg_select env pick (cs_offer s) (cxS s) = Ret (SelBody b) \<Longrightarrow>
    cs_RecvMsg_body cd b (cxS s) = (r, cs') \<Longrightarrow>
    cs_step env cd wr td s
      (s\<lparr>cxRecv := VIdle, cxReader := LRead, cxS := cs', cxGot := cxGot s @ [b],
         cxResults := cxResults s @ [case r of Inl e \<Rightarrow> Some e | Inr msg \<Rightarrow> None]\<rparr>)"
| recv_closed: "cxRecv s = VWait \<Longrightarrow> cs_RecvMsg_select env pick (cs_offer s) (cxS s) = Ret SelClosed \<Longrightarrow>
    cs_step env cd wr td s (s\<lparr>cxRecv := VClosed\<rparr>)"
| recv_end: "cxRecv s = VClosed \<Longrightarrow> cs_mutex_free s \<Longrightarrow> cs_RecvMsg_closed (cxS s) = Ret e \<Longrightarrow>
    cs_step env cd wr td s (s\<lparr>cxRecv := VIdle, cxResults := cxResults s @ [e]\<rparr>)"
| ctx_end: "ctxErr (csCtx (cxS s)) = None \<Longrightarrow>
    cs_step env cd wr td s (s\<lparr>cxS := (cxS s)\<lparr>csCtx := (csCtx (cxS s))\<lparr>ctxErr := Some e\<rparr>\<rparr>\<rparr>)"
| send_msg: "cs_mutex_free s \<Longrightarrow> cs_SendMsg cd wr td now msg (cxS s) (cxT s) = Ret (e, cs', t') \<Longrightarrow>
    cs_step env cd wr td s (s\<lparr>cxS := cs', cxT := t'\<rparr>)"
| close_send: "cs_CloseSend env wr (cxS s) (cxT s) = Ret (e, cs', t') \<Longrightarrow>
    cs_step env cd wr td s (s\<lparr>cxS := cs', cxT := t'\<rparr>)"

section \<open>The invariant\<close>

definition cs_live :: "clientStream \<Rightarrow> bool" where
  "cs_live cs \<longleftrightarrow> \<not> csRChClosed cs \<and> \<not> csDone cs"

text \<open>The headers are known as soon as one response has been handled, and \<open>Header\<close> is released then.\<close>

definition cs_hdr :: "clientStream \<Rightarrow> bool \<Rightarrow> bool" where
  "cs_hdr cs first \<longleftrightarrow> (csHeader cs = None \<longleftrightarrow> first) \<and> csReady cs = (if first then 1 else 0)"

text \<open>How the loop ends: as the reference says, or because the context ended while it held a body.\<close>

definition cs_outcome ::
  "env \<Rightarrow> clientStream \<Rightarrow> (gerr + Rpc) list \<Rightarrow> Body list \<Rightarrow> gerr option \<Rightarrow> Trailer option \<Rightarrow> bool" where
  "cs_outcome env cs rd got e tr \<longleftrightarrow>
     csReady cs = (if malformed env rd then 1 else 0) \<and>
     (cs_run env True rd = (got, Some (e, tr)) \<and> snd (cs_run env True (butlast rd)) = None \<or>
      (\<exists>b ce. cs_run env True rd = (got @ [b], None) \<and> ctxErr (csCtx cs) = Some ce \<and>
              e = toStatusError env ce \<and> tr = None))"

definition cs_inv :: "env \<Rightarrow> 't cs_sys \<Rightarrow> bool" where
  "cs_inv env s \<longleftrightarrow>
     (cxRecv s = VClosed \<longrightarrow> csRChClosed (cxS s)) \<and>
     (case cxReader s of
        LRead \<Rightarrow> cs_live (cxS s) \<and> cs_hdr (cxS s) (cxRead s = []) \<and>
          cs_run env True (cxRead s) = (cxGot s, None)
      | LGot r \<Rightarrow> cs_live (cxS s) \<and>
          (\<exists>rd. cxRead s = rd @ [r] \<and> cs_hdr (cxS s) (rd = []) \<and> cs_run env True rd = (cxGot s, None))
      | LSend b \<Rightarrow> cs_live (cxS s) \<and> cs_hdr (cxS s) False \<and>
          cs_run env True (cxRead s) = (cxGot s @ [b], None)
      | LDefer e tr \<Rightarrow> cs_live (cxS s) \<and> cs_outcome env (cxS s) (cxRead s) (cxGot s) e tr
      | LClosed e tr \<Rightarrow> csRChClosed (cxS s) \<and> \<not> csDone (cxS s) \<and>
          cs_outcome env (cxS s) (cxRead s) (cxGot s) e tr
      | LExit \<Rightarrow> csRChClosed (cxS s) \<and> csDone (cxS s) \<and>
          cs_outcome env (cxS s) (cxRead s) (cxGot s) (csRErr (cxS s)) (csTrailer (cxS s)))"

text \<open>Steps that leave the read loop's fields alone keep the invariant.\<close>

definition cs_same :: "clientStream \<Rightarrow> clientStream \<Rightarrow> bool" where
  "cs_same cs cs' \<longleftrightarrow>
     csHeader cs' = csHeader cs \<and> csReady cs' = csReady cs \<and> csDone cs' = csDone cs \<and>
     csRErr cs' = csRErr cs \<and> csTrailer cs' = csTrailer cs \<and>
     csRChClosed cs' = csRChClosed cs \<and>
     (ctxErr (csCtx cs) \<noteq> None \<longrightarrow> ctxErr (csCtx cs') = ctxErr (csCtx cs))"

lemma cs_outcome_same:
  "cs_outcome env cs rd got e tr \<Longrightarrow> csReady cs' = csReady cs \<Longrightarrow>
   (ctxErr (csCtx cs) \<noteq> None \<longrightarrow> ctxErr (csCtx cs') = ctxErr (csCtx cs)) \<Longrightarrow>
   cs_outcome env cs' rd got e tr"
  by (auto simp: cs_outcome_def)

lemma cs_inv_same:
  assumes "cs_inv env s" and same: "cs_same (cxS s) cs'"
  shows "cs_inv env (s\<lparr>cxS := cs'\<rparr>)"
proof -
  have o: "cs_outcome env (cxS s) rd got e tr \<Longrightarrow> cs_outcome env cs' rd got e tr" for rd got e tr
    using same by (auto simp: cs_same_def elim: cs_outcome_same)
  show ?thesis
    using assms by (cases "cxReader s") (auto simp: cs_inv_def cs_same_def cs_live_def cs_hdr_def intro: o)
qed

lemma cs_inv_free [simp]:
  "cs_inv env (s\<lparr>cxT := t\<rparr>) = cs_inv env s" "cs_inv env (s\<lparr>cxResults := rs\<rparr>) = cs_inv env s"
  by (simp_all add: cs_inv_def split: loop_pc.split)

lemma cs_inv_recv: "cs_inv env s \<Longrightarrow> v = VClosed \<longrightarrow> csRChClosed (cxS s) \<Longrightarrow> cs_inv env (s\<lparr>cxRecv := v\<rparr>)"
  by (simp add: cs_inv_def split: loop_pc.splits)

lemma ctx_cancel_keeps: "ctxErr ctx \<noteq> None \<Longrightarrow> ctxErr (ctx_cancel ctx) = ctxErr ctx"
  by (simp add: ctx_cancel_def ctx_done_def)

lemma cs_teardown_Ret:
  "cs_teardown wr td now rst cs t = Ret (cs', t') \<Longrightarrow> cs' = cs\<lparr>csCtx := ctx_cancel (csCtx cs)\<rparr>"
  by (auto simp: cs_teardown_def go_bind_Ret_iff split: if_splits)

lemma cs_abort_same:
  "go_bind (cs_teardown wr td now rst cs t) (\<lambda>(cs1, t1). Ret (err, cs1, t1)) = Ret (e, cs', t') \<Longrightarrow>
   cs_same cs cs'"
  by (auto simp: go_bind_Ret_iff cs_same_def ctx_cancel_keeps dest!: cs_teardown_Ret)

lemma cs_SendMsg_same:
  assumes "cs_SendMsg cd wr td now msg cs t = Ret (e, cs', t')"
  shows "cs_same cs cs'"
proof (cases "csDone cs")
  case True
  with assms show ?thesis by (simp add: cs_SendMsg_def cs_readErrorIfDone_def cs_same_def)
next
  case False
  show ?thesis
  proof (cases "Marshal cd msg")
    case (Inl err)
    with False assms show ?thesis by (simp add: cs_SendMsg_def cs_readErrorIfDone_def cs_abort_same)
  next
    case (Inr body)
    with False assms obtain err t1 where
      "(case err of Some e \<Rightarrow> go_bind (cs_teardown wr td now False cs t1) (\<lambda>(cs1, t2). Ret (Some e, cs1, t2))
        | None \<Rightarrow> Ret (None, cs\<lparr>csStats := csStats cs @
            stats_all (csHandlers cs) [EvOutPayload True (length body)]\<rparr>, t1)) = Ret (e, cs', t')"
      by (auto simp: cs_SendMsg_def cs_readErrorIfDone_def go_bind_Ret_iff)
    then show ?thesis
      by (cases err) (auto simp: cs_same_def[of _ "_\<lparr>csStats := _\<rparr>"] intro: cs_abort_same)
  qed
qed

lemma cs_CloseSend_same: "cs_CloseSend env wr cs t = Ret (e, cs', t') \<Longrightarrow> cs_same cs cs'"
  by (auto simp: cs_CloseSend_def cs_same_def go_bind_Ret_iff)

lemma cs_RecvMsg_body_same: "cs_RecvMsg_body cd b cs = (r, cs') \<Longrightarrow> cs_same cs cs'"
  by (auto simp: cs_RecvMsg_body_def cs_same_def split: sum.splits)

text \<open>One iteration follows the reference.\<close>

lemma onReady_hdr:
  assumes "cs_hdr cs first"
  obtains cs' where "onReady e h cs = Ret cs'"
    and "csReady cs' = 0" and "csHeader cs' = (if first then h else csHeader cs)"
    and "csRChClosed cs' = csRChClosed cs" and "csDone cs' = csDone cs" and "csCtx cs' = csCtx cs"
  using assms by (auto simp: onReady_def cs_hdr_def split: if_splits)

lemma ToMetadata_Inl_iff:
  "(\<exists>h \<in> set kvs. kv_bad env h) \<longleftrightarrow> (\<exists>e. ToMetadata env kvs = Inl e)"
  using ToMetadata_fails_iff by simp

lemma readLoop_dispatch_run:
  assumes "cs_run env True rd = (got, None)" "\<not> (rd = [] \<and> malformed env [Inr rpc])"
  shows "case readLoop_dispatch env rpc of
      LoopContinue \<Rightarrow> cs_run env True (rd @ [Inr rpc]) = (got, None)
    | LoopSend b \<Rightarrow> cs_run env True (rd @ [Inr rpc]) = (got @ [b], None)
    | LoopReturn e tr \<Rightarrow> cs_run env True (rd @ [Inr rpc]) = (got, Some (e, tr))"
  using assms
  by (auto simp: readLoop_dispatch_def cs_run_snoc errorIfDone_def Let_def
      split: prod.splits bool.splits option.splits if_splits)

lemma cs_inv_iter:
  assumes inv: "cs_inv env s" and r: "cxReader s = LGot r"
    and it: "readLoop_iter env r (cxS s) = Ret (nx, cs')"
  shows "cs_inv env (s\<lparr>cxReader := loop_goto nx, cxS := cs'\<rparr>)"
proof -
  from inv r obtain rd where live: "cs_live (cxS s)" and rd: "cxRead s = rd @ [r]"
    and hdr: "cs_hdr (cxS s) (rd = [])" and run: "cs_run env True rd = (cxGot s, None)"
    by (auto simp: cs_inv_def)
  have v: "cxRecv s \<noteq> VClosed" using inv live by (auto simp: cs_inv_def cs_live_def)
  note nm = cs_run_not_malformed[OF run]
  show ?thesis
  proof (cases r)
    case (Inl e)
    obtain cs1 where "onReady (toStatusError env e) None (cxS s) = Ret cs1" "csReady cs1 = 0"
      "csRChClosed cs1 = csRChClosed (cxS s)" "csDone cs1 = csDone (cxS s)"
      using onReady_hdr[OF hdr] by metis
    with Inl it v live rd run nm show ?thesis
      by (cases "rd = []") (auto simp: readLoop_iter_def Let_def loop_goto_def cs_inv_def cs_live_def
          cs_outcome_def cs_run_snoc malformed_append)
  next
    case (Inr rpc)
    note disp = readLoop_dispatch_run[OF run, of rpc]
    have *: "cs_inv env (s\<lparr>cxReader := loop_goto (readLoop_dispatch env rpc), cxS := cs1\<rparr>)"
      if "cs_live cs1" "cs_hdr cs1 False" "\<not> (rd = [] \<and> malformed env [Inr rpc])" for cs1
      using that disp[OF that(3)] rd Inr v nm run
      by (cases "rd = []") (auto simp: cs_inv_def loop_goto_def cs_outcome_def cs_hdr_def malformed_append
          split: loop_next.splits if_splits)
    show ?thesis
    proof (cases "rd = []")
      case False
      with it Inr hdr have "cs' = cxS s" "nx = readLoop_dispatch env rpc"
        by (auto simp: readLoop_iter_def cs_hdr_def)
      with *[of "cxS s"] live hdr False show ?thesis by simp
    next
      case True
      show ?thesis
      proof (cases "ToMetadata env (GetHeaders (rpcHeader rpc))")
        case (Inl e)
        then have "malformed env [Inr rpc]" using ToMetadata_Inl_iff[of "GetHeaders (rpcHeader rpc)" env] by auto
        with Inl it Inr hdr True live rd v run show ?thesis
          by (auto simp: readLoop_iter_def cs_hdr_def cs_inv_def loop_goto_def cs_outcome_def)
      next
        case (Inr md)
        then have m: "\<not> malformed env [Inr rpc]"
          using ToMetadata_Inl_iff[of "GetHeaders (rpcHeader rpc)" env] by auto
        obtain cs1 where c: "onReady None (Some md) (cxS s) = Ret cs1" "csReady cs1 = 0"
          "csHeader cs1 = Some md" "csRChClosed cs1 = csRChClosed (cxS s)" "csDone cs1 = csDone (cxS s)"
          using onReady_hdr[OF hdr, of None "Some md"] True by metis
        with it hdr \<open>r = Inr rpc\<close> Inr True have "cs' = cs1" "nx = readLoop_dispatch env rpc"
          by (auto simp: readLoop_iter_def cs_hdr_def)
        with * c live m show ?thesis by (auto simp: cs_live_def cs_hdr_def)
      qed
    qed
  qed
qed

lemma cs_select_RetD:
  assumes "cs_RecvMsg_select env pick off cs = Ret x"
  shows "case x of
      SelDone e \<Rightarrow> (\<exists>ce. ctxErr (csCtx cs) = Some ce \<and> e = toStatusError env ce)
    | SelBody b \<Rightarrow> off = Some b
    | SelClosed \<Rightarrow> off = None \<and> csRChClosed cs"
  using select2_RetD[OF assms[unfolded cs_RecvMsg_select_def]]
  by (auto split: option.splits if_splits)

lemma cs_inv_step:
  assumes inv: "cs_inv env s" and step: "cs_step env cd wr td s t"
  shows "cs_inv env t"
  using step
proof cases
  case (cs_read r)
  with inv show ?thesis by (auto simp: cs_inv_def)
next
  case (cs_iter r nx cs')
  with cs_inv_iter[OF inv] show ?thesis by simp
next
  case (cs_send_done b e)
  with inv cs_run_not_malformed[of env "cxRead s"] show ?thesis
    by (auto simp: cs_inv_def cs_outcome_def cs_hdr_def)
next
  case (cs_close e tr now cs' t')
  with inv show ?thesis
    by (auto simp: cs_inv_def readLoop_close_def cs_live_def ctx_cancel_keeps split: if_splits
        dest!: cs_teardown_Ret intro: cs_outcome_same)
next
  case (cs_finish e tr)
  with inv show ?thesis by (auto simp: cs_inv_def readLoop_end_def intro: cs_outcome_same)
next
  case (recv_body pick b r cs')
  then have "cxReader s = LSend b"
    using cs_select_RetD[of env pick "cs_offer s" "cxS s"] by (auto simp: cs_offer_def split: loop_pc.splits)
  with recv_body inv cs_RecvMsg_body_same[of cd b "cxS s"] show ?thesis
    by (cases "cxRead s = []") (auto simp: cs_inv_def cs_same_def cs_live_def cs_hdr_def)
next
  case (recv_closed pick)
  with inv cs_select_RetD[of env pick "cs_offer s" "cxS s"] show ?thesis by (auto intro: cs_inv_recv)
next
  case (send_msg now msg e cs' t')
  with inv cs_inv_same[OF inv cs_SendMsg_same] show ?thesis by simp
next
  case (close_send e cs' t')
  with inv cs_inv_same[OF inv cs_CloseSend_same] show ?thesis by simp
next
  case (ctx_end e)
  with inv show ?thesis by (auto intro: cs_inv_same simp: cs_same_def)
qed (use inv in \<open>auto intro: cs_inv_recv simp: cs_inv_recv\<close>)

interpretation csys: invariant_system cs_init "cs_step env cd wr td" "cs_inv env" for env cd wr td
proof unfold_locales
  show "cs_init s \<Longrightarrow> cs_inv env s" for s :: "'t cs_sys"
    by (auto simp: cs_init_def cs_inv_def cs_live_def cs_hdr_def NewStream_def)
qed (rule cs_inv_step)

lemmas reach_cs_inv = csys.reach_inv

section \<open>What the operations send\<close>

context rpc_writer
begin

text \<open>Over any transport, the end of the read loop sends at most the reset message, and only when the
  context ended before the trailer came.\<close>

lemma cs_teardown_sent:
  assumes "cs_teardown wr td now rst cs t = Ret (cs', t')"
    and td: "\<And>u u'. td u = Ret u' \<Longrightarrow> sent u' = sent u"
  shows "sent t' = sent t \<or>
    rst \<and> sent t' = sent t @ [(cs_rpc cs)\<lparr>rpcReset := Some \<lparr>rType = ''RST_STREAM''\<rparr>\<rparr>]"
proof (cases rst)
  case False
  with assms(1) show ?thesis by (auto simp: cs_teardown_def go_bind_Ret_iff dest: td)
next
  case True
  then obtain ctx err t1 where
    w: "wr ctx ((cs_rpc cs)\<lparr>rpcReset := Some \<lparr>rType = ''RST_STREAM''\<rparr>\<rparr>) t = Ret (err, t1)" and "td t1 = Ret t'"
    using assms(1) by (auto simp: cs_teardown_def go_bind_Ret_iff)
  then have "sent t' = sent t1" by (simp add: td)
  with w True show ?thesis by (cases err) (simp_all add: write_nil write_err)
qed

lemma cs_rpc_close [simp]: "cs_rpc (cs\<lparr>csRChClosed := c\<rparr>) = cs_rpc cs"
  by (simp add: cs_rpc_def)

lemma readLoop_close_sent:
  assumes "readLoop_close wr td now tr cs t = Ret (cs', t')"
    and td: "\<And>u u'. td u = Ret u' \<Longrightarrow> sent u' = sent u"
  shows "ctx_done (csCtx cs') \<and>
    (sent t' = sent t \<or>
     tr = None \<and> ctx_done (csCtx cs) \<and>
     sent t' = sent t @ [(cs_rpc cs)\<lparr>rpcReset := Some \<lparr>rType = ''RST_STREAM''\<rparr>\<rparr>])"
proof -
  have close: "cs_teardown wr td now (tr = None \<and> ctx_done (csCtx cs)) (cs\<lparr>csRChClosed := True\<rparr>) t = Ret (cs', t')"
    using assms(1) by (simp add: readLoop_close_def split: if_splits)
  from cs_teardown_Ret[OF close] cs_teardown_sent[OF close td] show ?thesis by simp
qed

text \<open>\<open>SendMsg\<close> on a live stream: on success exactly the message's body under the stream's id; on an
  error nothing, and the stream's context is cancelled.\<close>

lemma cs_abort_sent:
  assumes "go_bind (cs_teardown wr td now False cs t) (\<lambda>(cs1, t1). Ret (Some err, cs1, t1)) = Ret (e, cs', t')"
    and td: "\<And>u u'. td u = Ret u' \<Longrightarrow> sent u' = sent u"
  shows "e = Some err \<and> sent t' = sent t \<and> ctx_done (csCtx cs')"
proof -
  from assms(1) have "e = Some err" and c: "cs_teardown wr td now False cs t = Ret (cs', t')"
    by (auto simp: go_bind_Ret_iff)
  with cs_teardown_Ret[OF c] cs_teardown_sent[OF c td] show ?thesis by simp
qed

lemma cs_SendMsg_sent:
  assumes s: "cs_SendMsg cd wr td now msg cs t = Ret (e, cs', t')" and live: "\<not> csDone cs"
    and td: "\<And>u u'. td u = Ret u' \<Longrightarrow> sent u' = sent u"
  shows "case e of
      None \<Rightarrow> \<exists>body. Marshal cd msg = Inr body \<and>
        sent t' = sent t @ [(cs_rpc cs)\<lparr>rpcBody := Some \<lparr>bData = Materialize cd body\<rparr>\<rparr>]
    | Some err \<Rightarrow> sent t' = sent t \<and> ctx_done (csCtx cs')"
proof (cases "Marshal cd msg")
  case (Inl err)
  with s live have "go_bind (cs_teardown wr td now False cs t) (\<lambda>(cs1, t1). Ret (Some err, cs1, t1)) = Ret (e, cs', t')"
    by (simp add: cs_SendMsg_def cs_readErrorIfDone_def)
  from cs_abort_sent[OF this td] show ?thesis by simp
next
  case (Inr body)
  let ?rpc = "(cs_rpc cs)\<lparr>rpcBody := Some \<lparr>bData = Materialize cd body\<rparr>\<rparr>"
  from s live Inr obtain err t1 where w: "wr (csCtx cs) ?rpc t = Ret (err, t1)"
    by (auto simp: cs_SendMsg_def cs_readErrorIfDone_def go_bind_Ret_iff)
  show ?thesis
  proof (cases err)
    case None
    with s live Inr w write_nil[of "csCtx cs" ?rpc t t1] show ?thesis
      by (auto simp: cs_SendMsg_def cs_readErrorIfDone_def)
  next
    case (Some er)
    with s live Inr w have "go_bind (cs_teardown wr td now False cs t1) (\<lambda>(cs1, t1). Ret (Some er, cs1, t1)) = Ret (e, cs', t')"
      by (simp add: cs_SendMsg_def cs_readErrorIfDone_def)
    from cs_abort_sent[OF this td] Some w show ?thesis by (simp add: write_err)
  qed
qed

end

section \<open>Concrete runs\<close>

text \<open>A transport that keeps what is written to it, for the witnesses.\<close>

definition list_write :: "Rpc list writer" where
  "list_write ctx rpc t = Ret (None, t @ [rpc])"

definition demo_stream :: clientStream where
  "demo_stream = NewStream Background 1 ''/s/m'' ''a'' ''b'' 0"

definition demo_cs :: "clientStream \<Rightarrow> loop_pc \<Rightarrow> (gerr + Rpc) list \<Rightarrow> Rpc list cs_sys" where
  "demo_cs cs pc rd =
     \<lparr>cxS = cs, cxT = [], cxReader = pc, cxRecv = VIdle, cxRead = rd, cxGot = [], cxResults = []\<rparr>"

abbreviation demo_cs_reach :: "Rpc list cs_sys \<Rightarrow> bool" where
  "demo_cs_reach \<equiv> reach cs_init (cs_step sample_env sample_codec list_write Ret)"

text \<open>A stream that reads one response after which the loop returns.\<close>

lemma demo_cs_exit:
  assumes "readLoop_iter sample_env (Inr rpc) demo_stream = Ret (LoopReturn e tr, cs)"
    and "csCtx cs = Background" "\<not> csRChClosed cs"
  shows "demo_cs_reach (demo_cs (readLoop_end e tr (cs\<lparr>csRChClosed := True, csCtx := ctx_cancel Background\<rparr>))
           LExit [Inr rpc])"
proof -
  have "demo_cs_reach (demo_cs demo_stream LRead [])"
    by (rule reach_init) (simp add: cs_init_def demo_cs_def demo_stream_def, blast)
  from reach_step[OF this cs_step.cs_read[of _ _ _ _ _ "Inr rpc"]]
  have "demo_cs_reach (demo_cs demo_stream (LGot (Inr rpc)) [Inr rpc])" by (simp add: demo_cs_def)
  from reach_step[OF this cs_step.cs_iter[of _ "Inr rpc"]] assms(1)
  have "demo_cs_reach (demo_cs cs (LDefer e tr) [Inr rpc])" by (simp add: demo_cs_def loop_goto_def)
  from reach_step[OF this cs_step.cs_close[of _ e tr _ _ 0]] assms(2,3)
  have "demo_cs_reach (demo_cs (cs\<lparr>csRChClosed := True, csCtx := ctx_cancel Background\<rparr>) (LClosed e tr) [Inr rpc])"
    by (simp add: demo_cs_def readLoop_close_def cs_teardown_def ctx_done_def Background_def)
  from reach_step[OF this cs_step.cs_finish[of _ e tr]] show ?thesis by (simp add: demo_cs_def)
qed

definition demo_trailer :: "i32 \<Rightarrow> KeyValue list \<Rightarrow> Rpc" where
  "demo_trailer code hs =
     \<lparr>rpcId = 1, rpcHeader = Some (header_of ''/s/m'' ''b'' ''a'' hs),
      rpcStatus = Some \<lparr>rsCode = code, rsMessage = ''x'', rsDetails = []\<rparr>, rpcBody = None,
      rpcTrailer = Some \<lparr>tMetadata = None\<rparr>, rpcReset = None\<rparr>"

lemma demo_trailer_iter:
  "readLoop_iter sample_env (Inr (demo_trailer code [])) demo_stream =
     Ret (readLoop_dispatch sample_env (demo_trailer code []),
          demo_stream\<lparr>csHeader := Some Map.empty, csReady := 0\<rparr>)"
  by (simp add: readLoop_iter_def demo_stream_def NewStream_def demo_trailer_def GetHeaders_def onReady_def
      stats_all_def)

definition bad_kv :: KeyValue where
  "bad_kv = \<lparr>kvKey = ''k-bin'', kvValue = ''!''\<rparr>"

lemma kv_bad_bad_kv [simp]: "kv_bad env bad_kv"
proof -
  have "is_lower_ascii ''k-bin''" and "HasSuffix ''k-bin'' bin_suffix" and "URLDecode ''!'' = None"
    by code_simp+
  then show ?thesis by (simp add: kv_bad_def kv_decode_def bad_kv_def Let_def)
qed

lemma ToMetadata_bad_kv: "ToMetadata sample_env [bad_kv] = Inl (External ''illegal base64 data'')"
  using kv_bad_bad_kv by (simp add: ToMetadata_def kv_bad_def)

lemma demo_malformed_iter:
  "readLoop_iter sample_env (Inr (demo_trailer code [bad_kv])) demo_stream = Ret (LoopReturn None None, demo_stream)"
  by (simp add: readLoop_iter_def demo_stream_def NewStream_def demo_trailer_def GetHeaders_def
      ToMetadata_bad_kv)

lemma demo_stream_sel [simp]:
  "csCtx demo_stream = Background" "csRChClosed demo_stream = False" "csReady demo_stream = 1"
  by (simp_all add: demo_stream_def NewStream_def)

lemma reach_demo_trailer:
  "demo_cs_reach (demo_cs (readLoop_end (snd (errorIfDone sample_env (demo_trailer code [])))
       (Some \<lparr>tMetadata = None\<rparr>)
       (demo_stream\<lparr>csHeader := Some Map.empty, csReady := 0, csRChClosed := True,
          csCtx := ctx_cancel Background\<rparr>)) LExit [Inr (demo_trailer code [])])"
  (is "demo_cs_reach (demo_cs (readLoop_end ?e ?tr _) _ _)")
proof -
  have "readLoop_dispatch sample_env (demo_trailer code []) = LoopReturn ?e ?tr"
    by (simp add: readLoop_dispatch_def errorIfDone_def demo_trailer_def Let_def)
  with demo_cs_exit[of "demo_trailer code []" ?e ?tr] demo_trailer_iter[of code] show ?thesis by simp
qed

lemma reach_demo_malformed:
  "demo_cs_reach (demo_cs (readLoop_end None None
       (demo_stream\<lparr>csRChClosed := True, csCtx := ctx_cancel Background\<rparr>))
     LExit [Inr (demo_trailer code [bad_kv])])"
  using demo_cs_exit[OF demo_malformed_iter, of code] by simp

section \<open>Properties\<close>

text \<open>C4: Every interleaving of a stream's read loop with its receiver, senders and the end of its context
  implements the reference: the bodies received are those of the responses read, in order, with at
  most the last one still to come; and once the loop has returned, the stream's bodies, error and
  trailer are exactly the reference's, unless the context ended while the loop held a body nobody
  took, when the error is the context's.\<close>

theorem cs_stream_refines:
  assumes "reach cs_init (cs_step env cd wr td) s"
  shows "(\<exists>bs. fst (cs_run env True (cxRead s)) = cxGot s @ bs \<and> length bs \<le> 1) \<and>
    (cxReader s = LExit \<longrightarrow>
       cs_run env True (cxRead s) = (cxGot s, Some (csRErr (cxS s), csTrailer (cxS s))) \<or>
       (\<exists>b ce. cs_run env True (cxRead s) = (cxGot s @ [b], None) \<and>
               ctxErr (csCtx (cxS s)) = Some ce \<and> csRErr (cxS s) = toStatusError env ce \<and>
               csTrailer (cxS s) = None))"
proof -
  have inv: "cs_inv env s" by (rule reach_cs_inv[OF assms])
  have one: "length (fst (cs_run env first [r])) \<le> 1" for first r
    by (cases r) (auto split: option.split)
  have snoc: "\<exists>bs. fst (cs_run env True (rd @ [r])) = cxGot s @ bs \<and> length bs \<le> Suc 0"
    if "cs_run env True rd = (cxGot s, None)" for rd r
    using cs_run_snoc[OF that, of r] one[of "True \<and> rd = []" r] by (auto split: prod.splits)
  show ?thesis
    using inv by (cases "cxReader s") (auto simp: cs_inv_def cs_outcome_def intro: snoc)
qed

theorem cs_stream_refines_witness:
  "cs_run sample_env True [Inr (demo_trailer 5 [])] =
     ([], Some (Some (StatusErr \<lparr>stCode = 5, stMessage = ''x'', stDetails = []\<rparr>), Some \<lparr>tMetadata = None\<rparr>))"
  using cs_stream_refines[OF reach_demo_trailer[of 5]]
  by (simp add: demo_cs_def readLoop_end_def errorIfDone_def demo_trailer_def GetCode_def GetMessage_def
      GetDetails_def sample_env_def)



text \<open>C23: The stream never panics: a receiver that sees the channel closed finds the stream done once
  it has the mutex, the \<^verbatim>\<open>WaitGroup\<close> is never released twice, and the channel is never closed twice.\<close>

theorem cs_no_panic:
  assumes "reach cs_init (cs_step env cd wr td) s"
  shows "(cxRecv s = VClosed \<and> cs_mutex_free s \<longrightarrow> cs_RecvMsg_closed (cxS s) \<noteq> Panic) \<and>
    (\<forall>r. cxReader s = LGot r \<longrightarrow> readLoop_iter env r (cxS s) \<noteq> Panic) \<and>
    (\<forall>e tr. cxReader s = LDefer e tr \<longrightarrow> \<not> csRChClosed (cxS s))"
proof (intro conjI allI impI)
  have inv: "cs_inv env s" by (rule reach_cs_inv[OF assms])
  show "cs_RecvMsg_closed (cxS s) \<noteq> Panic" if "cxRecv s = VClosed \<and> cs_mutex_free s"
    using inv that
    by (cases "cxReader s") (auto simp: cs_inv_def cs_mutex_free_def cs_live_def cs_RecvMsg_closed_def
        cs_readErrorIfDone_def)
  show "readLoop_iter env r (cxS s) \<noteq> Panic" if "cxReader s = LGot r" for r
  proof -
    from inv that obtain first where "cs_hdr (cxS s) first" by (auto simp: cs_inv_def)
    then have "onReady e h (cxS s) \<noteq> Panic" for e h using onReady_hdr[of "cxS s" first e h] by fastforce
    then show ?thesis
      by (auto simp: readLoop_iter_def Let_def go_bind_Panic_iff split: sum.splits)
  qed
  show "\<not> csRChClosed (cxS s)" if "cxReader s = LDefer e tr" for e tr
    using inv that by (simp add: cs_inv_def cs_live_def)
qed

theorem cs_no_panic_witness:
  "\<exists>s. demo_cs_reach s \<and> (\<exists>r. cxReader s = LGot r \<and> readLoop_iter sample_env r (cxS s) \<noteq> Panic)"
proof -
  have "demo_cs_reach (demo_cs demo_stream LRead [])"
    by (rule reach_init) (simp add: cs_init_def demo_cs_def demo_stream_def, blast)
  from reach_step[OF this cs_step.cs_read[of _ _ _ _ _ "Inl EOF"]]
  have r: "demo_cs_reach (demo_cs demo_stream (LGot (Inl EOF)) [Inl EOF])" by (simp add: demo_cs_def)
  from cs_no_panic[OF r] r show ?thesis
    by (intro exI[of _ "demo_cs demo_stream (LGot (Inl EOF)) [Inl EOF]"]) (simp add: demo_cs_def)
qed

text \<open>C38: When the read loop has returned, \<open>Header\<close> returns, unless the first response had headers that
  do not decode: then, in every later state, \<open>Header\<close> blocks and \<open>RecvMsg\<close> returns a nil error
  without having received a message.\<close>

theorem cs_header_released:
  assumes "reach cs_init (cs_step env cd wr td) s" and "cxReader s = LExit"
  shows "(cs_Header (cxS s) = Block \<longleftrightarrow> malformed env (cxRead s)) \<and>
    (malformed env (cxRead s) \<longrightarrow> cs_readErrorIfDone (cxS s) = (True, None) \<and> cxGot s = [])"
proof -
  have "cs_inv env s" by (rule reach_cs_inv[OF assms(1)])
  then have d: "csDone (cxS s)" and o: "cs_outcome env (cxS s) (cxRead s) (cxGot s) (csRErr (cxS s)) (csTrailer (cxS s))"
    using assms(2) by (auto simp: cs_inv_def)
  have "cs_run env True (cxRead s) = ([], Some (None, None))" if "malformed env (cxRead s)"
    using that by (cases "(env, cxRead s)" rule: malformed.cases) auto
  with d o show ?thesis by (auto simp: cs_Header_def cs_readErrorIfDone_def cs_outcome_def)
qed

theorem cs_header_released_witness:
  "\<exists>s. demo_cs_reach s \<and> cxReader s = LExit \<and> cs_Header (cxS s) = Block \<and>
       cs_readErrorIfDone (cxS s) = (True, None)"
proof (intro exI conjI)
  show "demo_cs_reach (demo_cs (readLoop_end None None
       (demo_stream\<lparr>csRChClosed := True, csCtx := ctx_cancel Background\<rparr>))
     LExit [Inr (demo_trailer 0 [bad_kv])])" (is "reach _ _ ?s")
    by (rule reach_demo_malformed)
  from cs_header_released[OF this]
  show "cs_Header (cxS ?s) = Block" "cs_readErrorIfDone (cxS ?s) = (True, None)" "cxReader ?s = LExit"
    by (simp_all add: demo_cs_def demo_trailer_def GetHeaders_def)
qed

text \<open>Over the channel transport, \<open>SendMsg\<close> on a stream that is not done either puts exactly one
  message on the wire, the marshalled body under the stream's id and addresses, or puts nothing there
  and cancels the stream's context.\<close>

lemma cs_SendMsg_wire:
  assumes "cs_SendMsg cd (goc_write pick) td now msg cs t = Ret (e, cs', t')" and "\<not> csDone cs"
    and "\<And>u u'. td u = Ret u' \<Longrightarrow> buf (outQ u') = buf (outQ u)"
  shows "case e of
      None \<Rightarrow> \<exists>body. Marshal cd msg = Inr body \<and>
        buf (outQ t') = buf (outQ t) @ [(cs_rpc cs)\<lparr>rpcBody := Some \<lparr>bData = Materialize cd body\<rparr>\<rparr>]
    | Some err \<Rightarrow> buf (outQ t') = buf (outQ t) \<and> ctx_done (csCtx cs')"
  by (rule goc.cs_SendMsg_sent[OF assms(1,2)]) (rule assms(3))

text \<open>When the read loop ends, the stream's context is cancelled, and over the channel transport at
  most one message is sent: the reset, and only if the context had ended without a trailer.\<close>

lemma cs_reset_wire:
  assumes "readLoop_close (goc_write pick) td now tr cs t = Ret (cs', t')"
    and "\<And>u u'. td u = Ret u' \<Longrightarrow> buf (outQ u') = buf (outQ u)"
  shows "ctx_done (csCtx cs') \<and>
    (buf (outQ t') = buf (outQ t) \<or>
     tr = None \<and> ctx_done (csCtx cs) \<and>
     buf (outQ t') = buf (outQ t) @ [(cs_rpc cs)\<lparr>rpcReset := Some \<lparr>rType = ''RST_STREAM''\<rparr>\<rparr>])"
  by (rule goc.readLoop_close_sent[OF assms(1)]) (rule assms(2))

end
