(* ===== verification/Goat_Client.thy ===== *)
theory Goat_Client
  imports Goat_Mux Goat_Client_Stream
begin

text \<open>
  The client connection, \<^verbatim>\<open>client.go\<close> and \<^verbatim>\<open>dialoption.go\<close>: dial options, unary calls through the
  multiplexer and the opening of streams. The state behind a connection is the multiplexer's and the
  transport's. What the rest of the program (the read loop, the peer) does while a unary call waits
  is the parameter \<open>others\<close>, which also says whether the call's context has ended meanwhile.
\<close>

section \<open>Connections and dial options\<close>

datatype call_option = StaticMethodCallOption | OtherCallOption

type_synonym 't world = "RpcMultiplexer \<times> 't"

text \<open>The result of a unary call: an error or the decoded reply, the stats events, the new state.\<close>

type_synonym ('m, 't) invoker =
  "Context \<Rightarrow> string \<Rightarrow> 'm \<Rightarrow> call_option list \<Rightarrow> 't world \<Rightarrow> ((gerr + 'm) \<times> trace \<times> 't world) go"

type_synonym 't streamer =
  "Context \<Rightarrow> StreamDesc \<Rightarrow> string \<Rightarrow> call_option list \<Rightarrow> 't world \<Rightarrow>
   ((gerr + clientStream) \<times> trace \<times> 't world) go"

text \<open>Interceptors are application code: they get the next invoker and may call it.\<close>

record ('m, 't) ClientConn =
  unaryInterceptor :: "(('m, 't) invoker \<Rightarrow> ('m, 't) invoker) option"
  streamInterceptor :: "('t streamer \<Rightarrow> 't streamer) option"
  sourceAddress :: string
  destAddress :: string
  statsHandlers :: nat

type_synonym ('m, 't) DialOption = "('m, 't) ClientConn \<Rightarrow> ('m, 't) ClientConn"

definition WithUnaryInterceptor :: "(('m, 't) invoker \<Rightarrow> ('m, 't) invoker) \<Rightarrow> ('m, 't) DialOption" where
  "WithUnaryInterceptor i cc = cc\<lparr>unaryInterceptor := Some i\<rparr>"

definition WithStreamInterceptor :: "('t streamer \<Rightarrow> 't streamer) \<Rightarrow> ('m, 't) DialOption" where
  "WithStreamInterceptor i cc = cc\<lparr>streamInterceptor := Some i\<rparr>"

definition WithStatsHandler :: "('m, 't) DialOption" where
  "WithStatsHandler cc = cc\<lparr>statsHandlers := statsHandlers cc + 1\<rparr>"

definition NewClientConn ::
  "string \<Rightarrow> string \<Rightarrow> ('m, 't) DialOption list \<Rightarrow> ('m, 't) ClientConn \<times> RpcMultiplexer \<times> trace" where
  "NewClientConn source dest opts =
     (let cc = fold (\<lambda>opt cc. opt cc) opts
                 \<lparr>unaryInterceptor = None, streamInterceptor = None, sourceAddress = source,
                  destAddress = dest, statsHandlers = 0\<rparr>
      in (cc, NewRpcMultiplexer, stats_all (statsHandlers cc) [EvTagConn, EvConnBegin True]))"

definition cc_Close :: "('m, 't) ClientConn \<Rightarrow> trace" where
  "cc_Close cc = stats_all (statsHandlers cc) [EvConnEnd True]"

section \<open>Request headers\<close>

definition timeout_key :: string where
  "timeout_key = ''GRPC-Timeout''"

text \<open>The milliseconds a deadline leaves, at least one.\<close>

definition timeout_ms :: "int \<Rightarrow> int \<Rightarrow> int" where
  "timeout_ms deadline now =
     (let ms = go_quot (sint (time_Until deadline now)) (10 ^ 6) in if ms \<le> 0 then 1 else ms)"

definition headersFromContext :: "env \<Rightarrow> int \<Rightarrow> Context \<Rightarrow> KeyValue list" where
  "headersFromContext env now ctx =
     (case ctxOutgoing ctx of Some md \<Rightarrow> ToKeyValue env [md] | None \<Rightarrow> []) @
     (case ctxDeadline ctx of
        Some deadline \<Rightarrow> [\<lparr>kvKey = timeout_key, kvValue = format_d (timeout_ms deadline now) @ ''m''\<rparr>]
      | None \<Rightarrow> [])"

section \<open>Unary calls\<close>

text \<open>The \<^verbatim>\<open>select\<close> a unary call waits in, on its response channel and its context.\<close>

definition unary_wait ::
  "env \<Rightarrow> bool \<Rightarrow> nat \<Rightarrow> RequestHeader \<Rightarrow> nat \<Rightarrow> Context \<times> 't world \<Rightarrow>
   ((Body option \<times> gerr option) \<times> trace \<times> 't world) go" where
  "unary_wait env pick n header respChan cw =
     (case cw of (ctx, (m, t)) \<Rightarrow>
        select2 pick
          (go_bind (chan_recv (chans m ! respChan)) (\<lambda>(v, ch).
             let m' = m\<lparr>chans := (chans m)[respChan := ch]\<rparr>
             in case v of
                  None \<Rightarrow> Ret ((None, Some (Errorf ''respChan closed'')), [], (m', t))
                | Some resp \<Rightarrow>
                    go_bind (unary_reply env n header resp) (\<lambda>(r, tr). Ret (r, tr, (m', t)))))
          (on_done ctx (\<lambda>e. ((None, Some e), [], (m, t)))))"

text \<open>The multiplexer's part of a unary call, from its check of the read error to the deferred
  \<open>unregisterHandler\<close>.\<close>

definition CallUnaryMethod ::
  "env \<Rightarrow> 't writer \<Rightarrow> (Context \<Rightarrow> 't world \<Rightarrow> (Context \<times> 't world) go) \<Rightarrow> bool \<Rightarrow> nat \<Rightarrow> Context \<Rightarrow>
   RequestHeader \<Rightarrow> Body \<Rightarrow> 't world \<Rightarrow> ((Body option \<times> gerr option) \<times> trace \<times> 't world) go" where
  "CallUnaryMethod env wr others pick n ctx header body w =
     (case w of (m, t) \<Rightarrow>
      case readErrorIfDone m of
        Some e \<Rightarrow> Ret ((None, Some e), [], w)
      | None \<Rightarrow>
          (case newStreamId m of (sid, respChan, m1) \<Rightarrow>
           let m2 = registerHandler sid respChan m1;
               rpc = \<lparr>rpcId = sid, rpcHeader = Some header, rpcStatus = None, rpcBody = Some body,
                      rpcTrailer = None, rpcReset = None\<rparr>
           in go_bind
                (go_bind (wr ctx rpc t) (\<lambda>(err, t1).
                   case err of
                     Some e \<Rightarrow> Ret ((None, Some e), [], (m2, t1))
                   | None \<Rightarrow>
                       go_bind (others ctx (m2, t1)) (unary_wait env pick n header respChan)))
                (\<lambda>(r, tr, (m5, t5)).
                   go_bind (unregisterHandler sid m5) (\<lambda>m6. Ret (r, tr, (m6, t5))))))"

text \<open>The check of the call options that \<open>invoke\<close> and \<open>newStream\<close> begin with.\<close>

definition opts_supported :: "call_option list \<Rightarrow> bool" where
  "opts_supported opts \<longleftrightarrow>
     \<not> length opts > 1 \<and> (length opts = 1 \<longrightarrow> hd opts = StaticMethodCallOption)"

text \<open>What a finished call does with the reply body: a nil body is dereferenced.\<close>

definition decode_reply :: "'m codec \<Rightarrow> nat \<Rightarrow> Body option \<Rightarrow> ((gerr + 'm) \<times> trace) go" where
  "decode_reply cd n replyBody =
     (case replyBody of
        None \<Rightarrow> Panic
      | Some b \<Rightarrow>
          Ret (Unmarshal cd (bData b), stats_all n [EvInPayload True (nil_len (bData b))]))"

definition err_of :: "gerr + 'a \<Rightarrow> gerr option" where
  "err_of r = (case r of Inl e \<Rightarrow> Some e | Inr x \<Rightarrow> None)"

definition cc_invoke ::
  "env \<Rightarrow> 'm codec \<Rightarrow> tagger \<Rightarrow> 't writer \<Rightarrow> (Context \<Rightarrow> 't world \<Rightarrow> (Context \<times> 't world) go) \<Rightarrow> bool \<Rightarrow>
   int \<Rightarrow> ('m, 't) ClientConn \<Rightarrow> ('m, 't) invoker" where
  "cc_invoke env cd tag wr others pick now cc ctx0 method args opts w =
     (if \<not> opts_supported opts then Panic
      else
        let n = statsHandlers cc;
            (ctx, tr0) = StatsStartServerRPC tag n True method False False ctx0;
            headers = headersFromContext env now ctx
        in case Marshal cd args of
             Inl err \<Rightarrow> Ret (Inl err, tr0 @ StatsEndRPC n True (Some err), w)
           | Inr body \<Rightarrow>
               let mdHeaders = (case ToMetadata env headers of Inl e \<Rightarrow> Map.empty | Inr md \<Rightarrow> md);
                   tr1 = stats_all n [EvOutHeader True method mdHeaders, EvOutPayload True (length body)]
               in go_bind
                    (CallUnaryMethod env wr others pick n ctx
                       (header_of method (sourceAddress cc) (destAddress cc) headers)
                       \<lparr>bData = Materialize cd body\<rparr> w)
                    (\<lambda>((replyBody, err), tr2, w1).
                       case err of
                         Some e \<Rightarrow> Ret (Inl e, tr0 @ tr1 @ tr2 @ StatsEndRPC n True (Some e), w1)
                       | None \<Rightarrow>
                           go_bind (decode_reply cd n replyBody) (\<lambda>(r, tr3).
                             Ret (r, tr0 @ tr1 @ tr2 @ tr3 @ StatsEndRPC n True (err_of r), w1))))"

definition cc_Invoke ::
  "env \<Rightarrow> 'm codec \<Rightarrow> tagger \<Rightarrow> 't writer \<Rightarrow> (Context \<Rightarrow> 't world \<Rightarrow> (Context \<times> 't world) go) \<Rightarrow> bool \<Rightarrow>
   int \<Rightarrow> ('m, 't) ClientConn \<Rightarrow> ('m, 't) invoker" where
  "cc_Invoke env cd tag wr others pick now cc =
     (case unaryInterceptor cc of
        Some i \<Rightarrow> i (cc_invoke env cd tag wr others pick now cc)
      | None \<Rightarrow> cc_invoke env cd tag wr others pick now cc)"

section \<open>Streams\<close>

text \<open>\<open>NewStreamReadWriter\<close>: the id of a fresh stream and the index of its response channel.\<close>

definition NewStreamReadWriter :: "RpcMultiplexer \<Rightarrow> (gerr + u64 \<times> nat) \<times> RpcMultiplexer" where
  "NewStreamReadWriter m =
     (case readErrorIfDone m of
        Some e \<Rightarrow> (Inl e, m)
      | None \<Rightarrow> (case newStreamId m of (sid, c, m1) \<Rightarrow> (Inr (sid, c), registerHandler sid c m1)))"

text \<open>The writer a stream gets, over the multiplexer and the transport.\<close>

definition mux_writer :: "'t writer \<Rightarrow> 't world writer" where
  "mux_writer wr ctx rpc w =
     (case w of (m, t) \<Rightarrow> go_bind (stream_write wr ctx rpc m t) (\<lambda>(err, t1). Ret (err, (m, t1))))"

text \<open>And its teardown.\<close>

definition mux_teardown :: "u64 \<Rightarrow> 't world \<Rightarrow> 't world go" where
  "mux_teardown sid w = (case w of (m, t) \<Rightarrow> go_bind (unregisterHandler sid m) (\<lambda>m1. Ret (m1, t)))"

definition cc_newStream ::
  "env \<Rightarrow> tagger \<Rightarrow> 't writer \<Rightarrow> int \<Rightarrow> ('m, 't) ClientConn \<Rightarrow> 't streamer" where
  "cc_newStream env tag wr now cc ctx0 desc method opts w =
     (if \<not> opts_supported opts then Panic
      else
        case NewStreamReadWriter (fst w) of
          (Inl err, m1) \<Rightarrow> Ret (Inl err, [], (m1, snd w))
        | (Inr (sid, c), m1) \<Rightarrow>
            let n = statsHandlers cc;
                ctx = fold (\<lambda>i ctx. tag i method ctx) [0..<n] ctx0;
                tr0 = stats_all n [EvTagRPC method, EvBegin True (ClientStreams desc) (ServerStreams desc)];
                headers = headersFromContext env now ctx;
                rpc = \<lparr>rpcId = sid,
                       rpcHeader = Some (header_of method (sourceAddress cc) (destAddress cc) headers),
                       rpcStatus = None, rpcBody = None, rpcTrailer = None, rpcReset = None\<rparr>
            in go_bind (mux_writer wr ctx rpc (m1, snd w)) (\<lambda>(err, w1).
                 case err of
                   Some e \<Rightarrow> Ret (Inl e, tr0 @ stats_all n [EvEnd True (Some e)], w1)
                 | None \<Rightarrow>
                     let md = (case ToMetadata env headers of Inl e \<Rightarrow> Map.empty | Inr m \<Rightarrow> m)
                     in Ret (Inr (NewStream ctx sid method (sourceAddress cc) (destAddress cc) n),
                             tr0 @ stats_all n [EvOutHeader True method md], w1)))"

definition cc_NewStream ::
  "env \<Rightarrow> tagger \<Rightarrow> 't writer \<Rightarrow> int \<Rightarrow> ('m, 't) ClientConn \<Rightarrow> 't streamer" where
  "cc_NewStream env tag wr now cc =
     (case streamInterceptor cc of
        Some i \<Rightarrow> i (cc_newStream env tag wr now cc)
      | None \<Rightarrow> cc_newStream env tag wr now cc)"

section \<open>Lemmas\<close>

text \<open>The timeout sent is the time left in whole milliseconds, and one when less is left.\<close>

lemma timeout_ms_bounds:
  assumes "deadline - now < 2 ^ 63" and "10 ^ 6 \<le> deadline - now"
  shows "timeout_ms deadline now * 10 ^ 6 \<le> deadline - now"
    and "deadline - now < (timeout_ms deadline now + 1) * 10 ^ 6"
    and "0 < timeout_ms deadline now" and "timeout_ms deadline now < 2 ^ 63"
proof -
  let ?d = "deadline - now"
  have "sint (time_Until deadline now) = ?d" using assms by (simp add: sint_time_Until)
  then have ms: "timeout_ms deadline now = ?d div 10 ^ 6"
    using assms(2) by (auto simp: timeout_ms_def go_quot_def Let_def)
  show "timeout_ms deadline now * 10 ^ 6 \<le> ?d" "?d < (timeout_ms deadline now + 1) * 10 ^ 6"
    unfolding ms by auto
  show "0 < timeout_ms deadline now" "timeout_ms deadline now < 2 ^ 63"
    unfolding ms using assms by auto
qed

lemma timeout_ms_short: "deadline - now < 10 ^ 6 \<Longrightarrow> timeout_ms deadline now = 1"
proof -
  assume a: "deadline - now < 10 ^ 6"
  let ?x = "sint (time_Until deadline now)"
  have "?x < 10 ^ 6" using a by (simp add: sint_time_Until)
  then have "go_quot ?x (10 ^ 6) \<le> 0"
    by (cases "0 \<le> ?x") (auto simp: go_quot_def sgn_if pos_imp_zdiv_nonneg_iff)
  then show ?thesis by (simp add: timeout_ms_def Let_def)
qed

lemma unregisterHandler_removes: "unregisterHandler sid m = Ret m' \<Longrightarrow> handlers m' sid = None"
  by (auto simp: unregisterHandler_def go_bind_Ret_iff split: option.splits)

text \<open>A unary call that gets a response before its context ends.\<close>

lemma CallUnaryMethod_reply:
  assumes "readErrorIfDone m = None" and "newStreamId m = (sid, c, m1)"
    and "wr ctx \<lparr>rpcId = sid, rpcHeader = Some header, rpcStatus = None, rpcBody = Some body,
                rpcTrailer = None, rpcReset = None\<rparr> t = Ret (None, t1)"
    and "others ctx (registerHandler sid c m1, t1) = Ret (ctx', (m3, t2))"
    and "chan_recv (chans m3 ! c) = Ret (Some resp, ch)" and "ctxErr ctx' = None"
    and "unary_reply env n header resp = Ret (r, tr)"
    and "unregisterHandler sid (m3\<lparr>chans := (chans m3)[c := ch]\<rparr>) = Ret m6"
  shows "CallUnaryMethod env wr others pick n ctx header body (m, t) = Ret (r, tr, (m6, t2))"
  using assms by (simp add: CallUnaryMethod_def unary_wait_def on_done_def)

lemma unary_reply_ok_status:
  "err_ok env \<Longrightarrow> rpcStatus resp = Some st \<Longrightarrow> rsCode st = code_OK \<Longrightarrow>
   \<exists>tr. unary_reply env 0 header resp = Ret ((None, None), tr)"
  by (simp add: unary_reply_def err_okD)

text \<open>The trace of a call between its begin and its end event.\<close>

fun mid_event :: "stats_event \<Rightarrow> bool" where
  "mid_event (EvTagRPC _) = False"
| "mid_event (EvBegin _ _ _) = False"
| "mid_event (EvEnd _ _) = False"
| "mid_event _ = True"

lemma mid_stats_all: "(\<forall>p \<in> set (stats_all n evs). mid_event (snd p)) \<longleftrightarrow> n = 0 \<or> (\<forall>ev \<in> set evs. mid_event ev)"
  by (auto simp: stats_all_def)

lemma unary_reply_trace:
  "unary_reply env n header resp = Ret (r, tr) \<Longrightarrow> \<forall>p \<in> set tr. mid_event (snd p)"
  by (auto simp: unary_reply_def Let_def stats_all_def split: if_splits option.splits)

lemma unary_wait_trace:
  assumes "unary_wait env pick n header c cw = Ret (r, tr, w')"
  shows "\<forall>p \<in> set tr. mid_event (snd p)"
proof -
  obtain ctx m t where cw: "cw = (ctx, (m, t))" by (cases cw) auto
  from select2_RetD[OF assms[unfolded unary_wait_def cw prod.case]] show ?thesis
    by (auto simp: Let_def go_bind_Ret_iff split: option.splits dest: unary_reply_trace)
qed

lemma CallUnaryMethod_trace:
  assumes "CallUnaryMethod env wr others pick n ctx header body (w :: 't world) = Ret (r, tr, w')"
  shows "\<forall>p \<in> set tr. mid_event (snd p)"
proof -
  obtain m t where w: "w = (m, t)" by (cases w)
  obtain sid c m1 where n: "newStreamId m = (sid, c, m1)" by (cases "newStreamId m")
  from assms have "tr = [] \<or> (\<exists>cw (w1 :: 't world). unary_wait env pick n header c cw = Ret (r, tr, w1))"
    by (auto simp: CallUnaryMethod_def Let_def go_bind_Ret_iff w n split: option.splits)
  then show ?thesis by (auto dest: unary_wait_trace)
qed

lemma cc_invoke_trace:
  assumes "cc_invoke env cd tag wr others pick now cc ctx0 method args opts w = Ret (r, tr, w')"
  shows "\<exists>mids. tr = stats_all (statsHandlers cc) [EvTagRPC method, EvBegin True False False] @ mids @
      StatsEndRPC (statsHandlers cc) True (err_of r) \<and> (\<forall>p \<in> set mids. mid_event (snd p))"
proof -
  let ?n = "statsHandlers cc"
  obtain ctx where st: "StatsStartServerRPC tag ?n True method False False ctx0 =
      (ctx, stats_all ?n [EvTagRPC method, EvBegin True False False])"
    by (cases "?n = 0") (simp_all add: StatsStartServerRPC_def, simp add: stats_all_def)
  show ?thesis
  proof (cases "Marshal cd args")
    case (Inl e)
    with assms st show ?thesis
      by (intro exI[of _ "[]"]) (auto simp: cc_invoke_def err_of_def Let_def split: if_splits)
  next
    case (Inr body)
    let ?tr1 = "\<lambda>md. stats_all ?n [EvOutHeader True method md, EvOutPayload True (length body)]"
    have mid1: "\<forall>p \<in> set (?tr1 md). mid_event (snd p)" for md
      using mid_stats_all[of ?n "[EvOutHeader True method md, EvOutPayload True (length body)]"] by simp
    let ?hs = "headersFromContext env now ctx"
    let ?md = "case ToMetadata env ?hs of Inl e \<Rightarrow> Map.empty | Inr md \<Rightarrow> md"
    from assms st Inr obtain replyBody err tr2 w1 where
      c: "CallUnaryMethod env wr others pick ?n ctx
            (header_of method (sourceAddress cc) (destAddress cc) ?hs) \<lparr>bData = Materialize cd body\<rparr> w =
          Ret ((replyBody, err), tr2, w1)"
      by (auto simp: cc_invoke_def Let_def go_bind_Ret_iff split: if_splits)
    note mid2 = CallUnaryMethod_trace[OF c]
    show ?thesis
    proof (cases err)
      case (Some e)
      with assms st Inr c mid1[of ?md] mid2 show ?thesis
        by (intro exI[of _ "?tr1 ?md @ tr2"]) (auto simp: cc_invoke_def err_of_def Let_def split: if_splits)
    next
      case None
      with assms st Inr c obtain tr3 where d: "decode_reply cd ?n replyBody = Ret (r, tr3)" and
        tr: "tr = stats_all ?n [EvTagRPC method, EvBegin True False False] @
                 ?tr1 ?md @ tr2 @ tr3 @ StatsEndRPC ?n True (err_of r)"
        by (auto simp: cc_invoke_def Let_def go_bind_Ret_iff split: if_splits)
      from d obtain k where "tr3 = stats_all ?n [EvInPayload True k]"
        by (auto simp: decode_reply_def split: option.splits)
      then have "\<forall>p \<in> set tr3. mid_event (snd p)" using mid_stats_all[of ?n "[EvInPayload True k]"] by simp
      with tr mid1[of ?md] mid2 show ?thesis
        by (intro exI[of _ "?tr1 ?md @ tr2 @ tr3"]) auto
    qed
  qed
qed

section \<open>Properties\<close>

text \<open>However a unary call ends (response, read error, write error, cancellation), its handler is
  no longer registered with the multiplexer when it returns.\<close>

lemma unary_unregisters:
  assumes "CallUnaryMethod env wr others pick n ctx header body (m, t) = Ret (r, tr, (m', t'))"
    and "readErrorIfDone m = None" and "newStreamId m = (sid, c, m1)"
  shows "handlers m' sid = None"
  using assms
  by (auto simp: CallUnaryMethod_def go_bind_Ret_iff Let_def unregisterHandler_removes)

text \<open>A response whose status has code OK makes \<open>Invoke\<close> dereference a nil body: the call panics.\<close>

lemma invoke_ok_status_panics:
  assumes "opts_supported opts" and "Marshal cd args = Inr bs" and "statsHandlers cc = 0"
    and "err_ok env" and "readErrorIfDone m = None" and "newStreamId m = (sid, c, m1)"
    and wr: "\<And>rpc. wr ctx rpc t = Ret (None, t1 rpc)"
    and oth: "\<And>rpc. others ctx (registerHandler sid c m1, t1 rpc) = Ret (ctx', (m3, t2))"
    and "chan_recv (chans m3 ! c) = Ret (Some resp, ch)" and "ctxErr ctx' = None"
    and "rpcStatus resp = Some st" and "rsCode st = code_OK"
    and "unregisterHandler sid (m3\<lparr>chans := (chans m3)[c := ch]\<rparr>) = Ret m6"
  shows "cc_invoke env cd tag wr others pick now cc ctx method args opts (m, t) = Panic"
proof -
  let ?h = "header_of method (sourceAddress cc) (destAddress cc) (headersFromContext env now ctx)"
  let ?b = "\<lparr>bData = Materialize cd bs\<rparr>"
  let ?rpc = "\<lparr>rpcId = sid, rpcHeader = Some ?h, rpcStatus = None, rpcBody = Some ?b,
     rpcTrailer = None, rpcReset = None\<rparr>"
  obtain tr where u: "unary_reply env 0 ?h resp = Ret ((None, None), tr)"
    using unary_reply_ok_status[OF assms(4,11,12)] by blast
  have "CallUnaryMethod env wr others pick 0 ctx ?h ?b (m, t) = Ret ((None, None), tr, (m6, t2))"
    by (rule CallUnaryMethod_reply[where wr = wr and others = others, OF assms(5,6) wr[of ?rpc] oth[of ?rpc] assms(9,10) u assms(13)])
  with assms(1-3) show ?thesis
    by (simp add: cc_invoke_def StatsStartServerRPC_def decode_reply_def)
qed

text \<open>The witness: the peer's answer to the first call carries \<open>status: OK\<close>.\<close>

text \<open>A stream whose opening write fails is reported as an error, but its handler stays registered:
  the multiplexer keeps an entry, and a channel nobody reads, for a stream that does not exist.\<close>

lemma newStream_leaks_handler:
  assumes "cc_newStream env tag wr now cc ctx desc method opts (m, t) = Ret (Inl e, tr, (m', t'))"
    and "readErrorIfDone m = None" and "newStreamId m = (sid, c, m1)"
  shows "handlers m' sid = Some c"
proof -
  have n: "NewStreamReadWriter m = (Inr (sid, c), registerHandler sid c m1)"
    using assms(2,3) by (simp add: NewStreamReadWriter_def)
  from assms(1) have "\<exists>rpc ctx1 err. mux_writer wr ctx1 rpc (registerHandler sid c m1, t) = Ret (err, (m', t'))"
    by (auto simp: cc_newStream_def n Let_def go_bind_Ret_iff split: if_splits option.splits)
  then have "m' = registerHandler sid c m1" by (auto simp: mux_writer_def go_bind_Ret_iff)
  then show ?thesis by (simp add: registerHandler_def)
qed

text \<open>C39: Every stats handler sees a unary call as one bracket: the tag and the begin event first, one end
  event last, with the call's error (no error for success or \<^verbatim>\<open>io.EOF\<close>), and neither in between.\<close>

theorem invoke_stats_bracket:
  assumes "cc_invoke env cd tag wr others pick now cc ctx method args opts w = Ret (r, tr, w')"
    and "i < statsHandlers cc"
  shows "\<exists>mid. seen_by i tr =
      [EvTagRPC method, EvBegin True False False] @ mid @
      [EvEnd True (case err_of r of None \<Rightarrow> None | Some e \<Rightarrow> if errors_Is e EOF then None else Some e)] \<and>
    (\<forall>ev \<in> set mid. mid_event ev)"
proof -
  obtain mids where "tr = stats_all (statsHandlers cc) [EvTagRPC method, EvBegin True False False] @ mids @
      StatsEndRPC (statsHandlers cc) True (err_of r)" and m: "\<forall>p \<in> set mids. mid_event (snd p)"
    using cc_invoke_trace[OF assms(1)] by blast
  moreover have "\<forall>ev \<in> set (seen_by i mids). mid_event ev" using m by (auto simp: seen_by_def)
  ultimately show ?thesis using assms(2)
    by (intro exI[of _ "seen_by i mids"]) (simp add: StatsEndRPC_def)
qed

theorem invoke_stats_bracket_witness:
  "\<exists>tr w'. cc_invoke sample_env sample_codec (\<lambda>i m ctx. ctx) (\<lambda>ctx rpc t. Ret (Some EOF, t)) (\<lambda>ctx w. Ret (ctx, w))
       True 0 (fst (NewClientConn ''a'' ''b'' [WithStatsHandler]) :: (bytes, unit) ClientConn) Background
       ''/s/m'' [1] [] (NewRpcMultiplexer, ()) = Ret (Inl EOF, tr, w') \<and>
     hd (seen_by 0 tr) = EvTagRPC ''/s/m'' \<and> last (seen_by 0 tr) = EvEnd True None"
  (is "\<exists>tr w'. ?c = _ \<and> _")
proof -
  have "\<exists>tr w'. ?c = Ret (Inl EOF, tr, w')"
    by (simp add: cc_invoke_def opts_supported_def NewClientConn_def WithStatsHandler_def sample_codec_def
        CallUnaryMethod_def NewRpcMultiplexer_def readErrorIfDone_def newStreamId_def registerHandler_def
        unregisterHandler_def chan_close_def StatsStartServerRPC_def)
  then obtain tr w' where c: "?c = Ret (Inl EOF, tr, w')" by blast
  have "0 < statsHandlers (fst (NewClientConn ''a'' ''b'' [WithStatsHandler]) :: (bytes, unit) ClientConn)"
    by (simp add: NewClientConn_def WithStatsHandler_def)
  from invoke_stats_bracket[OF c this] obtain mid where "seen_by 0 tr =
      [EvTagRPC ''/s/m'', EvBegin True False False] @ mid @ [EvEnd True None]"
    by (auto simp: err_of_def)
  then have "hd (seen_by 0 tr) = EvTagRPC ''/s/m''" and "last (seen_by 0 tr) = EvEnd True None" by simp_all
  with c show ?thesis by blast
qed

end
