(* ===== verification/Goat_Server_Stream.thy ===== *)
theory Goat_Server_Stream
  imports Goat_Transport
begin

text \<open>
  The server side of a stream, \<^verbatim>\<open>internal/server/stream.go\<close>, and the transport streams of
  \<^verbatim>\<open>internal/server/transport_stream.go\<close> through which handlers set headers and trailers. Both kinds of
  stream collect headers until they are sent; that contract is the locale \<open>header_sink\<close>, interpreted
  on each.
\<close>

section \<open>serverStream\<close>

record serverStream =
  ssCtx :: Context
  ssId :: u64
  ssMethod :: string
  ssSrc :: string
  ssDst :: string
  ssHandlers :: nat
  ssHeaders :: "MD list"
  ssHeadersSent :: bool
  ssTrailers :: "MD list"
  ssTrailersSent :: bool
  ssStats :: trace

type_synonym 't rpc_write = "Context \<Rightarrow> Rpc \<Rightarrow> 't \<Rightarrow> (gerr option \<times> 't) go"
type_synonym 't rpc_read = "Context \<Rightarrow> 't \<Rightarrow> ((gerr + Rpc) \<times> 't) go"

definition NewServerStream ::
  "Context \<Rightarrow> u64 \<Rightarrow> string \<Rightarrow> string \<Rightarrow> string \<Rightarrow> nat \<Rightarrow> serverStream" where
  "NewServerStream ctx sid method src dst n =
     \<lparr>ssCtx = ctx, ssId = sid, ssMethod = method, ssSrc = src, ssDst = dst, ssHandlers = n,
      ssHeaders = [], ssHeadersSent = False, ssTrailers = [], ssTrailersSent = False, ssStats = []\<rparr>"

definition ss_rpc :: "serverStream \<Rightarrow> KeyValue list \<Rightarrow> Rpc" where
  "ss_rpc ss hs =
     \<lparr>rpcId = ssId ss, rpcHeader = Some (header_of (ssMethod ss) (ssSrc ss) (ssDst ss) hs),
      rpcStatus = None, rpcBody = None, rpcTrailer = None, rpcReset = None\<rparr>"

definition ss_event :: "stats_event list \<Rightarrow> serverStream \<Rightarrow> serverStream" where
  "ss_event evs ss = ss\<lparr>ssStats := ssStats ss @ stats_all (ssHandlers ss) evs\<rparr>"

definition ss_setHeader ::
  "env \<Rightarrow> 't rpc_write \<Rightarrow> MD \<Rightarrow> bool \<Rightarrow> serverStream \<times> 't \<Rightarrow> (gerr option \<times> serverStream \<times> 't) go" where
  "ss_setHeader env wr md send st =
     (case st of (ss, t) \<Rightarrow>
      if ssHeadersSent ss then Ret (Some (Errorf ''headers already sent''), ss, t)
      else
        let headers = ssHeaders ss @ [md];
            ss1 = ss\<lparr>ssHeaders := headers\<rparr>
        in if \<not> send then Ret (None, ss1, t)
           else
             let ss2 = ss_event [EvOutHeader False (ssMethod ss) (mdJoin env headers)] ss1
             in go_bind (wr (ssCtx ss) (ss_rpc ss (ToKeyValue env headers)) t) (\<lambda>(err, t1).
                  case err of
                    Some e \<Rightarrow> Ret (Some e, ss2, t1)
                  | None \<Rightarrow> Ret (None, ss2\<lparr>ssHeadersSent := True\<rparr>, t1)))"

definition ss_SetHeader ::
  "env \<Rightarrow> 't rpc_write \<Rightarrow> MD \<Rightarrow> serverStream \<times> 't \<Rightarrow> (gerr option \<times> serverStream \<times> 't) go" where
  "ss_SetHeader env wr md = ss_setHeader env wr md False"

definition ss_SendHeader ::
  "env \<Rightarrow> 't rpc_write \<Rightarrow> MD \<Rightarrow> serverStream \<times> 't \<Rightarrow> (gerr option \<times> serverStream \<times> 't) go" where
  "ss_SendHeader env wr md = ss_setHeader env wr md True"

definition ss_SetTrailer :: "MD \<Rightarrow> serverStream \<Rightarrow> serverStream" where
  "ss_SetTrailer md ss =
     (if ssTrailersSent ss then ss else ss\<lparr>ssTrailers := ssTrailers ss @ [md]\<rparr>)"

definition ss_SendMsg ::
  "env \<Rightarrow> 'm codec \<Rightarrow> 't rpc_write \<Rightarrow> 'm \<Rightarrow> serverStream \<times> 't \<Rightarrow> (gerr option \<times> serverStream \<times> 't) go" where
  "ss_SendMsg env cd wr msg st =
     (case st of (ss, t) \<Rightarrow>
      case Marshal cd msg of
        Inl err \<Rightarrow> Ret (Some err, ss, t)
      | Inr body \<Rightarrow>
          let hs = (if ssHeadersSent ss then [] else ToKeyValue env (ssHeaders ss));
              rpc = (ss_rpc ss hs)\<lparr>rpcBody := Some \<lparr>bData = Materialize cd body\<rparr>\<rparr>;
              ss1 = (if ssHeadersSent ss then ss
                     else ss_event [EvOutHeader False (ssMethod ss) (mdJoin env (ssHeaders ss))]
                            (ss\<lparr>ssHeadersSent := True\<rparr>));
              ss2 = ss_event [EvOutPayload False (length body)] ss1
          in go_bind (wr (ssCtx ss) rpc t) (\<lambda>(err, t1). Ret (err, ss2, t1)))"

text \<open>\<open>RecvMsg\<close> returns its error and the decoded message, if it got that far.\<close>

definition ss_RecvMsg ::
  "env \<Rightarrow> 'm codec \<Rightarrow> 't rpc_read \<Rightarrow> serverStream \<times> 't \<Rightarrow>
   ((gerr option \<times> 'm option) \<times> serverStream \<times> 't) go" where
  "ss_RecvMsg env cd rd st =
     (case st of (ss, t) \<Rightarrow>
      go_bind (rd (ssCtx ss) t) (\<lambda>(res, t1).
        case res of
          Inl err \<Rightarrow> Ret ((Some (Wrap err ''RecvMsg Read''), None), ss, t1)
        | Inr rpc \<Rightarrow>
            if rpcTrailer rpc \<noteq> None
            then let s = rpcStatus rpc
                 in if GetCode s = code_OK then Ret ((Some EOF, None), ss, t1)
                    else Ret ((map_option (\<lambda>e. Wrap e ''RecvMsg'')
                                 (stErr env \<lparr>stCode = GetCode s, stMessage = GetMessage s,
                                             stDetails = GetDetails s\<rparr>), None), ss, t1)
            else
              let data = GetData (rpcBody rpc)
              in case Unmarshal cd data of
                   Inl err \<Rightarrow> Ret ((Some err, None), ss, t1)
                 | Inr msg \<Rightarrow>
                     Ret ((None, Some msg), ss_event [EvInPayload False (nil_len data)] ss, t1)))"

definition ss_Context :: "serverStream \<Rightarrow> Context" where
  "ss_Context ss = ssCtx ss"

definition ss_SetContext :: "Context \<Rightarrow> serverStream \<Rightarrow> serverStream" where
  "ss_SetContext ctx ss = ss\<lparr>ssCtx := ctx\<rparr>"

text \<open>The status of the trailer: OK for a nil error, otherwise the error's, with OK rewritten.\<close>

definition trailer_status :: "env \<Rightarrow> gerr option \<Rightarrow> ResponseStatus" where
  "trailer_status env trErr =
     (case trErr of
        None \<Rightarrow> \<lparr>rsCode = code_OK, rsMessage = ''OK'', rsDetails = []\<rparr>
      | Some e \<Rightarrow>
          let s = fst (stFromError env e);
              sp = (if stCode s = code_OK then s\<lparr>stCode := code_Internal\<rparr> else s)
          in \<lparr>rsCode = stCode sp, rsMessage = stMessage sp, rsDetails = stDetails sp\<rparr>)"

definition ss_SendTrailer ::
  "env \<Rightarrow> 't rpc_write \<Rightarrow> gerr option \<Rightarrow> serverStream \<times> 't \<Rightarrow> (gerr option \<times> serverStream \<times> 't) go" where
  "ss_SendTrailer env wr trErr st =
     (case st of (ss, t) \<Rightarrow>
      if ssTrailersSent ss
      then Ret (Some (Errorf ''stream closed for writing (wrote trailers)''), ss, t)
      else
        let hs = (if ssHeadersSent ss then [] else ToKeyValue env (ssHeaders ss));
            tr = (ss_rpc ss hs)\<lparr>rpcStatus := Some (trailer_status env trErr),
                   rpcTrailer := Some \<lparr>tMetadata = Some (ToKeyValue env (ssTrailers ss))\<rparr>\<rparr>;
            ss1 = ss_event [EvOutTrailer False (mdJoin env (ssTrailers ss))]
                    (ss\<lparr>ssTrailersSent := True, ssHeadersSent := True\<rparr>)
        in go_bind (wr (ssCtx ss) tr t) (\<lambda>(err, t1). Ret (err, ss1, t1)))"

section \<open>unaryServerTransportStream and serverTransportStream\<close>

record unaryServerTransportStream =
  utMethod :: string
  utHeaders :: "MD option"
  utHeadersSent :: bool
  utTrailers :: "MD option"

definition NewUnaryServerTransportStream :: "string \<Rightarrow> unaryServerTransportStream" where
  "NewUnaryServerTransportStream name =
     \<lparr>utMethod = name, utHeaders = None, utHeadersSent = False, utTrailers = None\<rparr>"

definition ut_Method :: "unaryServerTransportStream \<Rightarrow> string" where
  "ut_Method sts = utMethod sts"

text \<open>A nil map becomes the empty one before it is joined with the new metadata.\<close>

definition md_join_opt :: "env \<Rightarrow> MD option \<Rightarrow> MD \<Rightarrow> MD option" where
  "md_join_opt env m md = Some (mdJoin env [case m of None \<Rightarrow> Map.empty | Some x \<Rightarrow> x, md])"

definition ut_setHeaderLocked ::
  "env \<Rightarrow> MD \<Rightarrow> unaryServerTransportStream \<Rightarrow> gerr option \<times> unaryServerTransportStream" where
  "ut_setHeaderLocked env md sts =
     (if utHeadersSent sts then (Some (Errorf ''headers already sent''), sts)
      else (None, sts\<lparr>utHeaders := md_join_opt env (utHeaders sts) md\<rparr>))"

definition ut_SetHeader ::
  "env \<Rightarrow> MD \<Rightarrow> unaryServerTransportStream \<Rightarrow> gerr option \<times> unaryServerTransportStream" where
  "ut_SetHeader env md sts = ut_setHeaderLocked env md sts"

definition ut_SendHeader ::
  "env \<Rightarrow> MD \<Rightarrow> unaryServerTransportStream \<Rightarrow> gerr option \<times> unaryServerTransportStream" where
  "ut_SendHeader env md sts =
     (case ut_setHeaderLocked env md sts of
        (Some e, sts1) \<Rightarrow> (Some e, sts1)
      | (None, sts1) \<Rightarrow> (None, sts1\<lparr>utHeadersSent := True\<rparr>))"

definition ut_GetHeaders :: "unaryServerTransportStream \<Rightarrow> MD option" where
  "ut_GetHeaders sts = utHeaders sts"

definition ut_SetTrailer :: "env \<Rightarrow> MD \<Rightarrow> unaryServerTransportStream \<Rightarrow> unaryServerTransportStream" where
  "ut_SetTrailer env md sts = sts\<lparr>utTrailers := md_join_opt env (utTrailers sts) md\<rparr>"

definition ut_GetTrailers :: "unaryServerTransportStream \<Rightarrow> MD option" where
  "ut_GetTrailers sts = utTrailers sts"

text \<open>\<open>serverTransportStream\<close> delegates to the stream it wraps.\<close>

record serverTransportStream =
  stsMethod :: string
  stsStream :: serverStream

definition NewServerTransportStream :: "string \<Rightarrow> serverStream \<Rightarrow> serverTransportStream" where
  "NewServerTransportStream fullMethod stream = \<lparr>stsMethod = fullMethod, stsStream = stream\<rparr>"

definition sts_via ::
  "(serverStream \<times> 't \<Rightarrow> (gerr option \<times> serverStream \<times> 't) go) \<Rightarrow> serverTransportStream \<times> 't \<Rightarrow>
   (gerr option \<times> serverTransportStream \<times> 't) go" where
  "sts_via f st =
     (case st of (sts, t) \<Rightarrow>
        go_bind (f (stsStream sts, t)) (\<lambda>(e, ss, t1). Ret (e, sts\<lparr>stsStream := ss\<rparr>, t1)))"

definition sts_SetHeader ::
  "env \<Rightarrow> 't rpc_write \<Rightarrow> MD \<Rightarrow> serverTransportStream \<times> 't \<Rightarrow> (gerr option \<times> serverTransportStream \<times> 't) go" where
  "sts_SetHeader env wr md = sts_via (ss_SetHeader env wr md)"

definition sts_SendHeader ::
  "env \<Rightarrow> 't rpc_write \<Rightarrow> MD \<Rightarrow> serverTransportStream \<times> 't \<Rightarrow> (gerr option \<times> serverTransportStream \<times> 't) go" where
  "sts_SendHeader env wr md = sts_via (ss_SendHeader env wr md)"

definition sts_SetTrailer :: "MD \<Rightarrow> serverTransportStream \<Rightarrow> serverTransportStream" where
  "sts_SetTrailer md sts = sts\<lparr>stsStream := ss_SetTrailer md (stsStream sts)\<rparr>"

section \<open>Collecting headers\<close>

text \<open>
  What handlers rely on when they set headers: until the headers are sent every call adds its metadata;
  a successful send closes the collection; from then on every call fails and changes nothing.
\<close>

type_synonym 's header_call = "MD \<Rightarrow> 's \<Rightarrow> (gerr option \<times> 's) go"

text \<open>A sequence of calls, \<open>True\<close> for a send, with what each returned.\<close>

fun sink_run :: "'s header_call \<Rightarrow> 's header_call \<Rightarrow> (bool \<times> MD) list \<Rightarrow> 's \<Rightarrow> (gerr option list \<times> 's) go" where
  "sink_run set_h send_h [] s = Ret ([], s)"
| "sink_run set_h send_h ((b, md) # ops) s =
     go_bind ((if b then send_h else set_h) md s) (\<lambda>(e, s1).
       go_bind (sink_run set_h send_h ops s1) (\<lambda>(es, s2). Ret (e # es, s2)))"

locale header_sink =
  fixes set_h send_h :: "'s header_call"
    and is_sent :: "'s \<Rightarrow> bool" and acc :: "'s \<Rightarrow> 'a" and add :: "'a \<Rightarrow> MD \<Rightarrow> 'a"
  assumes set_open: "\<not> is_sent s \<Longrightarrow> \<exists>s'. set_h md s = Ret (None, s') \<and> acc s' = add (acc s) md \<and> \<not> is_sent s'"
    and send_open: "\<not> is_sent s \<Longrightarrow> send_h md s = Ret (e, s') \<Longrightarrow>
      acc s' = add (acc s) md \<and> is_sent s' = (e = None)"
    and set_closed: "is_sent s \<Longrightarrow> set_h md s = Ret (Some (Errorf ''headers already sent''), s)"
    and send_closed: "is_sent s \<Longrightarrow> send_h md s = Ret (Some (Errorf ''headers already sent''), s)"
begin

lemma run_closed: "is_sent s \<Longrightarrow> sink_run set_h send_h ops s = Ret (replicate (length ops) (Some (Errorf ''headers already sent'')), s)"
  by (induction ops) (auto simp: set_closed send_closed)

text \<open>The collection after a run is that of the calls up to the first send that succeeded.\<close>

lemma run_acc:
  "sink_run set_h send_h ops s = Ret (es, s') \<Longrightarrow> \<not> is_sent s \<Longrightarrow>
   \<exists>k \<le> length ops. acc s' = foldl add (acc s) (map snd (take k ops)) \<and>
     (\<not> is_sent s' \<longrightarrow> k = length ops) \<and>
     (is_sent s' \<longrightarrow> 0 < k \<and> fst (ops ! (k - 1)) \<and> es ! (k - 1) = None \<and>
       (\<forall>j. k \<le> j \<and> j < length ops \<longrightarrow> es ! j = Some (Errorf ''headers already sent'')))"
proof (induction ops arbitrary: s es)
  case (Cons op ops)
  obtain b md where op: "op = (b, md)" by (cases op)
  from Cons.prems op obtain e s1 es' where
    call: "(if b then send_h else set_h) md s = Ret (e, s1)" and
    rest: "sink_run set_h send_h ops s1 = Ret (es', s')" and es: "es = e # es'"
    by (auto simp: go_bind_Ret_iff)
  have a: "acc s1 = add (acc s) md" and c: "is_sent s1 = (b \<and> e = None)"
    using call Cons.prems(2) send_open[of s md e s1] set_open[of s md] by (auto split: if_splits)
  show ?case
  proof (cases "is_sent s1")
    case True
    from run_closed[OF True, of ops] rest have "s' = s1"
      and es': "es' = replicate (length ops) (Some (Errorf ''headers already sent''))" by auto
    with True a c op es show ?thesis
      by (intro exI[of _ 1]) (auto simp: nth_Cons')
  next
    case False
    from Cons.IH[OF rest this] obtain k where k: "k \<le> length ops"
      "acc s' = foldl add (acc s1) (map snd (take k ops))" "\<not> is_sent s' \<longrightarrow> k = length ops"
      "is_sent s' \<longrightarrow> 0 < k \<and> fst (ops ! (k - 1)) \<and> es' ! (k - 1) = None \<and>
         (\<forall>j. k \<le> j \<and> j < length ops \<longrightarrow> es' ! j = Some (Errorf ''headers already sent''))" by blast
    have "\<forall>j. Suc k \<le> j \<and> j < length (op # ops) \<longrightarrow> es ! j = Some (Errorf ''headers already sent'')"
      if "is_sent s'" using k(4) that es by (auto simp: nth_Cons split: nat.splits)
    with k a op es show ?thesis by (intro exI[of _ "Suc k"]) (auto simp: nth_Cons')
  qed
qed simp

end

interpretation uth: header_sink
  "\<lambda>md s. Ret (ut_SetHeader env md s)" "\<lambda>md s. Ret (ut_SendHeader env md s)"
  utHeadersSent utHeaders "md_join_opt env" for env
  by unfold_locales
    (auto simp: ut_SetHeader_def ut_SendHeader_def ut_setHeaderLocked_def split: if_splits)

interpretation ssh: header_sink
  "ss_SetHeader env wr" "ss_SendHeader env wr"
  "\<lambda>(ss, t). ssHeadersSent ss" "\<lambda>(ss, t). ssHeaders ss" "\<lambda>hs md. hs @ [md]" for env wr
  by unfold_locales
    (auto simp: ss_SetHeader_def ss_SendHeader_def ss_setHeader_def ss_event_def go_bind_Ret_iff Let_def
      split: if_splits option.splits)

section \<open>What a stream sends\<close>

text \<open>The calls a handler makes on its stream, and the trailer the server sends at the end.\<close>

datatype 'm ss_op =
    OpSetHeader MD | OpSendHeader MD | OpSetTrailer MD | OpSendMsg 'm | OpSendTrailer "gerr option"

fun ss_op_step :: "env \<Rightarrow> 'm codec \<Rightarrow> 't rpc_write \<Rightarrow> 'm ss_op \<Rightarrow> serverStream \<times> 't \<Rightarrow>
    (gerr option \<times> serverStream \<times> 't) go" where
  "ss_op_step env cd wr (OpSetHeader md) st = ss_SetHeader env wr md st"
| "ss_op_step env cd wr (OpSendHeader md) st = ss_SendHeader env wr md st"
| "ss_op_step env cd wr (OpSetTrailer md) (ss, t) = Ret (None, ss_SetTrailer md ss, t)"
| "ss_op_step env cd wr (OpSendMsg msg) st = ss_SendMsg env cd wr msg st"
| "ss_op_step env cd wr (OpSendTrailer e) st = ss_SendTrailer env wr e st"

fun ss_ops :: "env \<Rightarrow> 'm codec \<Rightarrow> 't rpc_write \<Rightarrow> 'm ss_op list \<Rightarrow> serverStream \<times> 't \<Rightarrow> (serverStream \<times> 't) go" where
  "ss_ops env cd wr [] st = Ret st"
| "ss_ops env cd wr (op # ops) st = go_bind (ss_op_step env cd wr op st) (\<lambda>(e, st1). ss_ops env cd wr ops st1)"

text \<open>
  The shape of the messages \<open>ms\<close> a stream has sent: all carry its id; only the first one carries
  headers, and then all those set before; at most one carries a trailer, and none while the stream
  has not sent its trailer.
\<close>

definition n_trailers :: "Rpc list \<Rightarrow> nat" where
  "n_trailers ms = length (filter (\<lambda>m. rpcTrailer m \<noteq> None) ms)"

lemma n_trailers_simps [simp]:
  "n_trailers [] = 0" "n_trailers (ms @ [m]) = n_trailers ms + (if rpcTrailer m = None then 0 else 1)"
  by (auto simp: n_trailers_def)

definition ss_shape :: "env \<Rightarrow> serverStream \<Rightarrow> Rpc list \<Rightarrow> bool" where
  "ss_shape env ss ms \<longleftrightarrow>
     (\<forall>m \<in> set ms. rpcId m = ssId ss) \<and>
     (\<not> ssHeadersSent ss \<longrightarrow> ms = []) \<and>
     (\<forall>m \<in> set (tl ms). GetHeaders (rpcHeader m) = []) \<and>
     (ms \<noteq> [] \<longrightarrow> GetHeaders (rpcHeader (hd ms)) \<in> {[], ToKeyValue env (ssHeaders ss)}) \<and>
     n_trailers ms \<le> (if ssTrailersSent ss then 1 else 0)"

lemma ss_event_sel [simp]:
  "ssId (ss_event evs ss) = ssId ss" "ssHeadersSent (ss_event evs ss) = ssHeadersSent ss"
  "ssTrailersSent (ss_event evs ss) = ssTrailersSent ss" "ssHeaders (ss_event evs ss) = ssHeaders ss"
  by (simp_all add: ss_event_def)

lemma ss_rpc_sel [simp]:
  "rpcId (ss_rpc ss hs) = ssId ss" "rpcTrailer (ss_rpc ss hs) = None"
  "GetHeaders (rpcHeader (ss_rpc ss hs)) = hs"
  by (simp_all add: ss_rpc_def GetHeaders_def)

text \<open>One more message keeps the shape when it has the right headers and trailer.\<close>

lemma ss_shape_snoc:
  assumes "ss_shape env ss ms" and "ssId ss' = ssId ss" and "ssHeadersSent ss'"
    and "ssHeadersSent ss \<longrightarrow> ssHeaders ss' = ssHeaders ss \<and> GetHeaders (rpcHeader m) = []"
    and "\<not> ssHeadersSent ss \<longrightarrow> GetHeaders (rpcHeader m) = ToKeyValue env (ssHeaders ss')"
    and "rpcId m = ssId ss" and "ssTrailersSent ss \<longrightarrow> ssTrailersSent ss'"
    and "rpcTrailer m \<noteq> None \<longrightarrow> \<not> ssTrailersSent ss \<and> ssTrailersSent ss'"
  shows "ss_shape env ss' (ms @ [m])"
proof -
  have "n_trailers (ms @ [m]) \<le> (if ssTrailersSent ss' then 1 else 0)"
    using assms(1,7,8) by (auto simp: ss_shape_def split: if_splits)
  with assms(1-6) show ?thesis unfolding ss_shape_def by (cases "ms = []") (auto simp: hd_append)
qed

lemma ss_shape_quiet:
  assumes "ss_shape env ss ms" and "ssId ss' = ssId ss" and "ssHeadersSent ss \<longrightarrow> ssHeadersSent ss'"
    and "ssHeadersSent ss \<longrightarrow> ssHeaders ss' = ssHeaders ss"
    and "ssTrailersSent ss \<longrightarrow> ssTrailersSent ss'"
  shows "ss_shape env ss' ms"
  using assms by (cases "ms = []") (auto simp: ss_shape_def split: if_splits)

context rpc_writer
begin

lemma wr_cases:
  assumes "wr ctx rpc t = Ret (e, t')"
  obtains "e = None" "sent t' = sent t @ [rpc]" | err where "e = Some err" "sent t' = sent t"
  using assms write_nil[of ctx rpc t t'] write_err[of ctx rpc t _ t'] by (cases e) auto

lemma ss_op_shape:
  assumes "ss_op_step env cd wr op (ss, t) = Ret (e, ss', t')"
    and "sent t = base @ ms" and "ss_shape env ss ms"
  shows "\<exists>ms'. sent t' = base @ ms' \<and> ss_shape env ss' ms'"
proof (cases op)
  case (OpSetHeader md)
  then have s: "t' = t" "ss' = (if ssHeadersSent ss then ss else ss\<lparr>ssHeaders := ssHeaders ss @ [md]\<rparr>)"
    using assms(1) by (simp_all add: ss_SetHeader_def ss_setHeader_def Let_def split: if_splits)
  have "ss_shape env ss' ms" by (rule ss_shape_quiet[OF assms(3)]) (simp_all add: s)
  with s assms(2) show ?thesis by blast
next
  case (OpSendHeader md)
  show ?thesis
  proof (cases "ssHeadersSent ss")
    case True
    with OpSendHeader assms show ?thesis by (auto simp: ss_SendHeader_def ss_setHeader_def)
  next
    case False
    let ?rpc = "ss_rpc ss (ToKeyValue env (ssHeaders ss @ [md]))"
    let ?ss2 = "ss_event [EvOutHeader False (ssMethod ss) (mdJoin env (ssHeaders ss @ [md]))]
            (ss\<lparr>ssHeaders := ssHeaders ss @ [md]\<rparr>)"
    from False OpSendHeader assms(1)
    have "go_bind (wr (ssCtx ss) ?rpc t) (\<lambda>(err, t1). case err of Some e \<Rightarrow> Ret (Some e, ?ss2, t1)
        | None \<Rightarrow> Ret (None, ?ss2\<lparr>ssHeadersSent := True\<rparr>, t1)) = Ret (e, ss', t')"
      by (simp add: ss_SendHeader_def ss_setHeader_def Let_def)
    from iffD1[OF go_bind_Ret_iff this] obtain err t1 where
      w1: "wr (ssCtx ss) ?rpc t = Ret (err, t1)" and
      s1: "(case err of Some e \<Rightarrow> Ret (Some e, ?ss2, t1)
        | None \<Rightarrow> Ret (None, ?ss2\<lparr>ssHeadersSent := True\<rparr>, t1)) = Ret (e, ss', t')"
      by (elim exE conjE) (simp only: split_paired_all prod.case)
    show ?thesis
    proof (cases err)
      case None
      with s1 have s: "ss' = ?ss2\<lparr>ssHeadersSent := True\<rparr>" "t1 = t'" by simp_all
      have "ss_shape env ss' (ms @ [?rpc])"
        by (rule ss_shape_snoc[OF assms(3)]) (use s False in simp_all)
      moreover have "sent t' = base @ ms @ [?rpc]" using w1 None s(2) assms(2) by (simp add: write_nil)
      ultimately show ?thesis by blast
    next
      case (Some er)
      with s1 have s: "ss' = ?ss2" "t1 = t'" by simp_all
      have "ss_shape env ss' ms" by (rule ss_shape_quiet[OF assms(3)]) (use s False in simp_all)
      moreover have "sent t' = base @ ms" using w1 Some s(2) assms(2) by (simp add: write_err)
      ultimately show ?thesis by blast
    qed
  qed
next
  case (OpSetTrailer md)
  have "ss_shape env ss' ms"
    by (rule ss_shape_quiet[OF assms(3)]) (use OpSetTrailer assms(1) in \<open>auto simp: ss_SetTrailer_def\<close>)
  with OpSetTrailer assms show ?thesis by auto
next
  case (OpSendMsg msg)
  show ?thesis
  proof (cases "Marshal cd msg")
    case (Inl er)
    with OpSendMsg assms show ?thesis by (auto simp: ss_SendMsg_def)
  next
    case (Inr body)
    let ?hs = "if ssHeadersSent ss then [] else ToKeyValue env (ssHeaders ss)"
    let ?rpc = "(ss_rpc ss ?hs)\<lparr>rpcBody := Some \<lparr>bData = Materialize cd body\<rparr>\<rparr>"
    from Inr OpSendMsg assms(1) have w: "wr (ssCtx ss) ?rpc t = Ret (e, t')"
      by (auto simp: ss_SendMsg_def Let_def go_bind_Ret_iff)
    have s: "ssId ss' = ssId ss" "ssHeadersSent ss'" "ssHeaders ss' = ssHeaders ss"
      "ssTrailersSent ss' = ssTrailersSent ss"
      using Inr OpSendMsg assms(1) by (auto simp: ss_SendMsg_def Let_def go_bind_Ret_iff split: if_splits)
    from w show ?thesis
    proof (cases rule: wr_cases)
      case 1
      have "ss_shape env ss' (ms @ [?rpc])"
        by (rule ss_shape_snoc[OF assms(3)]) (use s in simp_all)
      with 1 assms(2) show ?thesis by auto
    next
      case (2 er)
      have "ss_shape env ss' ms" by (rule ss_shape_quiet[OF assms(3)]) (use s in simp_all)
      with 2 assms(2) show ?thesis by auto
    qed
  qed
next
  case (OpSendTrailer trErr)
  show ?thesis
  proof (cases "ssTrailersSent ss")
    case True
    with OpSendTrailer assms show ?thesis by (auto simp: ss_SendTrailer_def)
  next
    case False
    let ?hs = "if ssHeadersSent ss then [] else ToKeyValue env (ssHeaders ss)"
    let ?rpc = "(ss_rpc ss ?hs)\<lparr>rpcStatus := Some (trailer_status env trErr),
       rpcTrailer := Some \<lparr>tMetadata = Some (ToKeyValue env (ssTrailers ss))\<rparr>\<rparr>"
    from False OpSendTrailer assms(1) have w: "wr (ssCtx ss) ?rpc t = Ret (e, t')"
      by (auto simp: ss_SendTrailer_def Let_def go_bind_Ret_iff)
    have s: "ssId ss' = ssId ss" "ssHeadersSent ss'" "ssHeaders ss' = ssHeaders ss" "ssTrailersSent ss'"
      using False OpSendTrailer assms(1) by (auto simp: ss_SendTrailer_def Let_def go_bind_Ret_iff)
    from w show ?thesis
    proof (cases rule: wr_cases)
      case 1
      have "ss_shape env ss' (ms @ [?rpc])"
        by (rule ss_shape_snoc[OF assms(3)]) (use s False in simp_all)
      with 1 assms(2) show ?thesis by auto
    next
      case (2 er)
      have "ss_shape env ss' ms" by (rule ss_shape_quiet[OF assms(3)]) (use s in simp_all)
      with 2 assms(2) show ?thesis by auto
    qed
  qed
qed

lemma ss_ops_shape:
  "ss_ops env cd wr ops (ss, t) = Ret (ss', t') \<Longrightarrow> sent t = base @ ms \<Longrightarrow> ss_shape env ss ms \<Longrightarrow>
   \<exists>ms'. sent t' = base @ ms' \<and> ss_shape env ss' ms'"
proof (induction ops arbitrary: ss t ms)
  case (Cons op ops)
  then obtain e ss1 t1 where o: "ss_op_step env cd wr op (ss, t) = Ret (e, ss1, t1)"
    and r: "ss_ops env cd wr ops (ss1, t1) = Ret (ss', t')"
    by (auto simp: go_bind_Ret_iff)
  from ss_op_shape[OF o Cons.prems(2,3)] obtain ms1 where "sent t1 = base @ ms1" "ss_shape env ss1 ms1" by blast
  from Cons.IH[OF r this] show ?case .
qed auto

end

lemma ss_shape_new [simp]: "ss_shape env (NewServerStream ctx sid method src dst n) []"
  by (simp add: ss_shape_def NewServerStream_def)

text \<open>A nil error gives code OK, any other error a code that is not OK.\<close>

lemma trailer_status_OK_iff: "rsCode (trailer_status env e) = code_OK \<longleftrightarrow> e = None"
  by (auto simp: trailer_status_def Let_def split: option.splits)

section \<open>Properties\<close>

text \<open>C14: Whatever a handler does with its stream, and whatever fails on the way, the messages it puts on a
  channel transport all carry the stream's id, only the first of them carries headers (all those set
  so far, or none if an earlier write that carried them failed), and at most one carries a trailer.\<close>

theorem ss_wire_shape:
  assumes "ss_ops env cd (goc_write pick) ops (NewServerStream ctx sid method src dst n, t) = Ret (ss', t')"
  shows "\<exists>ms. buf (outQ t') = buf (outQ t) @ ms \<and> ss_shape env ss' ms"
  by (rule goc.ss_ops_shape[where ms = "[]", OF assms]) simp_all

theorem ss_wire_shape_witness:
  "\<exists>ss' t' ms. ss_ops sample_env sample_codec (goc_write True) [OpSendMsg [1], OpSendTrailer None]
       (NewServerStream Background 9 ''/s/m'' ''a'' ''b'' 0, NewGoatOverChannel (make_chan 0) (make_chan 2)) = Ret (ss', t') \<and>
     buf (outQ t') = ms \<and> ss_shape sample_env ss' ms \<and> length ms = 2"
proof -
  let ?st = "(NewServerStream Background 9 ''/s/m'' ''a'' ''b'' 0, NewGoatOverChannel (make_chan 0) (make_chan 2))"
  have "\<exists>ss' t'. ss_ops sample_env sample_codec (goc_write True) [OpSendMsg [1], OpSendTrailer None] ?st = Ret (ss', t') \<and>
      length (buf (outQ t')) = 2"
    by (simp add: ss_SendMsg_def ss_SendTrailer_def NewServerStream_def sample_codec_def Let_def
        goc_write_def NewGoatOverChannel_def on_done_def Background_def chan_send_def ss_event_def)
  then obtain ss' t' where s: "ss_ops sample_env sample_codec (goc_write True) [OpSendMsg [1], OpSendTrailer None] ?st = Ret (ss', t')"
    and l: "length (buf (outQ t')) = 2" by blast
  from ss_wire_shape[OF s] have "ss_shape sample_env ss' (buf (outQ t'))"
    by (auto simp: NewGoatOverChannel_def)
  with s l show ?thesis by blast
qed

text \<open>A unary handler's headers: of any sequence of \<open>SetHeader\<close> and \<open>SendHeader\<close> calls, the collected
  headers are the join of the metadata up to the first successful \<open>SendHeader\<close>, and every later call
  reports that the headers were sent.\<close>

lemma ut_headers_collect:
  assumes "sink_run (\<lambda>md s. Ret (ut_SetHeader env md s)) (\<lambda>md s. Ret (ut_SendHeader env md s)) ops (NewUnaryServerTransportStream name) = Ret (es, sts)"
  shows "\<exists>k \<le> length ops.
    ut_GetHeaders sts = foldl (md_join_opt env) None (map snd (take k ops)) \<and>
    (\<not> utHeadersSent sts \<longrightarrow> k = length ops) \<and>
    (utHeadersSent sts \<longrightarrow> 0 < k \<and> fst (ops ! (k - 1)) \<and> es ! (k - 1) = None \<and>
       (\<forall>j. k \<le> j \<and> j < length ops \<longrightarrow> es ! j = Some (Errorf ''headers already sent'')))"
  using uth.run_acc[OF assms] by (simp add: NewUnaryServerTransportStream_def ut_GetHeaders_def)

text \<open>\<open>SendTrailer\<close> succeeds at most once: a second call fails and sends nothing. But the stream is not
  closed for writing by it: a later \<open>SendMsg\<close> still puts a message on the wire, after the trailer.\<close>

lemma ss_send_after_trailer:
  assumes "ssTrailersSent ss" and "Marshal cd msg = Inr body"
    and "ss_SendMsg env cd (goc_write pick) msg (ss, t) = Ret (None, ss', t')"
  shows "ss_SendTrailer env wr e (ss, u) = Ret (Some (Errorf ''stream closed for writing (wrote trailers)''), ss, u) \<and>
    (\<exists>m. buf (outQ t') = buf (outQ t) @ [m] \<and> rpcBody m = Some \<lparr>bData = Materialize cd body\<rparr>)"
proof -
  from assms(2,3) obtain m where "goc_write pick (ssCtx ss) m t = Ret (None, t')"
    and "rpcBody m = Some \<lparr>bData = Materialize cd body\<rparr>"
    by (auto simp: ss_SendMsg_def Let_def go_bind_Ret_iff)
  with goc.write_nil[of pick] assms(1) show ?thesis by (auto simp: ss_SendTrailer_def)
qed

end
