(* ===== verification/Goat_Chained.thy ===== *)
theory Goat_Chained
  imports Goat_Rpc
begin

text \<open>
  Chains of server interceptors, \<^verbatim>\<open>chained.go\<close>. A handler is a program over a state \<open>'s\<close> (what a call
  can change) that may panic or block; an interceptor gets the next handler and may call it any
  number of times. The lemmas show that the chain the code builds index by index is the composition
  of the interceptors around the final handler, in order.
\<close>

section \<open>Handlers and interceptors\<close>

type_synonym ('q, 's, 'r) UnaryHandler = "Context \<Rightarrow> 'q \<Rightarrow> 's \<Rightarrow> ('r \<times> 's) go"
type_synonym ('q, 's, 'r) UnaryServerInterceptor =
  "Context \<Rightarrow> 'q \<Rightarrow> string \<Rightarrow> ('q, 's, 'r) UnaryHandler \<Rightarrow> 's \<Rightarrow> ('r \<times> 's) go"

type_synonym ('s, 'r) StreamHandler = "'s \<Rightarrow> ('r \<times> 's) go"
type_synonym ('s, 'r) StreamServerInterceptor =
  "'s \<Rightarrow> string \<times> bool \<times> bool \<Rightarrow> ('s, 'r) StreamHandler \<Rightarrow> ('r \<times> 's) go"

text \<open>An index out of range panics when the element is used.\<close>

definition index_or :: "'a list \<Rightarrow> nat \<Rightarrow> ('a \<Rightarrow> 'b go) \<Rightarrow> 'b go" where
  "index_or xs i f = (if i < length xs then f (xs ! i) else Panic)"

section \<open>The chains\<close>

text \<open>\<open>cur\<close> is the source's \<^verbatim>\<open>curr\<close>, which only grows; \<^verbatim>\<open>curr == len(interceptors)-1\<close> is compared on
  integers, so it is false for an empty slice.\<close>

function getChainUnaryHandler ::
  "('q, 's, 'r) UnaryServerInterceptor list \<Rightarrow> nat \<Rightarrow> string \<Rightarrow> ('q, 's, 'r) UnaryHandler \<Rightarrow>
   ('q, 's, 'r) UnaryHandler" where
  "getChainUnaryHandler interceptors cur info finalHandler =
     (if int cur = int (length interceptors) - 1 then finalHandler
      else if cur + 1 < length interceptors
           then (\<lambda>ctx req s. (interceptors ! (cur + 1)) ctx req info
                   (getChainUnaryHandler interceptors (cur + 1) info finalHandler) s)
           else (\<lambda>ctx req s. Panic))"
  by auto
termination by (relation "measure (\<lambda>(ics, cur, info, h). length ics - cur)") auto

declare getChainUnaryHandler.simps [simp del]

definition ChainUnaryInterceptor ::
  "('q, 's, 'r) UnaryServerInterceptor list \<Rightarrow> ('q, 's, 'r) UnaryServerInterceptor" where
  "ChainUnaryInterceptor interceptors ctx req info handler s =
     index_or interceptors 0 (\<lambda>i. i ctx req info (getChainUnaryHandler interceptors 0 info handler) s)"

function getChainStreamHandler ::
  "('s, 'r) StreamServerInterceptor list \<Rightarrow> nat \<Rightarrow> string \<times> bool \<times> bool \<Rightarrow> ('s, 'r) StreamHandler \<Rightarrow>
   ('s, 'r) StreamHandler" where
  "getChainStreamHandler interceptors cur info finalHandler =
     (if int cur = int (length interceptors) - 1 then finalHandler
      else if cur + 1 < length interceptors
           then (\<lambda>stream. (interceptors ! (cur + 1)) stream info
                   (getChainStreamHandler interceptors (cur + 1) info finalHandler))
           else (\<lambda>stream. Panic))"
  by auto
termination by (relation "measure (\<lambda>(ics, cur, info, h). length ics - cur)") auto

declare getChainStreamHandler.simps [simp del]

definition ChainStreamInterceptor ::
  "('s, 'r) StreamServerInterceptor list \<Rightarrow> ('s, 'r) StreamServerInterceptor" where
  "ChainStreamInterceptor interceptors stream info handler =
     index_or interceptors 0 (\<lambda>i. i stream info (getChainStreamHandler interceptors 0 info handler))"

section \<open>The chain is the composition\<close>

text \<open>One contract for both kinds: a chain that wraps the interceptors after \<open>cur\<close> is the fold of the
  wrapping over them.\<close>

locale chain =
  fixes get :: "'i list \<Rightarrow> nat \<Rightarrow> 'h \<Rightarrow> 'h" and wrap :: "'i \<Rightarrow> 'h \<Rightarrow> 'h"
  assumes get_last: "cur + 1 = length ics \<Longrightarrow> get ics cur h = h"
    and get_next: "cur + 1 < length ics \<Longrightarrow> get ics cur h = wrap (ics ! (cur + 1)) (get ics (cur + 1) h)"
begin

lemma get_foldr: "cur < length ics \<Longrightarrow> get ics cur h = foldr wrap (drop (cur + 1) ics) h"
proof (induction "length ics - cur" arbitrary: cur)
  case (Suc k)
  show ?case
  proof (cases "cur + 1 = length ics")
    case True
    then show ?thesis by (simp add: get_last)
  next
    case False
    with Suc.prems have lt: "cur + 1 < length ics" by simp
    then have "get ics (cur + 1) h = foldr wrap (drop (cur + 1 + 1) ics) h"
      using Suc.hyps(2) by (intro Suc.hyps(1)) auto
    with lt show ?thesis by (simp add: get_next Cons_nth_drop_Suc[symmetric])
  qed
qed simp

lemma wrap_get_foldr: "ics \<noteq> [] \<Longrightarrow> wrap (ics ! 0) (get ics 0 h) = foldr wrap ics h"
  by (cases "ics") (simp_all add: get_foldr)

end

interpretation unary_chain: chain
  "\<lambda>ics cur h. getChainUnaryHandler ics cur info h" "\<lambda>i h ctx req. i ctx req info h" for info
  by unfold_locales (subst getChainUnaryHandler.simps, force)+

interpretation stream_chain: chain
  "\<lambda>ics cur h. getChainStreamHandler ics cur info h" "\<lambda>i h stream. i stream info h" for info
  by unfold_locales (subst getChainStreamHandler.simps, force)+

section \<open>Properties\<close>

text \<open>C26: A chain of one or more unary interceptors runs them in the given order around the handler: it is
  the first interceptor around the second, and so on, around the handler. An empty chain panics
  when a call comes.\<close>

theorem chain_unary_compose:
  "ChainUnaryInterceptor interceptors ctx req info handler s =
     (if interceptors = [] then Panic
      else foldr (\<lambda>i h ctx req. i ctx req info h) interceptors handler ctx req s)"
  using unary_chain.wrap_get_foldr[of interceptors info handler]
  by (auto simp: ChainUnaryInterceptor_def index_or_def dest: fun_cong)

text \<open>The same for stream interceptors.\<close>

lemma chain_stream_compose:
  "ChainStreamInterceptor interceptors stream info handler =
     (if interceptors = [] then Panic
      else foldr (\<lambda>i h stream. i stream info h) interceptors handler stream)"
  using stream_chain.wrap_get_foldr[of interceptors info handler]
  by (auto simp: ChainStreamInterceptor_def index_or_def dest: fun_cong)

end
