(* ===== verification/Goat_Server.thy ===== *)
theory Goat_Server
  imports Goat_Server_Stream Goat_Chained
begin

text \<open>
  The server, \<^verbatim>\<open>server.go\<close>: options and service registration, the parsing of methods and timeouts, the
  dispatch of incoming messages, unary calls, and the life of streams as functions of the handler's
  state. Method and stream handlers are application code: parameters inside the service descriptions.
\<close>

section \<open>Server, services, options\<close>

text \<open>
  A unary method's handler gets the server's interceptor and a decoder, here the result the decoder
  gives, and runs against the call's transport stream; it returns the response, the error and how
  often it decoded. A stream's handler is a program over its stream and the state behind it.
\<close>

type_synonym 'm unary_out = "'m option \<times> gerr option \<times> nat"
type_synonym 'm unary_icpt = "(gerr + 'm, unaryServerTransportStream, 'm unary_out) UnaryServerInterceptor"

record 'm MethodDesc =
  MethodName :: string
  mdHandler :: "'m unary_icpt option \<Rightarrow> (gerr + 'm, unaryServerTransportStream, 'm unary_out) UnaryHandler"

record 't ServerStreamDesc = StreamDesc +
  sdHandler :: "(serverStream \<times> 't, gerr option) StreamHandler"

record ('m, 't) serviceInfo =
  siName :: string
  siMethods :: "string \<rightharpoonup> 'm MethodDesc"
  siStreams :: "string \<rightharpoonup> 't ServerStreamDesc"

record ('m, 't) ServiceDesc =
  ServiceName :: string
  sdMethods :: "'m MethodDesc list"
  sdStreams :: "'t ServerStreamDesc list"

record ('m, 't) Server =
  srvCtx :: Context
  srvId :: string
  services :: "string \<rightharpoonup> ('m, 't) serviceInfo"
  srvUnary :: "'m unary_icpt option"
  srvStream :: "(serverStream \<times> 't, gerr option) StreamServerInterceptor option"
  srvHandlers :: nat

type_synonym ('m, 't) ServerOption = "('m, 't) Server \<Rightarrow> ('m, 't) Server"

definition UnaryInterceptor :: "'m unary_icpt \<Rightarrow> ('m, 't) ServerOption" where
  "UnaryInterceptor i s = s\<lparr>srvUnary := Some i\<rparr>"

definition StreamInterceptor ::
  "(serverStream \<times> 't, gerr option) StreamServerInterceptor \<Rightarrow> ('m, 't) ServerOption" where
  "StreamInterceptor i s = s\<lparr>srvStream := Some i\<rparr>"

definition StatsHandler :: "('m, 't) ServerOption" where
  "StatsHandler s = s\<lparr>srvHandlers := srvHandlers s + 1\<rparr>"

definition NewServer :: "string \<Rightarrow> ('m, 't) ServerOption list \<Rightarrow> ('m, 't) Server" where
  "NewServer sid opts =
     fold (\<lambda>opt s. opt s) opts
       \<lparr>srvCtx = Background, srvId = sid, services = Map.empty, srvUnary = None, srvStream = None,
        srvHandlers = 0\<rparr>"

definition srv_Stop :: "('m, 't) Server \<Rightarrow> ('m, 't) Server" where
  "srv_Stop s = s\<lparr>srvCtx := ctx_cancel (srvCtx s)\<rparr>"

text \<open>\<open>implements\<close> is the reflective check that the implementation has the handler type (or is nil).\<close>

definition RegisterService ::
  "bool \<Rightarrow> ('m, 't) ServiceDesc \<Rightarrow> ('m, 't) Server \<Rightarrow> ('m, 't) Server go" where
  "RegisterService implements sd s =
     (if \<not> implements then Panic
      else if services s (ServiceName sd) \<noteq> None then Panic
      else
        let info = \<lparr>siName = ServiceName sd,
                    siMethods = fold (\<lambda>d m. m(MethodName d \<mapsto> d)) (sdMethods sd) Map.empty,
                    siStreams = fold (\<lambda>d m. m(StreamName d \<mapsto> d)) (sdStreams sd) Map.empty\<rparr>
        in Ret (s\<lparr>services := (services s)(ServiceName sd \<mapsto> info)\<rparr>))"

section \<open>Parsing\<close>

definition parseRawMethod :: "string \<Rightarrow> gerr + string \<times> string" where
  "parseRawMethod sm0 =
     (let sm = (if sm0 \<noteq> [] \<and> hd sm0 = CHR ''/'' then tl sm0 else sm0)
      in case LastIndexByte sm CHR ''/'' of
           None \<Rightarrow> Inl (Errorf (''invalid method name '' @ sm))
         | Some pos \<Rightarrow> Inr (take pos sm, drop (pos + 1) sm))"

definition getUnit :: "char \<Rightarrow> i64" where
  "getUnit suffix =
     (if suffix = CHR ''H'' then 3600 * 10 ^ 9
      else if suffix = CHR ''M'' then 60 * 10 ^ 9
      else if suffix = CHR ''S'' then 10 ^ 9
      else if suffix = CHR ''m'' then 10 ^ 6
      else if suffix = CHR ''u'' then 10 ^ 3
      else if suffix = CHR ''n'' then 1
      else 0)"

definition parseGrpcTimeout :: "string \<Rightarrow> i64 option" where
  "parseGrpcTimeout timeout =
     (if timeout = [] then None
      else case ParseInt (butlast timeout) of
             None \<Rightarrow> None
           | Some val \<Rightarrow>
               let unit = getUnit (last timeout)
               in if unit = 0 then None else Some (val * unit))"

text \<open>\<^verbatim>\<open>context.WithTimeout\<close>: an earlier deadline of the parent is kept; a deadline that has passed ends
  the context at once.\<close>

definition WithTimeout :: "int \<Rightarrow> i64 \<Rightarrow> Context \<Rightarrow> Context" where
  "WithTimeout now d ctx =
     (let deadline = now + sint d
      in if (case ctxDeadline ctx of Some p \<Rightarrow> p < deadline | None \<Rightarrow> False) then ctx
         else ctx\<lparr>ctxDeadline := Some deadline,
                  ctxErr := (if ctxErr ctx = None \<and> deadline \<le> now then Some DeadlineExceeded
                             else ctxErr ctx)\<rparr>)"

text \<open>The loop over the headers: the first timeout that parses.\<close>

fun find_timeout :: "env \<Rightarrow> KeyValue list \<Rightarrow> i64 option" where
  "find_timeout env [] = None"
| "find_timeout env (hdr # hs) =
     (if ToLower (uniLower env) (kvKey hdr) = ''grpc-timeout''
      then (case parseGrpcTimeout (kvValue hdr) of Some t \<Rightarrow> Some t | None \<Rightarrow> find_timeout env hs)
      else find_timeout env hs)"

definition contextFromHeaders :: "env \<Rightarrow> int \<Rightarrow> Context \<Rightarrow> RequestHeader \<Rightarrow> gerr + Context" where
  "contextFromHeaders env now parent h =
     (case ToMetadata env (hHeaders h) of
        Inl err \<Rightarrow> Inl err
      | Inr md \<Rightarrow>
          let ctx = parent\<lparr>ctxIncoming := Some md\<rparr>
          in case find_timeout env (hHeaders h) of
               Some timeout \<Rightarrow> Inr (WithTimeout now timeout ctx)
             | None \<Rightarrow> Inr ctx)"

section \<open>Unary calls\<close>

definition full_method :: "string \<Rightarrow> string \<Rightarrow> string" where
  "full_method service method = ''/'' @ service @ ''/'' @ method"

text \<open>The route back: all the proxies the request passed but the last one.\<close>

definition reply_route :: "RequestHeader \<Rightarrow> string list option" where
  "reply_route h = (if length (hProxyRecord h) > 1 then Some (butlast (hProxyRecord h)) else None)"

text \<open>The decoder \<open>dec\<close>: what it gives, and the events of one use of it.\<close>

definition unary_dec :: "env \<Rightarrow> 'm codec \<Rightarrow> nat \<Rightarrow> Body option \<Rightarrow> (gerr + 'm) \<times> trace" where
  "unary_dec env cd n body =
     (case GetData body of
        None \<Rightarrow> (Inr (zeroMsg cd), [])
      | Some data \<Rightarrow>
          (case Unmarshal cd (Some data) of
             Inl err \<Rightarrow> (Inl (StatusErr \<lparr>stCode = code_InvalidArgument, stMessage = errText env err,
                                         stDetails = []\<rparr>), [])
           | Inr msg \<Rightarrow> (Inr msg, stats_all n [EvInPayload False (length data)])))"

text \<open>The status of an application error.\<close>

definition app_status :: "env \<Rightarrow> gerr option \<Rightarrow> ResponseStatus option" where
  "app_status env appErr =
     (case appErr of
        None \<Rightarrow> None
      | Some e \<Rightarrow>
          let st = (case stFromError env e of (s, True) \<Rightarrow> s | (s, False) \<Rightarrow> stFromContextError env e)
          in Some \<lparr>rsCode = stCode st, rsMessage = stMessage st, rsDetails = stDetails st\<rparr>)"

text \<open>The marshalled response and its number of buffers; a marshal error leaves no body.\<close>

definition resp_body :: "'m codec \<Rightarrow> 'm option \<Rightarrow> Body option \<times> nat" where
  "resp_body cd resp =
     (case resp of
        None \<Rightarrow> (None, 0)
      | Some r \<Rightarrow>
          (case Marshal cd r of
             Inl err \<Rightarrow> (None, 0)
           | Inr data \<Rightarrow> (Some \<lparr>bData = Materialize cd data\<rparr>, length data)))"

definition md_or_empty :: "MD option \<Rightarrow> MD" where
  "md_or_empty m = (case m of None \<Rightarrow> Map.empty | Some x \<Rightarrow> x)"

text \<open>The response message, from what the handler returned and left in its transport stream.\<close>

definition unary_resp ::
  "env \<Rightarrow> 'm codec \<Rightarrow> string \<Rightarrow> Rpc \<Rightarrow> RequestHeader \<Rightarrow> 'm option \<Rightarrow> gerr option \<Rightarrow>
   unaryServerTransportStream \<Rightarrow> Rpc" where
  "unary_resp env cd fullMethod rpc h resp appErr sts =
     \<lparr>rpcId = rpcId rpc,
      rpcHeader = Some ((header_of fullMethod (hDestination h) (hSource h)
                           (ToKeyValue env [md_or_empty (ut_GetHeaders sts)]))
                        \<lparr>hProxyNext := reply_route h\<rparr>),
      rpcStatus = app_status env appErr,
      rpcBody = fst (resp_body cd resp),
      rpcTrailer = Some \<lparr>tMetadata = Some (ToKeyValue env [md_or_empty (ut_GetTrailers sts)])\<rparr>,
      rpcReset = None\<rparr>"

definition processUnaryRpc ::
  "env \<Rightarrow> 'm codec \<Rightarrow> tagger \<Rightarrow> int \<Rightarrow> ('m, 't) Server \<Rightarrow> Context \<Rightarrow> ('m, 't) serviceInfo \<Rightarrow>
   'm MethodDesc \<Rightarrow> Rpc \<Rightarrow> (Rpc \<times> trace) go" where
  "processUnaryRpc env cd tag now srv clientCtx info md rpc =
     (case rpcHeader rpc of
        None \<Rightarrow> Panic
      | Some h \<Rightarrow>
          (case contextFromHeaders env now clientCtx h of
             Inl err \<Rightarrow> Panic
           | Inr ctx \<Rightarrow>
               let n = srvHandlers srv;
                   fullMethod = full_method (siName info) (MethodName md);
                   start = StatsStartServerRPC tag n False fullMethod False False ctx;
                   dec = unary_dec env cd n (rpcBody rpc)
               in go_bind (mdHandler md (srvUnary srv) (fst start) (fst dec) (NewUnaryServerTransportStream fullMethod))
                    (\<lambda>((resp, appErr, decs), sts).
                       Ret (unary_resp env cd fullMethod rpc h resp appErr sts,
                            snd start @ concat (replicate decs (snd dec)) @
                            stats_all n [EvOutHeader False fullMethod (md_or_empty (ut_GetHeaders sts)),
                                         EvOutPayload False (snd (resp_body cd resp)),
                                         EvOutTrailer False (md_or_empty (ut_GetTrailers sts))] @
                            StatsEndRPC n False appErr))))"

section \<open>Dispatch\<close>

text \<open>What the loop of \<open>serve\<close> does with a message it has read.\<close>

datatype ('m, 't) dispatch =
    Ignore
  | Unary "('m, 't) serviceInfo" "'m MethodDesc"
  | Stream "('m, 't) serviceInfo" "'t ServerStreamDesc"

definition serve_dispatch :: "('m, 't) Server \<Rightarrow> Rpc \<Rightarrow> ('m, 't) dispatch" where
  "serve_dispatch srv rpc =
     (case rpcHeader rpc of
        None \<Rightarrow> Ignore
      | Some h \<Rightarrow>
          (case parseRawMethod (hMethod h) of
             Inl err \<Rightarrow> Ignore
           | Inr (service, method) \<Rightarrow>
               if hDestination h \<noteq> srvId srv then Ignore
               else (case services srv service of
                       None \<Rightarrow> Ignore
                     | Some si \<Rightarrow>
                         (case siMethods si method of
                            Some md \<Rightarrow> Unary si md
                          | None \<Rightarrow>
                              (case siStreams si method of
                                 Some sd \<Rightarrow> Stream si sd
                               | None \<Rightarrow> Ignore)))))"

section \<open>Streams of a connection\<close>

text \<open>
  A \<^verbatim>\<open>streamHandler\<close> of the source is shared by the map and the stream's goroutine: its channels and
  the context its \<^verbatim>\<open>cancel\<close> ends are an object of \<open>hdObjs\<close>, and the map holds its index. \<open>hdCause\<close> is the
  cause the handler's context was cancelled with.
\<close>

record streamHandler =
  shCh :: "Rpc chan"
  shDone :: "unit chan"
  shCtx :: Context

record handler =
  hdCtx :: Context
  hdCause :: "gerr option"
  hdStreams :: "u64 \<rightharpoonup> nat"
  hdObjs :: "streamHandler list"

definition newHandler :: "('m, 't) Server \<Rightarrow> handler" where
  "newHandler srv = \<lparr>hdCtx = srvCtx srv, hdCause = ctxErr (srvCtx srv), hdStreams = Map.empty, hdObjs = []\<rparr>"

text \<open>\<^verbatim>\<open>h.cancel(err)\<close>: the first cancellation decides the cause.\<close>

definition hd_cancel :: "gerr \<Rightarrow> handler \<Rightarrow> handler" where
  "hd_cancel err h =
     (if ctx_done (hdCtx h) then h else h\<lparr>hdCtx := ctx_cancel (hdCtx h), hdCause := Some err\<rparr>)"

definition upd_obj :: "nat \<Rightarrow> (streamHandler \<Rightarrow> streamHandler) \<Rightarrow> handler \<Rightarrow> handler" where
  "upd_obj r f h = h\<lparr>hdObjs := (hdObjs h)[r := f (hdObjs h ! r)]\<rparr>"

definition sh_cancel :: "nat \<Rightarrow> handler \<Rightarrow> handler" where
  "sh_cancel r h = upd_obj r (\<lambda>sh. sh\<lparr>shCtx := ctx_cancel (shCtx sh)\<rparr>) h"

definition is_reset :: "Rpc \<Rightarrow> bool" where
  "is_reset rpc \<longleftrightarrow> rpcReset rpc \<noteq> None \<and> GetType (rpcReset rpc) = ''RST_STREAM''"

text \<open>The reset message, written straight to the connection. A message without a header panics.\<close>

definition reset_rpc :: "Rpc \<Rightarrow> RequestHeader \<Rightarrow> Rpc" where
  "reset_rpc rpc h =
     \<lparr>rpcId = rpcId rpc,
      rpcHeader = Some ((header_of (hMethod h) (hDestination h) (hSource h) [])\<lparr>hProxyNext := reply_route h\<rparr>),
      rpcStatus = None, rpcBody = None, rpcTrailer = Some \<lparr>tMetadata = None\<rparr>,
      rpcReset = Some \<lparr>rType = ''RST_STREAM''\<rparr>\<rparr>"

definition resetStream :: "'t rpc_write \<Rightarrow> Rpc \<Rightarrow> handler \<Rightarrow> 't \<Rightarrow> (gerr option \<times> 't) go" where
  "resetStream wr rpc h t =
     (case rpcHeader rpc of
        None \<Rightarrow> Panic
      | Some hdr \<Rightarrow> wr (hdCtx h) (reset_rpc rpc hdr) t)"

text \<open>
  \<open>processStreamingRpc\<close>, under the handler's mutex: its error and, when it starts one, the object of
  the new stream. \<open>p\<close> and \<open>q\<close> are the scheduler's choices in the three-way \<^verbatim>\<open>select\<close>.
\<close>

definition stream_deliver ::
  "bool \<Rightarrow> bool \<Rightarrow> Context \<Rightarrow> nat \<Rightarrow> Rpc \<Rightarrow> handler \<Rightarrow> (gerr option \<times> handler) go" where
  "stream_deliver p q clientCtx r rpc h =
     select2 p
       (go_bind (chan_send (shCh (hdObjs h ! r)) rpc)
          (\<lambda>ch. Ret (None, upd_obj r (\<lambda>sh. sh\<lparr>shCh := ch\<rparr>) h)))
       (select2 q
          (on_done clientCtx (\<lambda>e. (Some e, h)))
          (on_done (hdCtx h) (\<lambda>e. (hdCause h, h))))"

definition processStreamingRpc ::
  "env \<Rightarrow> 't rpc_write \<Rightarrow> bool \<Rightarrow> bool \<Rightarrow> int \<Rightarrow> Context \<Rightarrow> Rpc \<Rightarrow> handler \<times> 't \<Rightarrow>
   ((gerr option \<times> nat option) \<times> handler \<times> 't) go" where
  "processStreamingRpc env wr p q now clientCtx rpc st =
     (case st of (h, t) \<Rightarrow>
      case hdStreams h (rpcId rpc) of
        Some r \<Rightarrow>
          if is_reset rpc then Ret ((None, None), sh_cancel r h, t)
          else go_bind (stream_deliver p q clientCtx r rpc h) (\<lambda>(err, h1). Ret ((err, None), h1, t))
      | None \<Rightarrow>
          if is_reset rpc then Ret ((None, None), h, t)
          else if rpcBody rpc \<noteq> None
          then go_bind (resetStream wr rpc h t) (\<lambda>(err, t1). Ret ((err, None), h, t1))
          else if rpcTrailer rpc \<noteq> None then Ret ((None, None), h, t)
          else
            (case rpcHeader rpc of
               None \<Rightarrow> Panic
             | Some hdr \<Rightarrow>
                 (case contextFromHeaders env now clientCtx hdr of
                    Inl err \<Rightarrow> go_bind (resetStream wr rpc h t) (\<lambda>(err, t1). Ret ((err, None), h, t1))
                  | Inr ctx \<Rightarrow>
                      let r = length (hdObjs h)
                      in Ret ((None, Some r),
                              h\<lparr>hdStreams := (hdStreams h)(rpcId rpc \<mapsto> r),
                                hdObjs := hdObjs h @
                                  [\<lparr>shCh = make_chan 1, shDone = make_chan 1, shCtx = ctx\<rparr>]\<rparr>,
                              t))))"

definition unregisterStream :: "u64 \<Rightarrow> handler \<Rightarrow> handler go" where
  "unregisterStream sid h =
     (case hdStreams h sid of
        None \<Rightarrow> Ret h
      | Some r \<Rightarrow>
          let h1 = sh_cancel r h
          in go_bind (chan_send (shDone (hdObjs h1 ! r)) ()) (\<lambda>d.
               Ret ((upd_obj r (\<lambda>sh. sh\<lparr>shDone := d\<rparr>) h1)
                    \<lparr>hdStreams := (hdStreams h)(sid := None)\<rparr>)))"

text \<open>The two sides of a stream's \<^verbatim>\<open>RpcReadWriter\<close>: its own channel, and the connection's write channel.\<close>

definition stream_readerFunc ::
  "bool \<Rightarrow> nat \<Rightarrow> Context \<Rightarrow> handler \<Rightarrow> ((gerr + Rpc) \<times> handler) go" where
  "stream_readerFunc pick r ctx h =
     select2 pick
       (go_bind (chan_recv (shCh (hdObjs h ! r))) (\<lambda>(v, ch).
          let h1 = upd_obj r (\<lambda>sh. sh\<lparr>shCh := ch\<rparr>) h
          in case v of
               None \<Rightarrow> Ret (Inl (Errorf ''rCh closed''), h1)
             | Some msg \<Rightarrow> Ret (Inr msg, h1)))
       (on_done ctx (\<lambda>e. (Inl e, h)))"

definition stream_writerFunc :: "bool \<Rightarrow> Rpc chan rpc_write" where
  "stream_writerFunc pick ctx rpc writeChan =
     select2 pick
       (on_done ctx (\<lambda>e. (Some e, writeChan)))
       (go_bind (chan_send writeChan rpc) (\<lambda>c. Ret (None, c)))"

interpretation sw: rpc_writer "stream_writerFunc pick" buf for pick
proof unfold_locales
  show "buf t' = buf t @ [rpc]" if "stream_writerFunc pick ctx rpc t = Ret (None, t')" for ctx rpc t t'
    using select2_RetD[OF that[unfolded stream_writerFunc_def]]
    by (auto simp: go_bind_Ret_iff chan_simps)
  show "buf t' = buf t" if "stream_writerFunc pick ctx rpc t = Ret (Some e, t')" for ctx rpc t e t'
    using select2_RetD[OF that[unfolded stream_writerFunc_def]]
    by (auto simp: go_bind_Ret_iff chan_simps)
qed

text \<open>\<open>runStream\<close> up to its deferred \<open>unregisterStream\<close>: the application's handler on a fresh stream, then
  the trailer with its error.\<close>

definition runStream ::
  "env \<Rightarrow> tagger \<Rightarrow> 't rpc_write \<Rightarrow> ('m, 't) Server \<Rightarrow> ('m, 't) serviceInfo \<Rightarrow> 't ServerStreamDesc \<Rightarrow> Rpc \<Rightarrow>
   Context \<Rightarrow> 't \<Rightarrow> (gerr option \<times> trace \<times> 't) go" where
  "runStream env tag wr srv info sd rpc ctx0 t =
     (case rpcHeader rpc of
        None \<Rightarrow> Panic
      | Some h \<Rightarrow>
          let n = srvHandlers srv;
              fullMethod = full_method (siName info) (StreamName sd);
              (ctx, tr0) = StatsStartServerRPC tag n False fullMethod (ClientStreams sd) (ServerStreams sd) ctx0;
              stream = NewServerStream ctx (rpcId rpc) fullMethod (hDestination h) (hSource h) n
          in go_bind
               (case srvStream srv of
                  Some i \<Rightarrow> i (stream, t) (fullMethod, ClientStreams sd, ServerStreams sd) (sdHandler sd)
                | None \<Rightarrow> sdHandler sd (stream, t))
               (\<lambda>(appErr, st1).
                  go_bind (ss_SendTrailer env wr appErr st1) (\<lambda>(err, (ss2, t2)).
                    Ret (err, tr0 @ ssStats ss2 @ StatsEndRPC n False appErr, t2))))"

section \<open>Lemmas\<close>

lemma getUnit_simps [simp]:
  "getUnit CHR ''H'' = 3600 * 10 ^ 9" "getUnit CHR ''M'' = 60 * 10 ^ 9" "getUnit CHR ''S'' = 10 ^ 9"
  "getUnit CHR ''m'' = 10 ^ 6" "getUnit CHR ''u'' = 10 ^ 3" "getUnit CHR ''n'' = 1"
  by (simp_all add: getUnit_def)

lemma parseGrpcTimeout_format:
  assumes "0 \<le> v" "v < 2 ^ 63" "getUnit u \<noteq> 0"
  shows "parseGrpcTimeout (format_d v @ [u]) = Some (word_of_int v * getUnit u)"
  using assms by (simp add: parseGrpcTimeout_def ParseInt_format_d)

lemma sint_mod: "sint (word_of_int x :: i64) mod 2 ^ 64 = x mod 2 ^ 64"
proof -
  have "take_bit 64 (signed_take_bit 63 x) = take_bit 64 x" by (rule take_bit_signed_take_bit) simp
  then show ?thesis unfolding take_bit_eq_mod sint_sbintrunc' by simp
qed

lemma contextFromHeaders_Inl_iff:
  "(\<exists>e. contextFromHeaders env now parent h = Inl e) \<longleftrightarrow> (\<exists>kv \<in> set (hHeaders h). kv_bad env kv)"
  using ToMetadata_fails_iff[of env "hHeaders h"]
  by (auto simp: contextFromHeaders_def Let_def split: sum.splits option.splits)

text \<open>The method table of a service: the last description with a name counts.\<close>

lemma fold_upd_lookup:
  "d \<in> set ds \<Longrightarrow> distinct (map key ds) \<Longrightarrow> fold (\<lambda>d m. m(key d \<mapsto> d)) ds m (key d) = Some d"
proof (induction ds arbitrary: m)
  case (Cons x ds)
  have keep: "key d \<notin> key ` set ds \<Longrightarrow> fold (\<lambda>d m. m(key d \<mapsto> d)) ds m (key d) = m (key d)" for m
    by (induction ds arbitrary: m) auto
  show ?case
  proof (cases "d = x")
    case True
    with Cons.prems have "fold (\<lambda>d m. m(key d \<mapsto> d)) ds (m(key x \<mapsto> x)) (key d) = (m(key x \<mapsto> x)) (key d)"
      by (intro keep) simp
    also have "\<dots> = Some d" using True by simp
    finally show ?thesis by (simp del: fun_upd_apply)
  next
    case False
    with Cons show ?thesis by (simp del: fun_upd_apply)
  qed
qed simp

lemma processUnaryRpc_Ret:
  assumes "processUnaryRpc env cd tag now srv clientCtx info md rpc = Ret (resp, tr)" and "rpcHeader rpc = Some h"
  shows "\<exists>ctx respv appErr decs sts.
    mdHandler md (srvUnary srv) ctx (fst (unary_dec env cd (srvHandlers srv) (rpcBody rpc)))
      (NewUnaryServerTransportStream (full_method (siName info) (MethodName md))) = Ret ((respv, appErr, decs), sts) \<and>
    resp = unary_resp env cd (full_method (siName info) (MethodName md)) rpc h respv appErr sts"
proof (cases "contextFromHeaders env now clientCtx h")
  case (Inr ctx)
  with assms show ?thesis by (auto simp: processUnaryRpc_def Let_def go_bind_Ret_iff) blast
qed (use assms in \<open>simp add: processUnaryRpc_def\<close>)

lemma app_status_None_iff: "app_status env e = None \<longleftrightarrow> e = None"
  by (simp add: app_status_def Let_def split: option.split)

context rpc_writer
begin

text \<open>A message for a stream the connection does not know, on any transport.\<close>

lemma unknown_stream:
  assumes "processStreamingRpc env wr p q now clientCtx rpc (h, t) = Ret ((e, new), h', t')"
    and "hdStreams h (rpcId rpc) = None" and hdr: "rpcHeader rpc = Some hdr"
  shows "(new \<noteq> None \<longleftrightarrow> \<not> is_reset rpc \<and> rpcBody rpc = None \<and> rpcTrailer rpc = None \<and>
            \<not> (\<exists>kv \<in> set (hHeaders hdr). kv_bad env kv)) \<and>
    (\<forall>r. new = Some r \<longrightarrow> hdStreams h' = (hdStreams h)(rpcId rpc \<mapsto> r) \<and> r = length (hdObjs h)) \<and>
    (new = None \<longrightarrow> h' = h) \<and>
    (sent t' = sent t \<or>
     \<not> is_reset rpc \<and> (rpcBody rpc \<noteq> None \<or> (\<exists>kv \<in> set (hHeaders hdr). kv_bad env kv)) \<and>
     sent t' = sent t @ [reset_rpc rpc hdr])"
proof -
  have rst: "sent t' = sent t \<or> sent t' = sent t @ [reset_rpc rpc hdr]"
    if "resetStream wr rpc h t = Ret (e1, t')" for e1
    using that hdr write_nil write_err by (cases e1) (auto simp: resetStream_def)
  note bad = contextFromHeaders_Inl_iff[of env now clientCtx hdr]
  show ?thesis
  proof (cases "contextFromHeaders env now clientCtx hdr")
    case (Inl er)
    with assms bad rst show ?thesis
      by (auto simp: processStreamingRpc_def go_bind_Ret_iff split: if_splits)
  next
    case (Inr ctx)
    with bad have "\<not> (\<exists>kv \<in> set (hHeaders hdr). kv_bad env kv)" by simp
    with Inr assms rst show ?thesis
      by (auto simp: processStreamingRpc_def go_bind_Ret_iff Let_def split: if_splits)
  qed
qed

end

section \<open>Properties\<close>

text \<open>Method names round-trip: what \<open>fmt.Sprintf("/%s/%s", service, method)\<close> prints parses back into the
  service and the method, for any service name and any method name without a slash; and a name
  parses exactly when it has a slash after an optional leading one.\<close>

lemma parseRawMethod_full_method:
  "(CHR ''/'' \<notin> set method \<longrightarrow> parseRawMethod (full_method service method) = Inr (service, method)) \<and>
   ((\<exists>e. parseRawMethod name = Inl e) \<longleftrightarrow>
      CHR ''/'' \<notin> set (if name \<noteq> [] \<and> hd name = CHR ''/'' then tl name else name))"
proof
  show "CHR ''/'' \<notin> set method \<longrightarrow> parseRawMethod (full_method service method) = Inr (service, method)"
    by (auto simp: parseRawMethod_def full_method_def LastIndexByte_append)
  show "(\<exists>e. parseRawMethod name = Inl e) \<longleftrightarrow>
      CHR ''/'' \<notin> set (if name \<noteq> [] \<and> hd name = CHR ''/'' then tl name else name)"
    by (simp add: parseRawMethod_def Let_def LastIndexByte_None_iff[symmetric] split: option.split)
qed

lemma parseGrpcTimeout_unit:
  assumes "0 \<le> v" and "v < 2 ^ 63" and u: "getUnit c = word_of_int u" and "0 < u" and "u < 2 ^ 63"
  shows "\<exists>d. parseGrpcTimeout (format_d v @ [c]) = Some d \<and>
    sint d mod 2 ^ 64 = (v * u) mod 2 ^ 64 \<and> (v * u < 2 ^ 63 \<longrightarrow> sint d = v * u)"
proof -
  have "getUnit c \<noteq> 0"
    using assms(4,5) u sint_range_id[of u] by auto
  then have p: "parseGrpcTimeout (format_d v @ [c]) = Some (word_of_int v * getUnit c)"
    by (rule parseGrpcTimeout_format[OF assms(1,2)])
  have m: "sint (word_of_int (v * u) :: i64) mod 2 ^ 64 = (v * u) mod 2 ^ 64" by (rule sint_mod)
  have f: "sint (word_of_int (v * u) :: i64) = v * u" if "v * u < 2 ^ 63"
  proof (rule sint_range_id[OF _ that])
    have "0 \<le> v * u" using assms(1,4) by simp
    then show "- (2 ^ 63) \<le> v * u" by (rule order_trans[rotated]) simp
  qed
  from p have "parseGrpcTimeout (format_d v @ [c]) = Some (word_of_int (v * u))"
    unfolding u wi_hom_mult .
  with m f show ?thesis by blast
qed

text \<open>C36: A timeout header of a number and one of the six units of gRPC (hours, minutes, seconds, milliseconds,
  microseconds, nanoseconds) gives exactly that many nanoseconds when they fit in 64
  bits; when they do not, the product wraps, and the duration is off by a multiple of \<open>2 ^ 64\<close>. With any other unit it is rejected.\<close>

theorem parseGrpcTimeout_value:
  assumes "0 \<le> v" and "v < 2 ^ 63"
  shows "(\<forall>(c, u) \<in> {(CHR ''H'', 3600 * 10 ^ 9), (CHR ''M'', 60 * 10 ^ 9), (CHR ''S'', 10 ^ 9),
       (CHR ''m'', 10 ^ 6), (CHR ''u'', 10 ^ 3), (CHR ''n'', 1)}.
       \<exists>d. parseGrpcTimeout (format_d v @ [c]) = Some d \<and>
         sint d mod 2 ^ 64 = (v * u) mod 2 ^ 64 \<and> (v * u < 2 ^ 63 \<longrightarrow> sint d = v * u)) \<and>
    (\<forall>c. c \<notin> set ''HMSmun'' \<longrightarrow> parseGrpcTimeout (format_d v @ [c]) = None)"
proof
  note unit = parseGrpcTimeout_unit[OF assms]
  show "\<forall>(c, u) \<in> {(CHR ''H'', 3600 * 10 ^ 9), (CHR ''M'', 60 * 10 ^ 9), (CHR ''S'', 10 ^ 9),
       (CHR ''m'', 10 ^ 6), (CHR ''u'', 10 ^ 3), (CHR ''n'', 1)}.
       \<exists>d. parseGrpcTimeout (format_d v @ [c]) = Some d \<and>
         sint d mod 2 ^ 64 = (v * u) mod 2 ^ 64 \<and> (v * u < 2 ^ 63 \<longrightarrow> sint d = v * u)"
    unfolding ball_simps prod.case by (intro conjI unit TrueI) simp_all
  show "\<forall>c. c \<notin> set ''HMSmun'' \<longrightarrow> parseGrpcTimeout (format_d v @ [c]) = None"
    using assms by (auto simp: parseGrpcTimeout_def ParseInt_format_d getUnit_def)
qed

theorem parseGrpcTimeout_value_witness:
  "parseGrpcTimeout ''100m'' = Some (100 * 10 ^ 6) \<and> (\<exists>d. parseGrpcTimeout ''99999999H'' = Some d \<and> sint d < 0)"
proof
  have f: "format_d 100 @ [CHR ''m''] = ''100m''" "format_d 99999999 @ [CHR ''H''] = ''99999999H''"
    by (simp_all add: format_d_def nat_digits.simps digit_char_def char_of_def bit_0)
  obtain d where p: "parseGrpcTimeout ''100m'' = Some d" and v: "sint d = 100 * 10 ^ 6"
    using parseGrpcTimeout_value[of 100] f(1) by auto
  have "d = word_of_int (100 * 10 ^ 6)" by (simp only: flip: v) simp
  with p show "parseGrpcTimeout ''100m'' = Some (100 * 10 ^ 6)" by simp
  obtain d where d: "parseGrpcTimeout ''99999999H'' = Some d"
    "sint d mod 2 ^ 64 = (99999999 * (3600 * 10 ^ 9)) mod 2 ^ 64"
    using parseGrpcTimeout_value[of 99999999] f(2) by auto
  have "sint d < 2 ^ 63" using sint_lt[of d] by simp
  then have "sint d < 0" using d(2) by (cases "0 \<le> sint d") auto
  with d(1) show "\<exists>d. parseGrpcTimeout ''99999999H'' = Some d \<and> sint d < 0" by blast
qed

text \<open>A registered method is found: after \<open>RegisterService\<close>, a message for the server that names one of the
  service's methods is dispatched to that method; and registering the service again panics.\<close>

lemma register_then_dispatch:
  assumes "RegisterService True sd srv = Ret srv'" and "distinct (map MethodName (sdMethods sd))"
    and "md \<in> set (sdMethods sd)" and "CHR ''/'' \<notin> set (MethodName md)"
    and "rpcHeader rpc = Some h" and "hMethod h = full_method (ServiceName sd) (MethodName md)"
    and "hDestination h = srvId srv"
  shows "(\<exists>info. serve_dispatch srv' rpc = Unary info md \<and> siName info = ServiceName sd) \<and>
    RegisterService True sd srv' = Panic"
proof -
  have s: "services srv (ServiceName sd) = None" using assms(1) by (auto simp: RegisterService_def split: if_splits)
  with assms(1) obtain info where "srv' = srv\<lparr>services := (services srv)(ServiceName sd \<mapsto> info)\<rparr>"
    and i: "siName info = ServiceName sd" "siMethods info = fold (\<lambda>d m. m(MethodName d \<mapsto> d)) (sdMethods sd) Map.empty"
    by (auto simp: RegisterService_def Let_def)
  moreover have "parseRawMethod (hMethod h) = Inr (ServiceName sd, MethodName md)"
    using assms(4,6) by (auto simp: parseRawMethod_def full_method_def LastIndexByte_append)
  moreover have "siMethods info (MethodName md) = Some md"
    using fold_upd_lookup[OF assms(3,2)] i(2) by simp
  ultimately show ?thesis using assms(5,7) i(1)
    by (simp add: serve_dispatch_def RegisterService_def)
qed

definition demo_method :: "bytes MethodDesc" where
  "demo_method =
     \<lparr>MethodName = ''Echo'',
      mdHandler = (\<lambda>icpt ctx req sts.
        Ret ((case req of Inl e \<Rightarrow> (None, Some e, 1) | Inr m \<Rightarrow> (Some m, None, 1)), sts))\<rparr>"

definition demo_service :: "(bytes, 't) ServiceDesc" where
  "demo_service = \<lparr>ServiceName = ''svc'', sdMethods = [demo_method], sdStreams = []\<rparr>"

definition demo_request :: "KeyValue list \<Rightarrow> Rpc" where
  "demo_request hs =
     \<lparr>rpcId = 7, rpcHeader = Some ((header_of ''/svc/Echo'' ''c'' ''s'' hs)\<lparr>hProxyRecord := [''p'', ''q'']\<rparr>),
      rpcStatus = None, rpcBody = Some \<lparr>bData = Some [1]\<rparr>, rpcTrailer = None, rpcReset = None\<rparr>"

text \<open>The response of a unary call goes back where the request came from: it has the request's id, the
  addresses swapped, the full method name, and as route all proxies of the request's record but the
  last; it always carries a trailer; it carries a status exactly when the handler returned an error.\<close>

lemma unary_response_route:
  assumes "processUnaryRpc env cd tag now srv clientCtx info md rpc = Ret (resp, tr)" and "rpcHeader rpc = Some h"
  shows "rpcId resp = rpcId rpc \<and> rpcTrailer resp \<noteq> None \<and>
    (\<exists>h'. rpcHeader resp = Some h' \<and> hSource h' = hDestination h \<and> hDestination h' = hSource h \<and>
       hMethod h' = full_method (siName info) (MethodName md) \<and>
       hProxyNext h' = (if length (hProxyRecord h) > 1 then Some (butlast (hProxyRecord h)) else None)) \<and>
    (\<exists>ctx respv appErr decs sts.
       mdHandler md (srvUnary srv) ctx (fst (unary_dec env cd (srvHandlers srv) (rpcBody rpc)))
         (NewUnaryServerTransportStream (full_method (siName info) (MethodName md))) = Ret ((respv, appErr, decs), sts) \<and>
       (rpcStatus resp \<noteq> None \<longleftrightarrow> appErr \<noteq> None) \<and> rpcBody resp = fst (resp_body cd respv))"
proof -
  obtain ctx respv appErr decs sts where
    h: "mdHandler md (srvUnary srv) ctx (fst (unary_dec env cd (srvHandlers srv) (rpcBody rpc)))
      (NewUnaryServerTransportStream (full_method (siName info) (MethodName md))) = Ret ((respv, appErr, decs), sts)" and
    r: "resp = unary_resp env cd (full_method (siName info) (MethodName md)) rpc h respv appErr sts"
    using processUnaryRpc_Ret[OF assms] by blast
  show ?thesis
  proof (intro conjI)
    show "\<exists>ctx respv appErr decs sts.
       mdHandler md (srvUnary srv) ctx (fst (unary_dec env cd (srvHandlers srv) (rpcBody rpc)))
         (NewUnaryServerTransportStream (full_method (siName info) (MethodName md))) = Ret ((respv, appErr, decs), sts) \<and>
       (rpcStatus resp \<noteq> None \<longleftrightarrow> appErr \<noteq> None) \<and> rpcBody resp = fst (resp_body cd respv)"
      using h r by (intro exI[of _ ctx] exI[of _ respv] exI[of _ appErr] exI[of _ decs] exI[of _ sts])
        (simp add: unary_resp_def app_status_None_iff)
  qed (simp_all add: r unary_resp_def reply_route_def)
qed

text \<open>C37: A unary request with a \<open>-bin\<close> header that is not valid base-64 crashes the server: processing it
  panics, whatever the method. With a header and without such an entry it panics only if the handler does.\<close>

theorem unary_malformed_panics:
  assumes "rpcHeader rpc = Some h" and "\<And>icpt ctx req sts. mdHandler md icpt ctx req sts \<noteq> Panic"
  shows "processUnaryRpc env cd tag now srv clientCtx info md rpc = Panic \<longleftrightarrow>
    (\<exists>kv \<in> set (hHeaders h). kv_bad env kv)"
proof (cases "contextFromHeaders env now clientCtx h")
  case (Inl e)
  with assms(1) contextFromHeaders_Inl_iff[of env now clientCtx h] show ?thesis by (simp add: processUnaryRpc_def)
next
  case (Inr ctx)
  then have "\<not> (\<exists>kv \<in> set (hHeaders h). kv_bad env kv)"
    using contextFromHeaders_Inl_iff[of env now clientCtx h] by simp
  moreover have "processUnaryRpc env cd tag now srv clientCtx info md rpc \<noteq> Panic"
    using assms Inr by (auto simp: processUnaryRpc_def Let_def go_bind_Panic_iff split: prod.splits)
  ultimately show ?thesis by blast
qed

theorem unary_malformed_panics_witness:
  "processUnaryRpc sample_env sample_codec (\<lambda>i m ctx. ctx) 0 (NewServer ''s'' [] :: (bytes, unit) Server)
     Background \<lparr>siName = ''svc'', siMethods = Map.empty, siStreams = Map.empty\<rparr> demo_method
     (demo_request [\<lparr>kvKey = ''k-bin'', kvValue = ''!''\<rparr>]) = Panic"
proof -
  have "is_lower_ascii ''k-bin''" and "HasSuffix ''k-bin'' bin_suffix" and "URLDecode ''!'' = None"
    by code_simp+
  then have "kv_bad sample_env \<lparr>kvKey = ''k-bin'', kvValue = ''!''\<rparr>"
    by (simp add: kv_bad_def kv_decode_def Let_def)
  then show ?thesis
    by (subst unary_malformed_panics[where h = "(header_of ''/svc/Echo'' ''c'' ''s''
          [\<lparr>kvKey = ''k-bin'', kvValue = ''!''\<rparr>])\<lparr>hProxyRecord := [''p'', ''q'']\<rparr>"])
      (auto simp: demo_request_def demo_method_def)
qed

text \<open>A message for a stream the connection does not know starts one exactly when it is no reset, has
  neither body nor trailer, and its headers decode; otherwise the table is unchanged. The only message
  that can be sent is the reset to the message's source, and only for a body or bad headers.\<close>

lemma unknown_stream_wire:
  assumes "processStreamingRpc env (goc_write pick) p q now clientCtx rpc (h, t) = Ret ((e, new), h', t')"
    and "hdStreams h (rpcId rpc) = None" and "rpcHeader rpc = Some hdr"
  shows "(new \<noteq> None \<longleftrightarrow> \<not> is_reset rpc \<and> rpcBody rpc = None \<and> rpcTrailer rpc = None \<and>
            \<not> (\<exists>kv \<in> set (hHeaders hdr). kv_bad env kv)) \<and>
    (\<forall>r. new = Some r \<longrightarrow> hdStreams h' = (hdStreams h)(rpcId rpc \<mapsto> r) \<and> r = length (hdObjs h)) \<and>
    (new = None \<longrightarrow> h' = h) \<and>
    (buf (outQ t') = buf (outQ t) \<or>
     \<not> is_reset rpc \<and> (rpcBody rpc \<noteq> None \<or> (\<exists>kv \<in> set (hHeaders hdr). kv_bad env kv)) \<and>
     buf (outQ t') = buf (outQ t) @ [reset_rpc rpc hdr])"
  by (rule goc.unknown_stream[OF assms])

end
