(* ===== verification/Goat_Unary.thy ===== *)
theory Goat_Unary
  imports Goat_Client Goat_Server
begin

text \<open>
  A unary call from end to end: \<^verbatim>\<open>client.go\<close> and the multiplexer on one side, \<^verbatim>\<open>processUnaryRpc\<close> of \<^verbatim>\<open>server.go\<close> on the
  other. The lemma \<open>unary_call\<close> is what the client's caller gets for what the server's handler returns; the
  properties of the root theory and of the example program rest on it.
\<close>

section \<open>The peer of a waiting call\<close>

text \<open>The rest of the program while a unary call waits: the server processes the request on the wire, and the
  client's read loop hands its response over.\<close>

definition unary_peer ::
  "env \<Rightarrow> 'm codec \<Rightarrow> tagger \<Rightarrow> int \<Rightarrow> ('m, 't) Server \<Rightarrow> ('m, 't) serviceInfo \<Rightarrow> 'm MethodDesc \<Rightarrow>
   Context \<Rightarrow> Rpc list world \<Rightarrow> (Context \<times> Rpc list world) go" where
  "unary_peer env cd tag now srv info md ctx w =
     (case w of (m, t) \<Rightarrow>
        go_bind (processUnaryRpc env cd tag now srv Background info md (last t)) (\<lambda>(resp, tr).
          go_bind (handleResponse resp m) (\<lambda>m'. Ret (ctx, (m', t)))))"

lemma unary_dec_request:
  assumes "codec_law cd" and "Marshal cd args = Inr bs"
  shows "fst (unary_dec env cd n (Some \<lparr>bData = Materialize cd bs\<rparr>)) = Inr args"
  using codec_lawD[OF assms] assms(1)
  by (auto simp: unary_dec_def GetData_def codec_law_def split: option.splits)

text \<open>What the client makes of the server's response.\<close>

lemma unary_reply_resp:
  "unary_reply env 0 header (unary_resp env cd fm rpc h respv appErr sts) =
     Ret ((case app_status env appErr of
             Some st \<Rightarrow> (None, stErr env \<lparr>stCode = rsCode st, stMessage = rsMessage st, stDetails = rsDetails st\<rparr>)
           | None \<Rightarrow>
               (case fst (resp_body cd respv) of
                  Some b \<Rightarrow> (Some b, None)
                | None \<Rightarrow> (None, Some (Errorf ''malformed response: no body or status'')))), [])"
  by (simp add: unary_reply_def unary_resp_def Let_def stats_all_def split: option.split)

section \<open>The call\<close>

lemma unary_call:
  assumes codec: "codec_law cd" and errs: "err_ok env" "from_error_ok env"
    and opts: "opts_supported opts" and args: "Marshal cd args = Inr bs"
    and n: "statsHandlers cc = 0" "srvHandlers srv = 0" and live: "ctxErr ctx = None"
    and m: "readErrorIfDone m = None"
    and sctx: "contextFromHeaders env now' Background
        (header_of method (sourceAddress cc) (destAddress cc) (headersFromContext env now ctx)) = Inr sctx"
    and hdl: "mdHandler md (srvUnary srv) sctx (Inr args)
        (NewUnaryServerTransportStream (full_method (siName info) (MethodName md))) = Ret ((respv, appErr, k), sts)"
    and app: "appErr = None \<or> (\<exists>s. appErr = Some (StatusErr s) \<and> stCode s \<noteq> code_OK)"
  shows "\<exists>tr w'. cc_invoke env cd tag list_write (unary_peer env cd tag' now' srv info md) pick now cc ctx method args opts (m, t) =
      Ret ((case appErr of
              Some e \<Rightarrow> Inl e
            | None \<Rightarrow>
                if \<exists>r bs'. respv = Some r \<and> Marshal cd r = Inr bs' then Inr (the respv)
                else Inl (Errorf ''malformed response: no body or status'')), tr, w')"
proof -
  let ?hs = "headersFromContext env now ctx"
  let ?h = "header_of method (sourceAddress cc) (destAddress cc) ?hs"
  let ?b = "\<lparr>bData = Materialize cd bs\<rparr>"
  let ?sid = "streamCounter m + 1" and ?c = "length (chans m)"
  let ?m1 = "m\<lparr>streamCounter := ?sid, chans := chans m @ [make_chan 1]\<rparr>"
  let ?rpc = "\<lparr>rpcId = ?sid, rpcHeader = Some ?h, rpcStatus = None, rpcBody = Some ?b, rpcTrailer = None, rpcReset = None\<rparr>"
  let ?fm = "full_method (siName info) (MethodName md)"
  let ?resp = "unary_resp env cd ?fm ?rpc ?h respv appErr sts"
  let ?ch = "(make_chan 1)\<lparr>buf := [?resp]\<rparr>"
  let ?m3 = "(registerHandler ?sid ?c ?m1)\<lparr>chans := chans m @ [?ch]\<rparr>"
  let ?m6 = "?m3\<lparr>chans := chans m @ [(make_chan 1)\<lparr>closed := True\<rparr>], handlers := (handlers m)(?sid := None)\<rparr>"
  have new: "newStreamId m = (?sid, ?c, ?m1)" by (simp add: newStreamId_def Let_def)
  have "fst (unary_dec env cd 0 (Some ?b)) = Inr args" by (rule unary_dec_request[OF codec args])
  then have srv: "\<exists>tr. processUnaryRpc env cd tag' now' srv Background info md ?rpc = Ret (?resp, tr)"
    using sctx hdl n(2) by (simp add: processUnaryRpc_def Let_def StatsStartServerRPC_def)
  have id: "rpcId ?resp = ?sid" by (simp add: unary_resp_def)
  have peer: "unary_peer env cd tag' now' srv info md ctx (registerHandler ?sid ?c ?m1, t @ [?rpc]) =
      Ret (ctx, (?m3, t @ [?rpc]))"
    using srv id by (auto simp: unary_peer_def handleResponse_def registerHandler_def chan_send_def)
  obtain r where r: "unary_reply env 0 ?h ?resp = Ret (r, [])"
    and rv: "r = (case app_status env appErr of
             Some st \<Rightarrow> (None, stErr env \<lparr>stCode = rsCode st, stMessage = rsMessage st, stDetails = rsDetails st\<rparr>)
           | None \<Rightarrow>
               (case fst (resp_body cd respv) of
                  Some b \<Rightarrow> (Some b, None)
                | None \<Rightarrow> (None, Some (Errorf ''malformed response: no body or status''))))"
    unfolding unary_reply_resp by blast
  have call: "CallUnaryMethod env list_write (unary_peer env cd tag' now' srv info md) pick 0 ctx ?h ?b (m, t) =
      Ret (r, [], (?m6, t @ [?rpc]))"
    by (rule CallUnaryMethod_reply[where wr = list_write and others = "unary_peer env cd tag' now' srv info md"
          and ch = "make_chan 1", OF m new _ peer _ live r])
      (simp_all add: list_write_def registerHandler_def chan_recv_def unregisterHandler_def chan_close_def make_chan_def)
  have cases: "r = (case appErr of
      Some e \<Rightarrow> (None, Some e)
    | None \<Rightarrow> (case fst (resp_body cd respv) of
                  Some b \<Rightarrow> (Some b, None)
                | None \<Rightarrow> (None, Some (Errorf ''malformed response: no body or status''))))"
    using app errs by (auto simp: rv app_status_def from_error_ok_def err_okD)
  show ?thesis
  proof (cases appErr)
    case (Some e)
    then show ?thesis
      using call cases args n(1) opts by (simp add: cc_invoke_def StatsStartServerRPC_def Let_def)
  next
    case None
    show ?thesis
    proof (cases "\<exists>r bs'. respv = Some r \<and> Marshal cd r = Inr bs'")
      case True
      then obtain rr bs' where "respv = Some rr" "Marshal cd rr = Inr bs'" by blast
      then show ?thesis
        using None call cases args n(1) codec_lawD[OF codec, of rr bs'] opts
        by (simp add: cc_invoke_def StatsStartServerRPC_def Let_def resp_body_def decode_reply_def)
    next
      case False
      then have "fst (resp_body cd respv) = None"
        by (auto simp: resp_body_def split: option.splits sum.splits)
      then show ?thesis
        using False None call cases args n(1) opts
        by (simp add: cc_invoke_def StatsStartServerRPC_def Let_def)
    qed
  qed
qed

end
