(* ===== verification/Goat_Mux_Live.thy ===== *)
theory Goat_Mux_Live
  imports Goat_Fair Goat_Mux
begin

text \<open>
  Progress of the client's multiplexer: in every run that is fair to its read loop and to the receivers, a response
  the read loop has read is eventually handed to its call, as long as no receiver gives up with a response in its
  channel.
\<close>

section \<open>The steps\<close>

text \<open>A step of the read loop that does not depend on the peer: it takes the mutex, delivers or drops a response, or closes.
  The reads of the transport are not among them, so a fair run may have a peer that is silent for ever.\<close>

definition reader_moves :: "env \<Rightarrow> RequestHeader \<Rightarrow> mux_sys \<Rightarrow> mux_sys \<Rightarrow> bool" where
  "reader_moves env header s t \<longleftrightarrow> mux_step env 0 header s t \<and> reader s \<noteq> RRead \<and> reader t \<noteq> reader s"

definition receives :: "env \<Rightarrow> RequestHeader \<Rightarrow> nat \<Rightarrow> mux_sys \<Rightarrow> mux_sys \<Rightarrow> bool" where
  "receives env header i s t \<longleftrightarrow>
     mux_step env 0 header s t \<and> i < length (calls s) \<and> length (cGot (calls s ! i)) < length (cGot (calls t ! i))"

text \<open>The read loop waits, with the mutex, to deliver to channel \<open>c\<close> of call \<open>i\<close>.\<close>

definition delivering :: "Rpc \<Rightarrow> nat \<Rightarrow> nat \<Rightarrow> Rpc list \<Rightarrow> mux_sys \<Rightarrow> bool" where
  "delivering rpc c i lg s \<longleftrightarrow> reader s = RDeliver rpc \<and> handlers (rm s) (rpcId rpc) = Some c \<and>
     i < length (calls s) \<and> cRef (calls s ! i) = Some c \<and> log s = lg"

lemma delivering_step:
  assumes core: "mux_core s" and d: "delivering rpc c i lg s" and st: "mux_step env 0 header s t"
  shows "delivering rpc c i lg t \<or> reader t = RRead \<and> log t = lg @ [rpc]"
proof -
  have free: "\<not> mutex_free s" using d by (simp add: delivering_def mutex_free_def)
  have pc: "cPc (calls s ! i) \<noteq> PAlloc"
    using mux_core_callD[OF core, of i] d by (auto simp: delivering_def call_ok_def split: option.splits)
  from st show ?thesis
  proof (cases rule: mux_step.cases)
    case (alloc j sid c' m)
    then have "j \<noteq> i" using pc by (auto simp: at_pc_def)
    with alloc d show ?thesis by (auto simp: delivering_def upd_call_def newStreamId_def Let_def)
  qed (use d free in \<open>auto simp: delivering_def upd_call_def nth_append at_pc_def nth_list_update\<close>)
qed

lemma got_response_step:
  assumes "mux_step env n header s t" and "reader s = RGot rpc"
  shows "log t = log s \<and> reader t \<in> {RGot rpc, RDeliver rpc}"
  using assms by (cases rule: mux_step.cases) auto

lemma unknown_step:
  assumes "mux_step env n header s t" and "reader s = RDeliver rpc" and "handlers (rm s) (rpcId rpc) = None"
  shows "log t = log s \<and> handlers (rm t) (rpcId rpc) = None \<and> reader t \<in> {RRead, RDeliver rpc}"
proof -
  have "\<not> mutex_free s" using assms(2) by (simp add: mutex_free_def)
  with assms show ?thesis
    by (cases rule: mux_step.cases) (auto simp: newStreamId_def Let_def handleResponse_def)
qed

lemma got_grows:
  assumes "mux_step env n header s t" and "i < length (calls s)"
  shows "length (cGot (calls s ! i)) \<le> length (cGot (calls t ! i))"
  using assms by (cases rule: mux_step.cases) (auto simp: nth_calls_upd nth_append)

text \<open>What the channel holds is what was handed over and has not been received.\<close>

lemma delivering_buf:
  assumes "mux_core s" and "delivering rpc c i lg s"
  shows "length (buf (chans (rm s) ! c)) = length (filter (\<lambda>r. rpcId r = ident c) lg) - length (cGot (calls s ! i))"
  using mux_core_callD[OF assms(1), of i] assms(2) by (auto simp: delivering_def call_ok_def)

lemma channel_one: "mux_core s \<Longrightarrow> delivering rpc c i lg s \<Longrightarrow> length (buf (chans (rm s) ! c)) \<le> 1"
  using handlers_okD[of "rm s" "log s" "rpcId rpc" c] mux_okD(2)[of "rm s" "log s" c]
  by (auto simp: mux_core_def delivering_def resp_chan_ok_def)

section \<open>Properties\<close>

text \<open>Nobody gives up with a response in its channel while the read loop wants to deliver the next.\<close>

definition patient :: "mux_sys \<Rightarrow> bool" where
  "patient s \<longleftrightarrow> (\<forall>rpc c i. delivering rpc c i (log s) s \<longrightarrow> length (buf (chans (rm s) ! c)) = 1 \<longrightarrow> at_pc s i PWait)"

lemma delivering_leads:
  assumes core: "\<And>j. mux_core (\<sigma> j)" and run: "run (mux_step env 0 header) \<sigma>"
    and "weakly_fair (reader_moves env header) \<sigma>" and "weakly_fair (receives env header i) \<sigma>"
    and patient: "\<And>j. patient (\<sigma> j)"
  shows "leads_to \<sigma> (delivering rpc c i lg) (\<lambda>s. reader s = RRead \<and> log s = lg @ [rpc])"
proof -
  let ?D = "delivering rpc c i lg" and ?R = "\<lambda>s. reader s = RRead \<and> log s = lg @ [rpc]"
  let ?full = "\<lambda>s. length (buf (chans (rm s) ! c)) = 1"
  have nxt: "?D (\<sigma> (Suc j)) \<or> ?R (\<sigma> (Suc j))" if "?D (\<sigma> j)" for j
    using run delivering_step[OF core that, of env header "\<sigma> (Suc j)"] that unfolding run_def by metis
  have got: "length (cGot (calls (\<sigma> j) ! i)) \<le> length (cGot (calls (\<sigma> (Suc j)) ! i))" if "?D (\<sigma> j)" for j
    using run got_grows[of env 0 header "\<sigma> j" "\<sigma> (Suc j)" i] that unfolding run_def delivering_def by (metis order_refl)
  have "leads_to \<sigma> ?D (\<lambda>s. ?R s \<or> ?D s \<and> \<not> ?full s)"
  proof (rule wf_leads_to[OF assms(4)])
    fix j assume d: "?D (\<sigma> j)" and "\<not> (?R (\<sigma> j) \<or> ?D (\<sigma> j) \<and> \<not> ?full (\<sigma> j))"
    then have full: "?full (\<sigma> j)" by simp
    show "?D (\<sigma> (Suc j)) \<or> ?R (\<sigma> (Suc j)) \<or> ?D (\<sigma> (Suc j)) \<and> \<not> ?full (\<sigma> (Suc j))" using nxt[OF d] by blast
    have w: "at_pc (\<sigma> j) i PWait" "cRef (calls (\<sigma> j) ! i) = Some c"
      using patient[of j] d full by (auto simp: patient_def delivering_def)
    from mux_can_receive[OF w full, of env header] w(1) show "enabled (receives env header i) (\<sigma> j)"
      by (force simp: enabled_def receives_def at_pc_def)
    show "?R (\<sigma> (Suc j)) \<or> ?D (\<sigma> (Suc j)) \<and> \<not> ?full (\<sigma> (Suc j))" if "receives env header i (\<sigma> j) (\<sigma> (Suc j))"
      using nxt[OF d] that full delivering_buf[OF core d] delivering_buf[OF core, of rpc c i lg "Suc j"]
      by (auto simp: receives_def)
  qed
  moreover have "leads_to \<sigma> (\<lambda>s. ?D s \<and> \<not> ?full s) ?R"
  proof (rule wf_leads_to[OF assms(3)])
    fix j assume d: "?D (\<sigma> j) \<and> \<not> ?full (\<sigma> j)"
    then have d1: "?D (\<sigma> j)" by simp
    have "\<not> ?full (\<sigma> (Suc j))" if "?D (\<sigma> (Suc j))"
      using delivering_buf[OF core d1] delivering_buf[OF core that] got[OF d1] channel_one[OF core d1] d by linarith
    with nxt[OF d1] show "?D (\<sigma> (Suc j)) \<and> \<not> ?full (\<sigma> (Suc j)) \<or> ?R (\<sigma> (Suc j))" by blast
    from mux_can_deliver[of "\<sigma> j" rpc c env 0 header] core d show "enabled (reader_moves env header) (\<sigma> j)"
      by (force simp: enabled_def reader_moves_def delivering_def)
    show "?R (\<sigma> (Suc j))" if "reader_moves env header (\<sigma> j) (\<sigma> (Suc j))"
      using nxt[OF d1] that d1 by (auto simp: reader_moves_def delivering_def)
  qed
  ultimately show ?thesis by (rule leads_to_then)
qed

lemma locking_leads:
  assumes run: "run (mux_step env 0 header) \<sigma>" and "weakly_fair (reader_moves env header) \<sigma>"
  shows "leads_to \<sigma> (\<lambda>s. reader s = RGot rpc \<and> log s = lg) (\<lambda>s. reader s = RDeliver rpc \<and> log s = lg)"
proof (rule wf_leads_to[OF assms(2)])
  fix j assume g: "reader (\<sigma> j) = RGot rpc \<and> log (\<sigma> j) = lg"
  from run consider "\<sigma> (Suc j) = \<sigma> j" | "mux_step env 0 header (\<sigma> j) (\<sigma> (Suc j))" unfolding run_def by blast
  then have *: "log (\<sigma> (Suc j)) = lg \<and> reader (\<sigma> (Suc j)) \<in> {RGot rpc, RDeliver rpc}"
    using g got_response_step[of env 0 header "\<sigma> j" "\<sigma> (Suc j)" rpc] by cases auto
  then show "(reader (\<sigma> (Suc j)) = RGot rpc \<and> log (\<sigma> (Suc j)) = lg) \<or>
      (reader (\<sigma> (Suc j)) = RDeliver rpc \<and> log (\<sigma> (Suc j)) = lg)" by auto
  show "enabled (reader_moves env header) (\<sigma> j)"
    using g mux_step.lock[of "\<sigma> j" rpc env 0 header] by (force simp: enabled_def reader_moves_def)
  show "reader (\<sigma> (Suc j)) = RDeliver rpc \<and> log (\<sigma> (Suc j)) = lg" if "reader_moves env header (\<sigma> j) (\<sigma> (Suc j))"
    using * that g by (auto simp: reader_moves_def)
qed

lemma unknown_leads:
  assumes run: "run (mux_step env 0 header) \<sigma>" and "weakly_fair (reader_moves env header) \<sigma>"
  shows "leads_to \<sigma> (\<lambda>s. reader s = RDeliver rpc \<and> handlers (rm s) (rpcId rpc) = None \<and> log s = lg)
    (\<lambda>s. reader s = RRead \<and> handlers (rm s) (rpcId rpc) = None \<and> log s = lg)"
proof (rule wf_leads_to[OF assms(2)])
  fix j assume g: "reader (\<sigma> j) = RDeliver rpc \<and> handlers (rm (\<sigma> j)) (rpcId rpc) = None \<and> log (\<sigma> j) = lg"
  from run consider "\<sigma> (Suc j) = \<sigma> j" | "mux_step env 0 header (\<sigma> j) (\<sigma> (Suc j))" unfolding run_def by blast
  then have *: "log (\<sigma> (Suc j)) = lg \<and> handlers (rm (\<sigma> (Suc j))) (rpcId rpc) = None \<and> reader (\<sigma> (Suc j)) \<in> {RRead, RDeliver rpc}"
    using g unknown_step[of env 0 header "\<sigma> j" "\<sigma> (Suc j)" rpc] by cases auto
  then show "(reader (\<sigma> (Suc j)) = RDeliver rpc \<and> handlers (rm (\<sigma> (Suc j))) (rpcId rpc) = None \<and> log (\<sigma> (Suc j)) = lg) \<or>
      (reader (\<sigma> (Suc j)) = RRead \<and> handlers (rm (\<sigma> (Suc j))) (rpcId rpc) = None \<and> log (\<sigma> (Suc j)) = lg)" by auto
  show "enabled (reader_moves env header) (\<sigma> j)"
    using g mux_step.drop[of "\<sigma> j" rpc "rm (\<sigma> j)" env 0 header]
    by (force simp: enabled_def reader_moves_def handleResponse_def)
  show "reader (\<sigma> (Suc j)) = RRead \<and> handlers (rm (\<sigma> (Suc j))) (rpcId rpc) = None \<and> log (\<sigma> (Suc j)) = lg"
    if "reader_moves env header (\<sigma> j) (\<sigma> (Suc j))"
    using * that g by (auto simp: reader_moves_def)
qed

text \<open>C21: In every run that is fair to the read loop and to the receivers, and in which nobody gives up with a response in
  its channel, a response that has been read is eventually handed to the handler of its id, or dropped because there
  is none, and the read loop reads on.\<close>

theorem mux_eventually_delivers:
  assumes "mux_init (\<sigma> 0)" and run: "run (mux_step env 0 header) \<sigma>" and left: "\<forall>j. ids_left (rm (\<sigma> j))"
    and fair: "weakly_fair (reader_moves env header) \<sigma>" "\<forall>i. weakly_fair (receives env header i) \<sigma>"
    and "\<forall>j. patient (\<sigma> j)" and k: "reader (\<sigma> k) = RGot rpc"
  shows "\<exists>j\<ge>k. reader (\<sigma> j) = RRead \<and>
    (log (\<sigma> j) = log (\<sigma> k) @ [rpc] \<or> log (\<sigma> j) = log (\<sigma> k) \<and> handlers (rm (\<sigma> j)) (rpcId rpc) = None)"
proof -
  let ?lg = "log (\<sigma> k)"
  have core: "mux_core (\<sigma> j)" for j
    using run_reach[OF run, of mux_init j] assms(1) left reach_mux_core by blast
  obtain j where j: "k \<le> j" "reader (\<sigma> j) = RDeliver rpc" "log (\<sigma> j) = ?lg"
    using leads_toD[OF locking_leads[OF run fair(1), of rpc ?lg], of k] k by auto
  show ?thesis
  proof (cases "handlers (rm (\<sigma> j)) (rpcId rpc)")
    case None
    with leads_toD[OF unknown_leads[OF run fair(1), of rpc ?lg], of j] j show ?thesis by (meson order_trans)
  next
    case (Some c)
    then have "c < length (chans (rm (\<sigma> j)))"
      using handlers_okD[of "rm (\<sigma> j)" "log (\<sigma> j)"] core by (auto simp: mux_core_def)
    then obtain i where "i < length (calls (\<sigma> j))" "cRef (calls (\<sigma> j) ! i) = Some c"
      using mux_core_owner[OF core] by blast
    with j Some have "delivering rpc c i ?lg (\<sigma> j)" by (simp add: delivering_def)
    with leads_toD[OF delivering_leads[OF core run fair(1), of i rpc c ?lg], of j] fair(2) assms(6) j
    show ?thesis by (meson order_trans)
  qed
qed

section \<open>An example\<close>

text \<open>A stream is opened, gets one response, and the connection ends.\<close>

definition mux_demo_at :: "call \<Rightarrow> Rpc list \<Rightarrow> reader_pc \<Rightarrow> Rpc list \<Rightarrow> mux_sys" where
  "mux_demo_at k q rd lg = demo [1 \<mapsto> 0] [(make_chan 1)\<lparr>buf := q\<rparr>] 1 k rd lg"

definition mux_demo_got :: call where
  "mux_demo_got = (demo_call False PWait)\<lparr>cGot := [demo_rpc]\<rparr>"

definition mux_demo_end :: mux_sys where
  "mux_demo_end =
     \<lparr>rm = \<lparr>handlers = Map.empty, chans = [(make_chan 1)\<lparr>closed := True\<rparr>], cancelled = True, streamCounter = 1, rErr = Some EOF\<rparr>,
      calls = [mux_demo_got], reader = RExit, log = [demo_rpc]\<rparr>"

definition mux_demo_trace :: "mux_sys list" where
  "mux_demo_trace =
     [\<lparr>rm = NewRpcMultiplexer, calls = [], reader = RRead, log = []\<rparr>,
      demo Map.empty [] 0 (new_call False) RRead [],
      demo Map.empty [] 0 ((new_call False)\<lparr>cPc := PAlloc\<rparr>) RRead [],
      demo_registering False,
      mux_demo_at (demo_call False PWrite) [] RRead [],
      mux_demo_at (demo_call False PWait) [] RRead [],
      mux_demo_at (demo_call False PWait) [] (RGot demo_rpc) [],
      mux_demo_at (demo_call False PWait) [] (RDeliver demo_rpc) [],
      mux_demo_at (demo_call False PWait) [demo_rpc] RRead [demo_rpc],
      mux_demo_at mux_demo_got [] RRead [demo_rpc],
      mux_demo_at mux_demo_got [] (RClosing EOF) [demo_rpc],
      mux_demo_end]"

lemma mux_demo_opening:
  "mux_step env 0 header \<lparr>rm = NewRpcMultiplexer, calls = [], reader = RRead, log = []\<rparr>
     (demo Map.empty [] 0 (new_call False) RRead [])"
  "mux_step env 0 header (demo Map.empty [] 0 (new_call False) RRead [])
     (demo Map.empty [] 0 ((new_call False)\<lparr>cPc := PAlloc\<rparr>) RRead [])"
  "mux_step env 0 header (demo Map.empty [] 0 ((new_call False)\<lparr>cPc := PAlloc\<rparr>) RRead []) (demo_registering False)"
  "mux_step env 0 header (demo_registering False) (mux_demo_at (demo_call False PWrite) [] RRead [])"
  "mux_step env 0 header (mux_demo_at (demo_call False PWrite) [] RRead []) (mux_demo_at (demo_call False PWait) [] RRead [])"
proof -
  let ?s = "demo Map.empty [] 0 (new_call False) RRead []"
  let ?a = "demo Map.empty [] 0 ((new_call False)\<lparr>cPc := PAlloc\<rparr>) RRead []"
  show "mux_step env 0 header \<lparr>rm = NewRpcMultiplexer, calls = [], reader = RRead, log = []\<rparr> ?s"
    using mux_step.spawn[of env 0 header "\<lparr>rm = NewRpcMultiplexer, calls = [], reader = RRead, log = []\<rparr>" False]
    by (simp add: demo_def NewRpcMultiplexer_def)
  show "mux_step env 0 header ?s ?a" using mux_step.check_ok[of ?s 0 env 0 header] by (simp add: demo_simps)
  show "mux_step env 0 header ?a (demo_registering False)"
    using mux_step.alloc[of ?a 0 1 0 _ env 0 header] by (simp add: demo_simps demo_registering_def)
  show "mux_step env 0 header (demo_registering False) (mux_demo_at (demo_call False PWrite) [] RRead [])"
    using mux_step.register[of "demo_registering False" 0 0 env 0 header]
    by (simp add: demo_simps demo_registering_def mux_demo_at_def make_chan_def)
  show "mux_step env 0 header (mux_demo_at (demo_call False PWrite) [] RRead []) (mux_demo_at (demo_call False PWait) [] RRead [])"
    using mux_step.write_ok[of "mux_demo_at (demo_call False PWrite) [] RRead []" 0 env 0 header]
    by (simp add: demo_simps mux_demo_at_def)
qed

lemma mux_demo_response:
  "mux_step env 0 header (mux_demo_at k q RRead lg) (mux_demo_at k q (RGot demo_rpc) lg)"
  "mux_step env 0 header (mux_demo_at k q (RGot demo_rpc) lg) (mux_demo_at k q (RDeliver demo_rpc) lg)"
  "mux_step env 0 header (mux_demo_at k [] (RDeliver demo_rpc) lg) (mux_demo_at k [demo_rpc] RRead (lg @ [demo_rpc]))"
  "mux_step env 0 header (mux_demo_at (demo_call False PWait) [demo_rpc] RRead lg) (mux_demo_at mux_demo_got [] RRead lg)"
proof -
  show "mux_step env 0 header (mux_demo_at k q RRead lg) (mux_demo_at k q (RGot demo_rpc) lg)"
    using mux_step.read[of "mux_demo_at k q RRead lg" env 0 header demo_rpc] by (simp add: mux_demo_at_def demo_def)
  show "mux_step env 0 header (mux_demo_at k q (RGot demo_rpc) lg) (mux_demo_at k q (RDeliver demo_rpc) lg)"
    using mux_step.lock[of "mux_demo_at k q (RGot demo_rpc) lg" demo_rpc env 0 header] by (simp add: mux_demo_at_def demo_def)
  show "mux_step env 0 header (mux_demo_at k [] (RDeliver demo_rpc) lg) (mux_demo_at k [demo_rpc] RRead (lg @ [demo_rpc]))"
    using mux_step.deliver[of "mux_demo_at k [] (RDeliver demo_rpc) lg" demo_rpc _ env 0 header]
    by (simp add: mux_demo_at_def demo_simps)
  show "mux_step env 0 header (mux_demo_at (demo_call False PWait) [demo_rpc] RRead lg) (mux_demo_at mux_demo_got [] RRead lg)"
    using mux_step.recv_stream[of "mux_demo_at (demo_call False PWait) [demo_rpc] RRead lg" 0 0 demo_rpc _ env 0 header]
    by (simp add: mux_demo_at_def mux_demo_got_def demo_simps chan_recv_def make_chan_def)
qed

lemma mux_demo_closing:
  "mux_step env 0 header (mux_demo_at mux_demo_got [] RRead [demo_rpc]) (mux_demo_at mux_demo_got [] (RClosing EOF) [demo_rpc])"
  "mux_step env 0 header (mux_demo_at mux_demo_got [] (RClosing EOF) [demo_rpc]) mux_demo_end"
proof -
  show "mux_step env 0 header (mux_demo_at mux_demo_got [] RRead [demo_rpc]) (mux_demo_at mux_demo_got [] (RClosing EOF) [demo_rpc])"
    using mux_step.read_err[of "mux_demo_at mux_demo_got [] RRead [demo_rpc]" env 0 header EOF] by (simp add: mux_demo_at_def demo_def)
  show "mux_step env 0 header (mux_demo_at mux_demo_got [] (RClosing EOF) [demo_rpc]) mux_demo_end"
    using mux_step.close_err[of "mux_demo_at mux_demo_got [] (RClosing EOF) [demo_rpc]" EOF "[1]" _ env 0 header]
    by (simp add: mux_demo_at_def mux_demo_end_def demo_def closeError_def unregisterHandler_def chan_close_def make_chan_def)
qed

lemma mux_demo_run: "run (mux_step env 0 header) (stops mux_demo_trace)"
  using mux_demo_response(3)[of env header "demo_call False PWait" "[]"]
  by (intro steps_run) (simp_all add: mux_demo_trace_def mux_demo_opening mux_demo_response mux_demo_closing)

lemma mux_demo_end_idle:
  "\<not> enabled (reader_moves env header) mux_demo_end" "\<not> enabled (receives env header i) mux_demo_end"
proof -
  have "reader t = RExit \<and> (\<forall>i < length (calls mux_demo_end). cGot (calls t ! i) = cGot (calls mux_demo_end ! i))"
    if "mux_step env 0 header mux_demo_end t" for t
    using that
    by (cases rule: mux_step.cases)
      (auto simp: mux_demo_end_def mux_demo_got_def demo_call_def upd_call_def at_pc_def chan_recv_def make_chan_def)
  then show "\<not> enabled (reader_moves env header) mux_demo_end" "\<not> enabled (receives env header i) mux_demo_end"
    by (auto simp: enabled_def reader_moves_def receives_def mux_demo_end_def)
qed

text \<open>The response is handed over.\<close>

theorem mux_eventually_delivers_witness:
  "\<exists>j\<ge>6. reader (stops mux_demo_trace j) = RRead \<and>
     (log (stops mux_demo_trace j) = [demo_rpc] \<or>
      log (stops mux_demo_trace j) = [] \<and> handlers (rm (stops mux_demo_trace j)) 1 = None)"
proof -
  let ?\<sigma> = "stops mux_demo_trace" and ?h = "header_of [] [] [] []"
  have ne: "mux_demo_trace \<noteq> []" by (simp add: mux_demo_trace_def)
  have "mux_init (?\<sigma> 0)" by (simp add: mux_init_def stops_def mux_demo_trace_def)
  moreover have "ids_left (rm (?\<sigma> j))" for j
    by (rule stops_all[OF ne])
      (auto simp: mux_demo_trace_def ids_left_def NewRpcMultiplexer_def mux_demo_at_def mux_demo_end_def demo_registering_def demo_def)
  moreover have "patient (?\<sigma> j)" for j
    by (rule stops_all[OF ne])
      (auto simp: mux_demo_trace_def patient_def delivering_def mux_demo_at_def mux_demo_end_def demo_registering_def demo_def split: if_splits)
  moreover have "last mux_demo_trace = mux_demo_end" by (simp add: mux_demo_trace_def)
  then have "weakly_fair (reader_moves sample_env ?h) ?\<sigma>" "\<forall>i. weakly_fair (receives sample_env ?h i) ?\<sigma>"
    using mux_demo_end_idle stops_fair(1)[OF ne] by metis+
  moreover have "reader (?\<sigma> 6) = RGot demo_rpc" "log (?\<sigma> 6) = []"
    by (simp_all add: stops_def mux_demo_trace_def mux_demo_at_def demo_def)
  ultimately show ?thesis
    using mux_eventually_delivers[of ?\<sigma> sample_env ?h 6 demo_rpc] mux_demo_run by (simp add: demo_rpc_def)
qed

end
