(* ===== verification/Goat_Serve.thy ===== *)
theory Goat_Serve
  imports "HOL-Library.Multiset" "HOL-Library.Sublist" Goat_Server Goat_Conn_Table
begin

text \<open>
  The goroutines of one server connection, \<^verbatim>\<open>Serve\<close>, \<^verbatim>\<open>serve\<close> and \<^verbatim>\<open>cancelAndWaitForStreams\<close> of \<^verbatim>\<open>server.go\<close>: the loop
  that reads and dispatches messages, the writer, the eight workers of unary calls, one goroutine per stream,
  and the wait for the streams when the loop ends. The operations of \<^verbatim>\<open>Goat_Server\<close> are the steps; the
  handler's mutex is held while \<^verbatim>\<open>processStreamingRpc\<close> runs. The lemmas show that streams get
  their messages in order, that the table of streams is exactly the streams that run, that a connection
  that has returned has no streams left and can always return, and where goroutines block for ever.
\<close>

section \<open>Goroutines\<close>

text \<open>The loop: reading, sending a unary call to a worker, wanting or holding the mutex for a stream's
  message; then waiting for the mutex, waiting for a stream to end, or returned.\<close>

datatype ('m, 't) main_pc =
    ServeRead
  | ServeUnary "('m, 't) serviceInfo" "'m MethodDesc" Rpc
  | ServeStream Rpc
  | ServeLocked Rpc
  | WaitLock
  | WaitDone nat
  | ServeReturned

datatype writer_pc = WriterIdle | WriterBusy Rpc | WriterGone

datatype ('m, 't) worker_pc =
    WorkerIdle
  | WorkerBusy "('m, 't) serviceInfo" "'m MethodDesc" Rpc
  | WorkerSend Rpc
  | WorkerGone

text \<open>A stream's goroutine runs the application's handler, has returned and waits to unregister, or has ended.\<close>

datatype stream_pc = StrRun | StrExit | StrEnd

definition numRpcWorkers :: nat where
  "numRpcWorkers = 8"

text \<open>
  \<open>svStreams\<close> gives the id and state of the goroutine of each stream object. The records keep the messages
  dispatched to and read by each stream, those passed to and written by the writer, and the unary requests
  given to and the responses sent by the workers.
\<close>

record ('m, 't, 'w) serve_sys =
  svMain :: "('m, 't) main_pc"
  svHd :: handler
  svClientCtx :: Context
  svWriter :: writer_pc
  svWorkers :: "('m, 't) worker_pc list"
  svStreams :: "(u64 \<times> stream_pc) list"
  svWire :: 'w
  svTrace :: trace
  svRouted :: "(nat \<times> Rpc) list"
  svGot :: "(nat \<times> Rpc) list"
  svQueued :: "Rpc list"
  svWritten :: "Rpc list"
  svCalls :: "Rpc list"
  svReplied :: "Rpc list"
  svResult :: "gerr option"

section \<open>Operations\<close>

text \<open>The prologue of \<open>serve\<close>: each stats handler tags the connection's context and sees it begin.\<close>

definition serve_begin :: "(nat \<Rightarrow> Context \<Rightarrow> Context) \<Rightarrow> nat \<Rightarrow> Context \<Rightarrow> Context \<times> trace" where
  "serve_begin tagConn n clientCtx =
     fold (\<lambda>i (ctx, tr). (tagConn i ctx, tr @ [(i, EvTagConn), (i, EvConnBegin False)])) [0..<n] (clientCtx, [])"

definition serve_start ::
  "(nat \<Rightarrow> Context \<Rightarrow> Context) \<Rightarrow> ('m, 't) Server \<Rightarrow> Context \<Rightarrow> 'w \<Rightarrow> ('m, 't, 'w) serve_sys" where
  "serve_start tagConn srv clientCtx w =
     (case serve_begin tagConn (srvHandlers srv) clientCtx of (ctx, tr) \<Rightarrow>
        \<lparr>svMain = ServeRead, svHd = newHandler srv, svClientCtx = ctx, svWriter = WriterIdle,
         svWorkers = replicate numRpcWorkers WorkerIdle, svStreams = [], svWire = w, svTrace = tr,
         svRouted = [], svGot = [], svQueued = [], svWritten = [], svCalls = [], svReplied = [], svResult = None\<rparr>)"

text \<open>The return of \<open>serve\<close> with an error (\<open>svResult\<close>, which \<open>Serve\<close> returns in the end): its deferred calls end the stats and cancel the handler's context (the workers' context
  is a child of it); \<open>Serve\<close> goes on to \<open>cancelAndWaitForStreams\<close>.\<close>

definition serve_return :: "nat \<Rightarrow> gerr option \<Rightarrow> ('m, 't, 'w) serve_sys \<Rightarrow> ('m, 't, 'w) serve_sys" where
  "serve_return n err s =
     s\<lparr>svMain := WaitLock, svResult := err, svHd := hd_cancel (Errorf ''serve done'') (svHd s),
       svTrace := svTrace s @ stats_all n [EvConnEnd False]\<rparr>"

text \<open>The write channel has no buffer: a send proceeds when the writer waits in its select.\<close>

definition write_chan :: "writer_pc \<Rightarrow> Rpc chan" where
  "write_chan pc = (make_chan 0)\<lparr>waiting := (if pc = WriterIdle then 1 else 0)\<rparr>"

definition writer_after :: "Rpc chan \<Rightarrow> writer_pc \<Rightarrow> writer_pc" where
  "writer_after c pc = (case buf c of [] \<Rightarrow> pc | rpc # _ \<Rightarrow> WriterBusy rpc)"

text \<open>\<open>cancelAndWaitForStreams\<close>: take any stream of the table, or none when it is empty; cancel it; wait for its end.\<close>

definition wait_pick :: "u64 \<Rightarrow> handler \<Rightarrow> (nat \<times> handler) option" where
  "wait_pick sid h = (case hdStreams h sid of None \<Rightarrow> None | Some r \<Rightarrow> Some (r, sh_cancel r h))"

definition wait_done :: "nat \<Rightarrow> handler \<Rightarrow> handler go" where
  "wait_done r h =
     go_bind (chan_recv (shDone (hdObjs h ! r))) (\<lambda>(v, d). Ret (upd_obj r (\<lambda>sh. sh\<lparr>shDone := d\<rparr>) h))"

text \<open>The message \<open>processStreamingRpc\<close> passed on to a stream, when it did.\<close>

definition routed :: "Rpc \<Rightarrow> handler \<Rightarrow> gerr option \<Rightarrow> (nat \<times> Rpc) list" where
  "routed rpc h err =
     (case hdStreams h (rpcId rpc) of
        None \<Rightarrow> []
      | Some r \<Rightarrow> if is_reset rpc \<or> err \<noteq> None then [] else [(r, rpc)])"

section \<open>The step relation\<close>

text \<open>
  \<open>serve_init\<close> and \<open>serve_step\<close> are the system of one connection. Application code is unconstrained: a stream's
  goroutine may read, write and return at any time; contexts may end at any time.
\<close>

definition serve_init :: "('m, 't) Server \<Rightarrow> ('m, 't, 'w) serve_sys \<Rightarrow> bool" where
  "serve_init srv s \<longleftrightarrow> (\<exists>tagConn ctx w. s = serve_start tagConn srv ctx w)"

inductive serve_step ::
  "env \<Rightarrow> 'm codec \<Rightarrow> tagger \<Rightarrow> 'w rpc_write \<Rightarrow> ('m, 't) Server \<Rightarrow>
   ('m, 't, 'w) serve_sys \<Rightarrow> ('m, 't, 'w) serve_sys \<Rightarrow> bool"
  for env cd tag wr srv where
  sv_read_err: "svMain s = ServeRead \<Longrightarrow>
    serve_step env cd tag wr srv s (serve_return (srvHandlers srv) (Some (Wrap err ''read error'')) s)"
| sv_ignore: "svMain s = ServeRead \<Longrightarrow> serve_dispatch srv rpc = Ignore \<Longrightarrow> serve_step env cd tag wr srv s s"
| sv_unary: "svMain s = ServeRead \<Longrightarrow> serve_dispatch srv rpc = Unary si md \<Longrightarrow>
    serve_step env cd tag wr srv s (s\<lparr>svMain := ServeUnary si md rpc\<rparr>)"
| sv_unary_send: "svMain s = ServeUnary si md rpc \<Longrightarrow> i < length (svWorkers s) \<Longrightarrow> svWorkers s ! i = WorkerIdle \<Longrightarrow>
    serve_step env cd tag wr srv s (s\<lparr>svMain := ServeRead, svWorkers := (svWorkers s)[i := WorkerBusy si md rpc],
      svCalls := svCalls s @ [rpc]\<rparr>)"
| sv_unary_done: "svMain s = ServeUnary si md rpc \<Longrightarrow> ctx_done (hdCtx (svHd s)) \<Longrightarrow>
    serve_step env cd tag wr srv s (serve_return (srvHandlers srv) (ctxErr (hdCtx (svHd s))) s)"
| sv_stream: "svMain s = ServeRead \<Longrightarrow> serve_dispatch srv rpc = Stream si sd \<Longrightarrow>
    serve_step env cd tag wr srv s (s\<lparr>svMain := ServeStream rpc\<rparr>)"
| sv_lock: "svMain s = ServeStream rpc \<Longrightarrow> serve_step env cd tag wr srv s (s\<lparr>svMain := ServeLocked rpc\<rparr>)"
| sv_process: "svMain s = ServeLocked rpc \<Longrightarrow>
    processStreamingRpc env wr p q now (svClientCtx s) rpc (svHd s, svWire s) = Ret ((None, new), h', w') \<Longrightarrow>
    serve_step env cd tag wr srv s (s\<lparr>svMain := ServeRead, svHd := h', svWire := w',
      svStreams := svStreams s @ (case new of None \<Rightarrow> [] | Some r \<Rightarrow> [(rpcId rpc, StrRun)]),
      svRouted := svRouted s @ routed rpc (svHd s) None\<rparr>)"
| sv_process_err: "svMain s = ServeLocked rpc \<Longrightarrow>
    processStreamingRpc env wr p q now (svClientCtx s) rpc (svHd s, svWire s) = Ret ((Some err, new), h', w') \<Longrightarrow>
    serve_step env cd tag wr srv s (serve_return (srvHandlers srv) (Some err) (s\<lparr>svHd := h', svWire := w'\<rparr>))"
| sv_wait_pick: "svMain s = WaitLock \<Longrightarrow> wait_pick sid (svHd s) = Some (r, h') \<Longrightarrow>
    serve_step env cd tag wr srv s (s\<lparr>svMain := WaitDone r, svHd := h'\<rparr>)"
| sv_wait_done: "svMain s = WaitDone r \<Longrightarrow> wait_done r (svHd s) = Ret h' \<Longrightarrow>
    serve_step env cd tag wr srv s (s\<lparr>svMain := WaitLock, svHd := h'\<rparr>)"
| sv_returned: "svMain s = WaitLock \<Longrightarrow> hdStreams (svHd s) = Map.empty \<Longrightarrow>
    serve_step env cd tag wr srv s (s\<lparr>svMain := ServeReturned\<rparr>)"
| sv_write: "svWriter s = WriterBusy rpc \<Longrightarrow> wr (hdCtx (svHd s)) rpc (svWire s) = Ret (err, w') \<Longrightarrow>
    serve_step env cd tag wr srv s (s\<lparr>svWriter := WriterIdle, svWire := w', svWritten := svWritten s @ [rpc],
      svHd := (case err of None \<Rightarrow> svHd s | Some e \<Rightarrow> hd_cancel (Errorf (''write error: '' @ errText env e)) (svHd s))\<rparr>)"
| sv_writer_gone: "svWriter s = WriterIdle \<Longrightarrow> ctx_done (hdCtx (svHd s)) \<Longrightarrow>
    serve_step env cd tag wr srv s (s\<lparr>svWriter := WriterGone\<rparr>)"
| sv_worker: "i < length (svWorkers s) \<Longrightarrow> svWorkers s ! i = WorkerBusy si md rpc \<Longrightarrow>
    processUnaryRpc env cd tag now srv (svClientCtx s) si md rpc = Ret (resp, tr) \<Longrightarrow>
    serve_step env cd tag wr srv s (s\<lparr>svWorkers := (svWorkers s)[i := WorkerSend resp], svTrace := svTrace s @ tr\<rparr>)"
| sv_worker_send: "i < length (svWorkers s) \<Longrightarrow> svWorkers s ! i = WorkerSend resp \<Longrightarrow>
    chan_send (write_chan (svWriter s)) resp = Ret c \<Longrightarrow>
    serve_step env cd tag wr srv s (s\<lparr>svWorkers := (svWorkers s)[i := WorkerIdle],
      svWriter := writer_after c (svWriter s), svQueued := svQueued s @ [resp], svReplied := svReplied s @ [resp]\<rparr>)"
| sv_worker_gone: "i < length (svWorkers s) \<Longrightarrow> svWorkers s ! i = WorkerIdle \<Longrightarrow> ctx_done (hdCtx (svHd s)) \<Longrightarrow>
    serve_step env cd tag wr srv s (s\<lparr>svWorkers := (svWorkers s)[i := WorkerGone]\<rparr>)"
| sv_str_read: "r < length (svStreams s) \<Longrightarrow> snd (svStreams s ! r) = StrRun \<Longrightarrow>
    stream_readerFunc pick r ctx (svHd s) = Ret (res, h') \<Longrightarrow>
    serve_step env cd tag wr srv s (s\<lparr>svHd := h',
      svGot := svGot s @ (case res of Inl e \<Rightarrow> [] | Inr rpc \<Rightarrow> [(r, rpc)])\<rparr>)"
| sv_str_write: "r < length (svStreams s) \<Longrightarrow> snd (svStreams s ! r) = StrRun \<Longrightarrow>
    stream_writerFunc pick ctx rpc (write_chan (svWriter s)) = Ret (err, c) \<Longrightarrow>
    serve_step env cd tag wr srv s (s\<lparr>svWriter := writer_after c (svWriter s), svQueued := svQueued s @ buf c\<rparr>)"
| sv_str_return: "r < length (svStreams s) \<Longrightarrow> svStreams s ! r = (sid, StrRun) \<Longrightarrow>
    serve_step env cd tag wr srv s (s\<lparr>svHd := sh_cancel r (svHd s), svStreams := (svStreams s)[r := (sid, StrExit)]\<rparr>)"
| sv_str_end: "r < length (svStreams s) \<Longrightarrow> svStreams s ! r = (sid, StrExit) \<Longrightarrow> \<forall>rpc. svMain s \<noteq> ServeLocked rpc \<Longrightarrow>
    unregisterStream sid (svHd s) = Ret h' \<Longrightarrow>
    serve_step env cd tag wr srv s (s\<lparr>svHd := h', svStreams := (svStreams s)[r := (sid, StrEnd)]\<rparr>)"
| sv_stop: "serve_step env cd tag wr srv s (s\<lparr>svHd := hd_cancel Canceled (svHd s)\<rparr>)"
| sv_client_done: "\<not> ctx_done (svClientCtx s) \<Longrightarrow>
    serve_step env cd tag wr srv s (s\<lparr>svClientCtx := (svClientCtx s)\<lparr>ctxErr := Some e\<rparr>\<rparr>)"
| sv_stream_done: "r < length (svStreams s) \<Longrightarrow> \<not> ctx_done (shCtx (hdObjs (svHd s) ! r)) \<Longrightarrow>
    serve_step env cd tag wr srv s (s\<lparr>svHd := upd_obj r (\<lambda>sh. sh\<lparr>shCtx := (shCtx sh)\<lparr>ctxErr := Some e\<rparr>\<rparr>) (svHd s)\<rparr>)"

section \<open>Invariants\<close>

lemma serve_start_sel [simp]:
  "svMain (serve_start tagConn srv ctx w) = ServeRead" "svHd (serve_start tagConn srv ctx w) = newHandler srv"
  "svWriter (serve_start tagConn srv ctx w) = WriterIdle" "svStreams (serve_start tagConn srv ctx w) = []"
  "svWorkers (serve_start tagConn srv ctx w) = replicate numRpcWorkers WorkerIdle" "svWire (serve_start tagConn srv ctx w) = w"
  "svRouted (serve_start tagConn srv ctx w) = []" "svGot (serve_start tagConn srv ctx w) = []"
  "svQueued (serve_start tagConn srv ctx w) = []" "svWritten (serve_start tagConn srv ctx w) = []"
  "svCalls (serve_start tagConn srv ctx w) = []" "svReplied (serve_start tagConn srv ctx w) = []"
  by (simp_all add: serve_start_def split: prod.split)

text \<open>
  One stream: its channels are open and within their capacity, nothing was sent on \<^verbatim>\<open>done\<close> before it ended,
  and what was dispatched to it is what it read and what waits, in order, all under its id.
\<close>

definition str_ok :: "streamHandler \<Rightarrow> u64 \<times> stream_pc \<Rightarrow> Rpc list \<Rightarrow> Rpc list \<Rightarrow> bool" where
  "str_ok sh st rs gs \<longleftrightarrow>
     cap (shCh sh) = 1 \<and> waiting (shCh sh) = 0 \<and> \<not> closed (shCh sh) \<and>
     cap (shDone sh) = 1 \<and> waiting (shDone sh) = 0 \<and> \<not> closed (shDone sh) \<and>
     (snd st \<noteq> StrEnd \<longrightarrow> buf (shDone sh) = []) \<and>
     rs = gs @ buf (shCh sh) \<and> (\<forall>m \<in> set rs. rpcId m = fst st)"

definition objs_inv :: "handler \<Rightarrow> (u64 \<times> stream_pc) list \<Rightarrow> (nat \<times> Rpc) list \<Rightarrow> (nat \<times> Rpc) list \<Rightarrow> bool" where
  "objs_inv h sts rt gt \<longleftrightarrow> length sts = length (hdObjs h) \<and>
     (\<forall>r < length (hdObjs h). str_ok (hdObjs h ! r) (sts ! r) (of_conn r rt) (of_conn r gt)) \<and>
     (\<forall>x \<in> set (rt @ gt). fst x < length (hdObjs h))"

text \<open>The table is exactly the streams that have not ended.\<close>

definition tab_inv :: "(u64 \<rightharpoonup> nat) \<Rightarrow> (u64 \<times> stream_pc) list \<Rightarrow> bool" where
  "tab_inv m sts \<longleftrightarrow>
     (\<forall>sid r. m sid = Some r \<longleftrightarrow> r < length sts \<and> fst (sts ! r) = sid \<and> snd (sts ! r) \<noteq> StrEnd)"

text \<open>A done context has a cause; the wait begins with a cancelled context and waits for a stream whose end
  is still to come or has been announced; a returned connection has an empty table.\<close>

definition main_inv :: "('m, 't, 'w) serve_sys \<Rightarrow> bool" where
  "main_inv s \<longleftrightarrow>
     (ctx_done (hdCtx (svHd s)) \<longrightarrow> hdCause (svHd s) \<noteq> None) \<and>
     (case svMain s of
        WaitLock \<Rightarrow> ctx_done (hdCtx (svHd s))
      | WaitDone r \<Rightarrow> ctx_done (hdCtx (svHd s)) \<and> r < length (svStreams s) \<and>
          (snd (svStreams s ! r) = StrEnd \<longrightarrow> buf (shDone (hdObjs (svHd s) ! r)) \<noteq> [])
      | ServeReturned \<Rightarrow> ctx_done (hdCtx (svHd s)) \<and> hdStreams (svHd s) = Map.empty
      | _ \<Rightarrow> True)"

definition serve_inv :: "('m, 't, 'w) serve_sys \<Rightarrow> bool" where
  "serve_inv s \<longleftrightarrow> objs_inv (svHd s) (svStreams s) (svRouted s) (svGot s) \<and>
     tab_inv (hdStreams (svHd s)) (svStreams s) \<and> main_inv s"

lemma hd_cancel_sel [simp]:
  "hdObjs (hd_cancel e h) = hdObjs h" "hdStreams (hd_cancel e h) = hdStreams h"
  "ctx_done (hdCtx (hd_cancel e h))" "ctx_done (hdCtx h) \<Longrightarrow> hd_cancel e h = h"
  by (simp_all add: hd_cancel_def)

lemma hd_cancel_cause:
  "(ctx_done (hdCtx h) \<longrightarrow> hdCause h \<noteq> None) \<Longrightarrow> hdCause (hd_cancel e h) \<noteq> None"
  by (simp add: hd_cancel_def)

lemma upd_obj_sel [simp]:
  "hdStreams (upd_obj r f h) = hdStreams h" "hdCtx (upd_obj r f h) = hdCtx h" "hdCause (upd_obj r f h) = hdCause h"
  "length (hdObjs (upd_obj r f h)) = length (hdObjs h)"
  "r < length (hdObjs h) \<Longrightarrow> hdObjs (upd_obj r f h) ! q = (if q = r then f (hdObjs h ! r) else hdObjs h ! q)"
  by (simp_all add: upd_obj_def nth_list_update)

lemma sh_cancel_sel [simp]:
  "hdStreams (sh_cancel r h) = hdStreams h" "hdCtx (sh_cancel r h) = hdCtx h" "hdCause (sh_cancel r h) = hdCause h"
  by (simp_all add: sh_cancel_def)

lemma objs_inv_len: "objs_inv h sts rt gt \<Longrightarrow> length sts = length (hdObjs h)"
  by (simp add: objs_inv_def)

lemma objs_inv_ok: "objs_inv h sts rt gt \<Longrightarrow> r < length sts \<Longrightarrow> str_ok (hdObjs h ! r) (sts ! r) (of_conn r rt) (of_conn r gt)"
  by (simp add: objs_inv_def)

lemma objs_inv_hd_cancel: "objs_inv h sts rt gt \<Longrightarrow> objs_inv (hd_cancel e h) sts rt gt"
  unfolding objs_inv_def hd_cancel_sel by assumption

text \<open>A change of one stream.\<close>

lemma objs_inv_upd:
  assumes inv: "objs_inv h sts rt gt" and r: "r < length sts"
    and own: "\<forall>x \<in> set rt'. fst x = r" "\<forall>x \<in> set gt'. fst x = r"
    and ok: "str_ok (f (hdObjs h ! r)) st (of_conn r (rt @ rt')) (of_conn r (gt @ gt'))"
  shows "objs_inv (upd_obj r f h) (sts[r := st]) (rt @ rt') (gt @ gt')"
proof -
  have "str_ok (hdObjs (upd_obj r f h) ! q) (sts[r := st] ! q) (of_conn q (rt @ rt')) (of_conn q (gt @ gt'))"
    if q: "q < length sts" for q
  proof (cases "q = r")
    case True
    with ok r objs_inv_len[OF inv] show ?thesis by simp
  next
    case False
    with objs_inv_ok[OF inv q] of_conn_other[OF own(1) False] of_conn_other[OF own(2) False] r objs_inv_len[OF inv]
    show ?thesis by simp
  qed
  moreover have "\<forall>x \<in> set ((rt @ rt') @ gt @ gt'). fst x < length (hdObjs h)"
    using inv own r unfolding objs_inv_def by (metis Un_iff set_append)
  ultimately show ?thesis using objs_inv_len[OF inv] by (simp add: objs_inv_def)
qed

lemma objs_inv_upd_quiet:
  assumes inv: "objs_inv h sts rt gt" and r: "r < length sts"
    and same: "\<And>sh. shCh (f sh) = shCh sh" "\<And>sh. shDone (f sh) = shDone sh"
  shows "objs_inv (upd_obj r f h) sts rt gt"
  using objs_inv_upd[OF inv r, of "[]" "[]" f "sts ! r"] objs_inv_ok[OF inv r] same by (simp add: str_ok_def)

lemma objs_inv_sh_cancel: "objs_inv h sts rt gt \<Longrightarrow> r < length sts \<Longrightarrow> objs_inv (sh_cancel r h) sts rt gt"
  unfolding sh_cancel_def by (rule objs_inv_upd_quiet) simp_all

lemma tab_invD:
  assumes "tab_inv m sts"
  shows "m sid = Some r \<Longrightarrow> r < length sts \<and> fst (sts ! r) = sid \<and> snd (sts ! r) \<noteq> StrEnd"
    and "r < length sts \<Longrightarrow> snd (sts ! r) \<noteq> StrEnd \<Longrightarrow> m (fst (sts ! r)) = Some r"
  using assms by (auto simp: tab_inv_def)

lemma tab_inv_add:
  assumes "tab_inv m sts" and "m sid = None"
  shows "tab_inv (m(sid \<mapsto> length sts)) (sts @ [(sid, StrRun)])"
  unfolding tab_inv_def
proof (intro allI)
  fix k r
  show "(m(sid \<mapsto> length sts)) k = Some r \<longleftrightarrow>
    r < length (sts @ [(sid, StrRun)]) \<and> fst ((sts @ [(sid, StrRun)]) ! r) = k \<and> snd ((sts @ [(sid, StrRun)]) ! r) \<noteq> StrEnd"
  proof (cases "r < length sts")
    case True
    then have "(m(sid \<mapsto> length sts)) k = Some r \<longleftrightarrow> m k = Some r" using assms(2) by auto
    with True assms(1) show ?thesis by (simp add: tab_inv_def nth_append)
  next
    case False
    then have "m k \<noteq> Some r" using tab_invD(1)[OF assms(1)] by auto
    with False show ?thesis by (auto simp: nth_append less_Suc_eq)
  qed
qed

lemma tab_inv_end:
  assumes "tab_inv m sts" and "r < length sts" and "snd (sts ! r) \<noteq> StrEnd"
  shows "tab_inv (m(fst (sts ! r) := None)) (sts[r := (fst (sts ! r), StrEnd)])"
  unfolding tab_inv_def
proof (intro allI)
  fix k q
  have r: "m (fst (sts ! r)) = Some r" by (rule tab_invD(2)[OF assms])
  show "(m(fst (sts ! r) := None)) k = Some q \<longleftrightarrow>
    q < length (sts[r := (fst (sts ! r), StrEnd)]) \<and> fst (sts[r := (fst (sts ! r), StrEnd)] ! q) = k \<and>
    snd (sts[r := (fst (sts ! r), StrEnd)] ! q) \<noteq> StrEnd"
  proof (cases "q = r")
    case True
    with r assms(2) tab_invD(1)[OF assms(1), of k r] show ?thesis by auto
  next
    case False
    have "fst (sts ! q) \<noteq> fst (sts ! r)" if "q < length sts" "snd (sts ! q) \<noteq> StrEnd"
      using r False tab_invD(2)[OF assms(1) that] by auto
    with False tab_invD(1)[OF assms(1), of k q] tab_invD(2)[OF assms(1), of q] show ?thesis by auto
  qed
qed

text \<open>What \<open>processStreamingRpc\<close> does to the handler: nothing, cancel a stream, queue a message for one, or
  start one.\<close>

lemma stream_deliver_None:
  assumes d: "stream_deliver p q ctx r rpc h = Ret (None, h')" and cause: "ctx_done (hdCtx h) \<longrightarrow> hdCause h \<noteq> None"
  shows "\<exists>ch. chan_send (shCh (hdObjs h ! r)) rpc = Ret ch \<and> h' = upd_obj r (\<lambda>sh. sh\<lparr>shCh := ch\<rparr>) h"
proof -
  have "select2 q (on_done ctx (\<lambda>e. (Some e, h))) (on_done (hdCtx h) (\<lambda>e. (hdCause h, h))) \<noteq> Ret (None, h')"
    using cause by (auto dest!: select2_RetD simp: ctx_done_def)
  with select2_RetD[OF d[unfolded stream_deliver_def]] show ?thesis by (auto simp: go_bind_Ret_iff)
qed

lemma stream_deliver_Some:
  "stream_deliver p q ctx r rpc h = Ret (Some err, h') \<Longrightarrow> h' = h"
  by (auto simp: stream_deliver_def go_bind_Ret_iff dest!: select2_RetD)

lemma process_unknown:
  assumes p: "processStreamingRpc env wr p q now ctx rpc (h, t) = Ret ((err, new), h', t')"
    and none: "hdStreams h (rpcId rpc) = None"
  shows "h' = h \<and> new = None \<or> new = Some (length (hdObjs h)) \<and> err = None \<and>
    (\<exists>c. h' = h\<lparr>hdStreams := (hdStreams h)(rpcId rpc \<mapsto> length (hdObjs h)),
        hdObjs := hdObjs h @ [\<lparr>shCh = make_chan 1, shDone = make_chan 1, shCtx = c\<rparr>]\<rparr>)"
proof -
  let ?reset = "go_bind (resetStream wr rpc h t) (\<lambda>(err, t1). Ret ((err, None), h, t1))"
  have reset: "h' = h \<and> new = None" if "?reset = Ret ((err, new), h', t')"
    using that by (auto simp: go_bind_Ret_iff)
  consider "is_reset rpc" | "\<not> is_reset rpc" "rpcBody rpc \<noteq> None"
    | "\<not> is_reset rpc" "rpcBody rpc = None" "rpcTrailer rpc \<noteq> None"
    | "\<not> is_reset rpc" "rpcBody rpc = None" "rpcTrailer rpc = None" by blast
  then show ?thesis
  proof cases
    case 2
    with p none have "?reset = Ret ((err, new), h', t')" by (simp add: processStreamingRpc_def)
    from reset[OF this] show ?thesis by simp
  next
    case 4
    with p none obtain hdr where hdr: "rpcHeader rpc = Some hdr"
      by (cases "rpcHeader rpc") (simp_all add: processStreamingRpc_def)
    show ?thesis
    proof (cases "contextFromHeaders env now ctx hdr")
      case (Inl e)
      with 4 p none hdr have "?reset = Ret ((err, new), h', t')" by (simp add: processStreamingRpc_def)
      from reset[OF this] show ?thesis by simp
    next
      case (Inr c)
      with 4 p none hdr show ?thesis by (auto simp: processStreamingRpc_def Let_def)
    qed
  qed (use p none in \<open>auto simp: processStreamingRpc_def\<close>)
qed

lemma process_cases:
  assumes p: "processStreamingRpc env wr p q now ctx rpc (h, t) = Ret ((err, new), h', t')"
    and cause: "ctx_done (hdCtx h) \<longrightarrow> hdCause h \<noteq> None"
  obtains (same) "h' = h" "new = None" "err = None \<Longrightarrow> routed rpc h None = []"
  | (reset) r where "hdStreams h (rpcId rpc) = Some r" "h' = sh_cancel r h" "new = None" "err = None" "routed rpc h None = []"
  | (queue) r ch where "hdStreams h (rpcId rpc) = Some r" "new = None" "err = None" "routed rpc h None = [(r, rpc)]"
      "chan_send (shCh (hdObjs h ! r)) rpc = Ret ch" "h' = upd_obj r (\<lambda>sh. sh\<lparr>shCh := ch\<rparr>) h"
  | (start) c where "hdStreams h (rpcId rpc) = None" "new = Some (length (hdObjs h))" "err = None" "routed rpc h None = []"
      "h' = h\<lparr>hdStreams := (hdStreams h)(rpcId rpc \<mapsto> length (hdObjs h)),
        hdObjs := hdObjs h @ [\<lparr>shCh = make_chan 1, shDone = make_chan 1, shCtx = c\<rparr>]\<rparr>"
proof (cases "hdStreams h (rpcId rpc)")
  case (Some r)
  show ?thesis
  proof (cases "is_reset rpc")
    case True
    with p Some reset[of r] show ?thesis by (simp add: processStreamingRpc_def routed_def)
  next
    case False
    with p Some have d: "stream_deliver p q ctx r rpc h = Ret (err, h')" and n: "new = None"
      by (auto simp: processStreamingRpc_def go_bind_Ret_iff)
    show ?thesis
    proof (cases err)
      case None
      with stream_deliver_None[OF d[unfolded None] cause] obtain ch where
        "chan_send (shCh (hdObjs h ! r)) rpc = Ret ch" "h' = upd_obj r (\<lambda>sh. sh\<lparr>shCh := ch\<rparr>) h" by blast
      with queue[of r ch] None n Some False show ?thesis by (simp add: routed_def)
    next
      case (Some e)
      with stream_deliver_Some d n same show ?thesis by auto
    qed
  qed
next
  case None
  then have rt: "routed rpc h None = []" by (simp add: routed_def)
  consider "h' = h" "new = None" | c where "new = Some (length (hdObjs h))" "err = None"
    "h' = h\<lparr>hdStreams := (hdStreams h)(rpcId rpc \<mapsto> length (hdObjs h)),
        hdObjs := hdObjs h @ [\<lparr>shCh = make_chan 1, shDone = make_chan 1, shCtx = c\<rparr>]\<rparr>"
    using process_unknown[OF p None] by blast
  then show ?thesis using same start None rt by cases auto
qed

lemma objs_inv_start:
  assumes inv: "objs_inv h sts rt gt"
  shows "objs_inv (h\<lparr>hdStreams := m, hdObjs := hdObjs h @ [\<lparr>shCh = make_chan 1, shDone = make_chan 1, shCtx = c\<rparr>]\<rparr>)
    (sts @ [(sid, StrRun)]) rt gt"
proof -
  have b: "\<forall>x \<in> set (rt @ gt). fst x < length (hdObjs h)" and l: "length sts = length (hdObjs h)"
    using inv unfolding objs_inv_def by blast+
  have "of_conn (length sts) rt = []" "of_conn (length sts) gt = []" using b l by (auto intro!: of_conn_fresh)
  then have "str_ok ((hdObjs h @ [\<lparr>shCh = make_chan 1, shDone = make_chan 1, shCtx = c\<rparr>]) ! r) ((sts @ [(sid, StrRun)]) ! r)
      (of_conn r rt) (of_conn r gt)" if "r < Suc (length sts)" for r
    using objs_inv_ok[OF inv, of r] that l by (cases "r = length sts") (simp_all add: nth_append str_ok_def)
  with b l show ?thesis unfolding objs_inv_def by (simp add: less_Suc_eq)
qed

text \<open>The end of a stream never blocks: \<^verbatim>\<open>done\<close> has room, and the table's entry is the stream's own.\<close>

lemma unregisterStream_live:
  assumes o: "objs_inv h sts rt gt" and t: "tab_inv (hdStreams h) sts" and r: "r < length sts" "sts ! r = (sid, StrExit)"
  shows "\<exists>h'. unregisterStream sid h = Ret h' \<and> objs_inv h' (sts[r := (sid, StrEnd)]) rt gt \<and>
    hdStreams h' = (hdStreams h)(sid := None) \<and> hdCtx h' = hdCtx h \<and> hdCause h' = hdCause h \<and>
    buf (shDone (hdObjs h' ! r)) = [()] \<and> (\<forall>q. q \<noteq> r \<longrightarrow> shDone (hdObjs h' ! q) = shDone (hdObjs h ! q))"
proof -
  have e: "hdStreams h sid = Some r" using tab_invD(2)[OF t r(1)] r(2) by simp
  have len: "r < length (hdObjs h)" using r(1) objs_inv_len[OF o] by simp
  let ?f = "\<lambda>sh. sh\<lparr>shCtx := ctx_cancel (shCtx sh), shDone := (shDone sh)\<lparr>buf := [()]\<rparr>\<rparr>"
  have ok: "str_ok (hdObjs h ! r) (sid, StrExit) (of_conn r rt) (of_conn r gt)" using objs_inv_ok[OF o r(1)] r(2) by simp
  then have u: "unregisterStream sid h = Ret ((upd_obj r ?f h)\<lparr>hdStreams := (hdStreams h)(sid := None)\<rparr>)"
    using e len by (simp add: unregisterStream_def sh_cancel_def Let_def chan_send_def str_ok_def upd_obj_def)
  have "objs_inv (upd_obj r ?f h) (sts[r := (sid, StrEnd)]) (rt @ []) (gt @ [])"
    by (rule objs_inv_upd[OF o r(1)]) (use ok in \<open>simp_all add: str_ok_def\<close>)
  then have "objs_inv ((upd_obj r ?f h)\<lparr>hdStreams := (hdStreams h)(sid := None)\<rparr>) (sts[r := (sid, StrEnd)]) rt gt"
    by (simp add: objs_inv_def)
  with u len show ?thesis by simp
qed

subsection \<open>Every step keeps the invariant\<close>

lemma serve_invD:
  assumes "serve_inv s"
  shows "objs_inv (svHd s) (svStreams s) (svRouted s) (svGot s)" "tab_inv (hdStreams (svHd s)) (svStreams s)"
    "main_inv s" "ctx_done (hdCtx (svHd s)) \<longrightarrow> hdCause (svHd s) \<noteq> None"
  using assms by (auto simp: serve_inv_def main_inv_def)

text \<open>Steps that leave the streams alone.\<close>

lemma serve_inv_frame:
  assumes "serve_inv s" "svHd t = svHd s" "svStreams t = svStreams s" "svRouted t = svRouted s" "svGot t = svGot s"
    "svMain t = svMain s \<or> (\<forall>r. svMain t \<noteq> WaitDone r) \<and> svMain t \<noteq> WaitLock \<and> svMain t \<noteq> ServeReturned"
  shows "serve_inv t"
  using assms by (auto simp: serve_inv_def main_inv_def split: main_pc.splits)

text \<open>Steps that change the handler, but neither the table nor what is on the streams' channels.\<close>

lemma serve_inv_hd:
  assumes inv: "serve_inv s" and o: "objs_inv h' (svStreams s) (svRouted s) (svGot s)"
    and "hdStreams h' = hdStreams (svHd s)"
    and "ctx_done (hdCtx (svHd s)) \<Longrightarrow> ctx_done (hdCtx h')" "ctx_done (hdCtx h') \<Longrightarrow> hdCause h' \<noteq> None"
    and "\<And>r. r < length (svStreams s) \<Longrightarrow> shDone (hdObjs h' ! r) = shDone (hdObjs (svHd s) ! r)"
  shows "serve_inv (s\<lparr>svHd := h'\<rparr>)"
  using assms by (auto simp: serve_inv_def main_inv_def split: main_pc.splits)

lemma serve_inv_hd_cancel:
  assumes "serve_inv s"
  shows "serve_inv (s\<lparr>svHd := hd_cancel e (svHd s)\<rparr>)"
  by (rule serve_inv_hd[OF assms objs_inv_hd_cancel[OF serve_invD(1)[OF assms]]])
    (simp_all add: hd_cancel_cause[OF serve_invD(4)[OF assms]])

lemma serve_inv_return:
  assumes "serve_inv s"
  shows "serve_inv (serve_return n e s)"
  using serve_inv_hd_cancel[OF assms, of "Errorf ''serve done''"]
  by (simp add: serve_return_def serve_inv_def main_inv_def)

lemma serve_inv_sh_cancel:
  assumes "serve_inv s" "r < length (svStreams s)"
  shows "serve_inv (s\<lparr>svHd := sh_cancel r (svHd s)\<rparr>)"
proof (rule serve_inv_hd[OF assms(1)])
  show "objs_inv (sh_cancel r (svHd s)) (svStreams s) (svRouted s) (svGot s)"
    by (rule objs_inv_sh_cancel[OF serve_invD(1)[OF assms(1)] assms(2)])
qed (use assms serve_invD(4)[OF assms(1)] objs_inv_len[OF serve_invD(1)[OF assms(1)]] in \<open>simp_all add: sh_cancel_def\<close>)

lemma serve_inv_process:
  assumes inv: "serve_inv s" and m: "svMain s = ServeLocked rpc"
    and p: "processStreamingRpc env wr p q now (svClientCtx s) rpc (svHd s, svWire s) = Ret ((None, new), h', w')"
  shows "serve_inv (s\<lparr>svMain := ServeRead, svHd := h', svWire := w',
      svStreams := svStreams s @ (case new of None \<Rightarrow> [] | Some r \<Rightarrow> [(rpcId rpc, StrRun)]),
      svRouted := svRouted s @ routed rpc (svHd s) None\<rparr>)"
proof -
  note d = serve_invD[OF inv]
  have main: "main_inv (t :: ('a, 'b, 'c) serve_sys)"
    if "svMain t = ServeRead" "hdCtx (svHd t) = hdCtx (svHd s)" "hdCause (svHd t) = hdCause (svHd s)" for t
    using that d(4) by (simp add: main_inv_def)
  show ?thesis
  using p d(4)
  proof (cases rule: process_cases)
    case same
    with d show ?thesis by (simp add: serve_inv_def main)
  next
    case (reset r)
    have "r < length (svStreams s)" using tab_invD(1)[OF d(2) reset(1)] by simp
    from objs_inv_sh_cancel[OF d(1) this] reset d show ?thesis by (simp add: serve_inv_def main)
  next
    case (queue r ch)
    note e = tab_invD(1)[OF d(2) queue(1)]
    have "objs_inv (upd_obj r (\<lambda>sh. sh\<lparr>shCh := ch\<rparr>) (svHd s)) ((svStreams s)[r := svStreams s ! r])
        (svRouted s @ [(r, rpc)]) (svGot s @ [])"
      by (rule objs_inv_upd[OF d(1)])
        (use e queue(5) objs_inv_ok[OF d(1), of r] in \<open>auto simp: str_ok_def chan_simps\<close>)
    with queue d show ?thesis by (simp add: serve_inv_def main)
  next
    case (start c)
    have len: "length (hdObjs (svHd s)) = length (svStreams s)" using objs_inv_len[OF d(1)] by simp
    from objs_inv_start[OF d(1)] tab_inv_add[OF d(2) start(1)] start len show ?thesis
      by (simp add: serve_inv_def main)
  qed
qed

lemma process_err_same:
  assumes "processStreamingRpc env wr p q now ctx rpc (h, t) = Ret ((Some err, new), h', t')"
    and "ctx_done (hdCtx h) \<longrightarrow> hdCause h \<noteq> None"
  shows "h' = h"
  using assms by (cases rule: process_cases) auto

lemma serve_inv_str_read:
  assumes inv: "serve_inv s" and r: "r < length (svStreams s)"
    and g: "stream_readerFunc pick r ctx (svHd s) = Ret (res, h')"
  shows "serve_inv (s\<lparr>svHd := h', svGot := svGot s @ (case res of Inl e \<Rightarrow> [] | Inr rpc \<Rightarrow> [(r, rpc)])\<rparr>)"
proof -
  note d = serve_invD[OF inv]
  have len: "r < length (hdObjs (svHd s))" using r objs_inv_len[OF d(1)] by simp
  have ok: "str_ok (hdObjs (svHd s) ! r) (svStreams s ! r) (of_conn r (svRouted s)) (of_conn r (svGot s))"
    by (rule objs_inv_ok[OF d(1) r])
  consider (ctx) e where "res = Inl e" "h' = svHd s"
    | (msg) m ch where "res = Inr m" "chan_recv (shCh (hdObjs (svHd s) ! r)) = Ret (Some m, ch)"
        "h' = upd_obj r (\<lambda>sh. sh\<lparr>shCh := ch\<rparr>) (svHd s)"
    using select2_RetD[OF g[unfolded stream_readerFunc_def]] ok
    by (auto simp: go_bind_Ret_iff Let_def str_ok_def chan_recv_None_iff split: option.splits)
  then show ?thesis
  proof cases
    case ctx
    with inv show ?thesis by simp
  next
    case msg
    have "objs_inv (upd_obj r (\<lambda>sh. sh\<lparr>shCh := ch\<rparr>) (svHd s)) ((svStreams s)[r := svStreams s ! r])
        (svRouted s @ []) (svGot s @ [(r, m)])"
      by (rule objs_inv_upd[OF d(1) r]) (use msg(2) ok in \<open>auto simp: str_ok_def chan_simps\<close>)
    with msg d len show ?thesis by (auto simp: serve_inv_def main_inv_def split: main_pc.splits)
  qed
qed

lemma serve_inv_str_end:
  assumes inv: "serve_inv s" and r: "r < length (svStreams s)" "svStreams s ! r = (sid, StrExit)"
    and u: "unregisterStream sid (svHd s) = Ret h'"
  shows "serve_inv (s\<lparr>svHd := h', svStreams := (svStreams s)[r := (sid, StrEnd)]\<rparr>)"
proof -
  note d = serve_invD[OF inv]
  from unregisterStream_live[OF d(1,2) r] u have
    h': "objs_inv h' ((svStreams s)[r := (sid, StrEnd)]) (svRouted s) (svGot s)" "hdStreams h' = (hdStreams (svHd s))(sid := None)"
    "hdCtx h' = hdCtx (svHd s)" "hdCause h' = hdCause (svHd s)" "buf (shDone (hdObjs h' ! r)) = [()]"
    "\<forall>q. q \<noteq> r \<longrightarrow> shDone (hdObjs h' ! q) = shDone (hdObjs (svHd s) ! q)" by auto
  have t: "tab_inv (hdStreams h') ((svStreams s)[r := (sid, StrEnd)])"
    using tab_inv_end[OF d(2) r(1)] r(2) h'(2) by simp
  have "snd ((svStreams s)[r := (sid, StrEnd)] ! q) = StrEnd \<longrightarrow> buf (shDone (hdObjs h' ! q)) \<noteq> []"
    if "snd (svStreams s ! q) = StrEnd \<longrightarrow> buf (shDone (hdObjs (svHd s) ! q)) \<noteq> []" for q
    using that h'(5,6) r by (cases "q = r") auto
  with d(3) h' r(1) have "main_inv (s\<lparr>svHd := h', svStreams := (svStreams s)[r := (sid, StrEnd)]\<rparr>)"
    by (auto simp: main_inv_def split: main_pc.splits)
  with t h'(1) show ?thesis by (simp add: serve_inv_def)
qed

lemma serve_inv_str_return:
  assumes inv: "serve_inv s" and r: "r < length (svStreams s)" "svStreams s ! r = (sid, StrRun)"
  shows "serve_inv (s\<lparr>svHd := sh_cancel r (svHd s), svStreams := (svStreams s)[r := (sid, StrExit)]\<rparr>)"
proof -
  note d = serve_invD[OF inv]
  have "objs_inv (sh_cancel r (svHd s)) ((svStreams s)[r := (sid, StrExit)]) (svRouted s @ []) (svGot s @ [])"
    unfolding sh_cancel_def
    by (rule objs_inv_upd[OF d(1) r(1)]) (use objs_inv_ok[OF d(1) r(1)] r(2) in \<open>simp_all add: str_ok_def\<close>)
  moreover have "tab_inv (hdStreams (svHd s)) ((svStreams s)[r := (sid, StrExit)])"
    using d(2) r unfolding tab_inv_def by (simp add: nth_list_update)
  moreover have "main_inv (s\<lparr>svHd := sh_cancel r (svHd s), svStreams := (svStreams s)[r := (sid, StrExit)]\<rparr>)"
    using serve_invD(3)[OF serve_inv_sh_cancel[OF inv r(1)]] r
    by (auto simp: main_inv_def nth_list_update split: main_pc.splits)
  ultimately show ?thesis by (simp add: serve_inv_def)
qed

lemma serve_inv_wait_pick:
  assumes inv: "serve_inv s" and m: "svMain s = WaitLock" and w: "wait_pick sid (svHd s) = Some (r, h')"
  shows "serve_inv (s\<lparr>svMain := WaitDone r, svHd := h'\<rparr>)"
proof -
  from w have e: "hdStreams (svHd s) sid = Some r" "h' = sh_cancel r (svHd s)"
    by (auto simp: wait_pick_def split: option.splits)
  note r = tab_invD(1)[OF serve_invD(2)[OF inv] e(1)]
  have "serve_inv (s\<lparr>svHd := sh_cancel r (svHd s)\<rparr>)" using serve_inv_sh_cancel[OF inv] r by simp
  with r m e(2) show ?thesis by (simp add: serve_inv_def main_inv_def)
qed

lemma serve_inv_wait_done:
  assumes inv: "serve_inv s" and m: "svMain s = WaitDone r" and w: "wait_done r (svHd s) = Ret h'"
  shows "serve_inv (s\<lparr>svMain := WaitLock, svHd := h'\<rparr>)"
proof -
  note d = serve_invD[OF inv]
  have r: "r < length (svStreams s)" and c: "ctx_done (hdCtx (svHd s))" using d(3) m by (simp_all add: main_inv_def)
  have ok: "str_ok (hdObjs (svHd s) ! r) (svStreams s ! r) (of_conn r (svRouted s)) (of_conn r (svGot s))"
    by (rule objs_inv_ok[OF d(1) r])
  from w obtain v dn where dn: "chan_recv (shDone (hdObjs (svHd s) ! r)) = Ret (v, dn)"
    and h': "h' = upd_obj r (\<lambda>sh. sh\<lparr>shDone := dn\<rparr>) (svHd s)" by (auto simp: wait_done_def go_bind_Ret_iff)
  have "objs_inv (upd_obj r (\<lambda>sh. sh\<lparr>shDone := dn\<rparr>) (svHd s)) ((svStreams s)[r := svStreams s ! r]) (svRouted s @ []) (svGot s @ [])"
    by (rule objs_inv_upd[OF d(1) r]) (use dn ok in \<open>auto simp: str_ok_def chan_recv_def split: list.splits\<close>)
  with d h' c show ?thesis by (simp add: serve_inv_def main_inv_def)
qed

lemma serve_inv_step:
  assumes inv: "serve_inv s" and st: "serve_step env cd tag wr srv s t"
  shows "serve_inv t"
  using st
proof (cases rule: serve_step.cases)
  case (sv_process rpc p q now new h' w')
  with serve_inv_process[OF inv] show ?thesis by simp
next
  case (sv_process_err rpc p q now err new h' w')
  from process_err_same[OF sv_process_err(3) serve_invD(4)[OF inv]] have "h' = svHd s" .
  with inv have "serve_inv (s\<lparr>svHd := h', svWire := w'\<rparr>)" by (intro serve_inv_frame[OF inv]) simp_all
  with sv_process_err serve_inv_return show ?thesis by simp
next
  case (sv_returned)
  with inv show ?thesis by (simp add: serve_inv_def main_inv_def)
next
  case (sv_write rpc err w')
  let ?t = "s\<lparr>svWriter := WriterIdle, svWire := w', svWritten := svWritten s @ [rpc]\<rparr>"
  have "serve_inv ?t" by (rule serve_inv_frame[OF inv]) simp_all
  with serve_inv_hd_cancel[of ?t] sv_write show ?thesis by (cases err) simp_all
next
  case (sv_stream_done r e)
  have "serve_inv (s\<lparr>svHd := upd_obj r (\<lambda>sh. sh\<lparr>shCtx := (shCtx sh)\<lparr>ctxErr := Some e\<rparr>\<rparr>) (svHd s)\<rparr>)"
  proof (rule serve_inv_hd[OF inv])
    show "objs_inv (upd_obj r (\<lambda>sh. sh\<lparr>shCtx := (shCtx sh)\<lparr>ctxErr := Some e\<rparr>\<rparr>) (svHd s)) (svStreams s) (svRouted s) (svGot s)"
      by (rule objs_inv_upd_quiet[OF serve_invD(1)[OF inv] sv_stream_done(2)]) simp_all
  qed (use sv_stream_done serve_invD(4)[OF inv] objs_inv_len[OF serve_invD(1)[OF inv]] in simp_all)
  with sv_stream_done show ?thesis by simp
next
  case (sv_wait_pick sid r h')
  with serve_inv_wait_pick[OF inv] show ?thesis by simp
next
  case (sv_wait_done r h')
  with serve_inv_wait_done[OF inv] show ?thesis by simp
next
  case (sv_str_read r pick ctx res h')
  with serve_inv_str_read[OF inv] show ?thesis by simp
next
  case (sv_str_return r sid)
  with serve_inv_str_return[OF inv] show ?thesis by simp
next
  case (sv_str_end r sid h')
  with serve_inv_str_end[OF inv] show ?thesis by simp
qed (use inv serve_inv_return[OF inv] serve_inv_hd_cancel[OF inv] in \<open>auto intro: serve_inv_frame[OF inv]\<close>)

interpretation svs: invariant_system "serve_init srv" "serve_step env cd tag wr srv" serve_inv for env cd tag wr srv
proof unfold_locales
  show "serve_init srv s \<Longrightarrow> serve_inv s" for s
    by (auto simp: serve_init_def newHandler_def serve_inv_def objs_inv_def tab_inv_def main_inv_def ctx_done_def)
qed (rule serve_inv_step)

subsection \<open>The result\<close>

text \<open>Once the loop has ended there is an error to return.\<close>

definition result_inv :: "('m, 't, 'w) serve_sys \<Rightarrow> bool" where
  "result_inv s \<longleftrightarrow>
     (case svMain s of
        WaitLock \<Rightarrow> svResult s \<noteq> None
      | WaitDone r \<Rightarrow> svResult s \<noteq> None
      | ServeReturned \<Rightarrow> svResult s \<noteq> None
      | _ \<Rightarrow> True)"

lemma result_inv_step:
  assumes "result_inv s" and "serve_step env cd tag wr srv s t"
  shows "result_inv t"
  using assms(2)
  by (cases rule: serve_step.cases)
    (use assms(1) in \<open>auto simp: result_inv_def serve_return_def ctx_done_def split: main_pc.splits\<close>)

interpretation svr: invariant_system "serve_init srv" "serve_step env cd tag wr srv" result_inv for env cd tag wr srv
proof unfold_locales
  show "serve_init srv s \<Longrightarrow> result_inv s" for s
    by (auto simp: serve_init_def result_inv_def)
qed (rule result_inv_step)

subsection \<open>The writer\<close>

text \<open>What was passed to the writer is what it wrote and the message it holds.\<close>

definition in_flight :: "writer_pc \<Rightarrow> Rpc list" where
  "in_flight pc = (case pc of WriterBusy rpc \<Rightarrow> [rpc] | _ \<Rightarrow> [])"

definition writer_inv :: "('m, 't, 'w) serve_sys \<Rightarrow> bool" where
  "writer_inv s \<longleftrightarrow> svQueued s = svWritten s @ in_flight (svWriter s) \<and> length (svWorkers s) = numRpcWorkers"

lemma write_chan_send:
  "chan_send (write_chan pc) rpc = Ret c \<Longrightarrow> pc = WriterIdle \<and> writer_after c pc = WriterBusy rpc \<and> buf c = [rpc]"
  by (auto simp: write_chan_def chan_send_def writer_after_def split: if_splits)

lemma write_chan_stream:
  assumes "stream_writerFunc pick ctx rpc (write_chan pc) = Ret (err, c)"
  shows "buf c = [] \<and> writer_after c pc = pc \<or> pc = WriterIdle \<and> writer_after c pc = WriterBusy rpc \<and> buf c = [rpc]"
  using select2_RetD[OF assms[unfolded stream_writerFunc_def]]
proof (elim disjE, goal_cases)
  case 1
  then have "c = write_chan pc" by auto
  then show ?case by (simp add: writer_after_def write_chan_def)
next
  case 2
  then have "chan_send (write_chan pc) rpc = Ret c" by (auto simp: go_bind_Ret_iff)
  from write_chan_send[OF this] show ?case by blast
qed

lemma writer_inv_step:
  assumes inv: "writer_inv s" and st: "serve_step env cd tag wr srv s t"
  shows "writer_inv t"
  using st
proof (cases rule: serve_step.cases)
  case (sv_worker_send i resp c)
  from write_chan_send[OF sv_worker_send(4)] have "svWriter s = WriterIdle" "writer_after c (svWriter s) = WriterBusy resp"
    by blast+
  then show ?thesis using inv unfolding sv_worker_send(1) writer_inv_def in_flight_def by simp
next
  case (sv_str_write r pick ctx rpc err c)
  with inv write_chan_stream[OF sv_str_write(4)] show ?thesis by (auto simp: writer_inv_def in_flight_def)
qed (use inv in \<open>auto simp: writer_inv_def in_flight_def serve_return_def\<close>)

interpretation svw: invariant_system "serve_init srv" "serve_step env cd tag wr srv" writer_inv for env cd tag wr srv
proof unfold_locales
  show "serve_init srv s \<Longrightarrow> writer_inv s" for s
    by (auto simp: serve_init_def writer_inv_def in_flight_def)
qed (rule writer_inv_step)

subsection \<open>Unary calls\<close>

text \<open>The calls a worker has taken and not yet answered.\<close>

definition worker_ids :: "('m, 't) worker_pc \<Rightarrow> u64 list" where
  "worker_ids pc = (case pc of WorkerBusy si md rpc \<Rightarrow> [rpcId rpc] | WorkerSend resp \<Rightarrow> [rpcId resp] | _ \<Rightarrow> [])"

definition calls_inv :: "('m, 't, 'w) serve_sys \<Rightarrow> bool" where
  "calls_inv s \<longleftrightarrow>
     mset (map rpcId (svCalls s)) = mset (map rpcId (svReplied s)) + mset (concat (map worker_ids (svWorkers s))) \<and>
     subseq (svReplied s) (svQueued s)"

lemma mset_concat_update:
  "i < length xs \<Longrightarrow> mset (concat (map f (xs[i := x]))) + mset (f (xs ! i)) = mset (concat (map f xs)) + mset (f x)"
proof (induction xs arbitrary: i)
  case (Cons y xs)
  show ?case
  proof (cases i)
    case (Suc n)
    with Cons.IH[of n] Cons.prems show ?thesis by simp
  qed simp
qed simp

lemma processUnaryRpc_id:
  assumes "processUnaryRpc env cd tag now srv ctx info md rpc = Ret (resp, tr)"
  shows "rpcId resp = rpcId rpc"
proof -
  obtain h where h: "rpcHeader rpc = Some h" using assms by (cases "rpcHeader rpc") (simp_all add: processUnaryRpc_def)
  show ?thesis
    using assms h
    by (cases "contextFromHeaders env now ctx h") (auto simp: processUnaryRpc_def Let_def go_bind_Ret_iff unary_resp_def)
qed

lemma calls_inv_worker:
  assumes inv: "calls_inv s" and i: "i < length (svWorkers s)" and same: "worker_ids (svWorkers s ! i) = worker_ids pc"
    and t: "svCalls t = svCalls s" "svReplied t = svReplied s" "svQueued t = svQueued s" "svWorkers t = (svWorkers s)[i := pc]"
  shows "calls_inv t"
  using inv mset_concat_update[OF i, of worker_ids pc] same t by (simp add: calls_inv_def)

lemma calls_inv_step:
  assumes inv: "calls_inv s" and st: "serve_step env cd tag wr srv s t"
  shows "calls_inv t"
  using st
proof (cases rule: serve_step.cases)
  case (sv_unary_send si md rpc i)
  with inv mset_concat_update[of i "svWorkers s" worker_ids "WorkerBusy si md rpc"] show ?thesis
    by (simp add: calls_inv_def worker_ids_def)
next
  case (sv_worker i si md rpc now resp tr)
  from processUnaryRpc_id[OF sv_worker(4)] sv_worker show ?thesis
    by (intro calls_inv_worker[OF inv sv_worker(2), of "WorkerSend resp"]) (simp_all add: worker_ids_def)
next
  case (sv_worker_send i resp c)
  have "mset (concat (map worker_ids (svWorkers s))) =
      mset (concat (map worker_ids ((svWorkers s)[i := WorkerIdle]))) + {#rpcId resp#}"
    using mset_concat_update[OF sv_worker_send(2), of worker_ids WorkerIdle] sv_worker_send(3) by (simp add: worker_ids_def)
  moreover have "subseq (svReplied s @ [resp]) (svQueued s @ [resp])"
    using inv by (simp add: calls_inv_def subseq_append')
  ultimately show ?thesis using inv sv_worker_send(1) by (simp add: calls_inv_def)
next
  case (sv_worker_gone i)
  then show ?thesis
    by (intro calls_inv_worker[OF inv sv_worker_gone(2), of WorkerGone]) (simp_all add: worker_ids_def)
next
  case (sv_str_write r pick ctx rpc err c)
  with inv show ?thesis by (auto simp: calls_inv_def intro: list_emb_append2)
qed (use inv in \<open>auto simp: calls_inv_def serve_return_def\<close>)

interpretation svc: invariant_system "serve_init srv" "serve_step env cd tag wr srv" calls_inv for env cd tag wr srv
proof unfold_locales
  show "serve_init srv s \<Longrightarrow> calls_inv s" for s
    by (auto simp: serve_init_def calls_inv_def worker_ids_def)
qed (rule calls_inv_step)

section \<open>The wait can always finish\<close>

definition live :: "('m, 't, 'w) serve_sys \<Rightarrow> nat" where
  "live s = length (filter (\<lambda>x. snd x \<noteq> StrEnd) (svStreams s))"

lemma length_filter_update:
  "r < length xs \<Longrightarrow> length (filter P (xs[r := x])) + (if P (xs ! r) then 1 else 0) =
     length (filter P xs) + (if P x then 1 else 0)"
proof (induction xs arbitrary: r)
  case (Cons y xs)
  show ?case
  proof (cases r)
    case (Suc n)
    with Cons.IH[of n] Cons.prems show ?thesis by simp
  qed simp
qed simp

abbreviation serve_steps where
  "serve_steps env cd tag wr srv \<equiv> (serve_step env cd tag wr srv)\<^sup>*\<^sup>*"

text \<open>A stream that is waited for can return and unregister; its end is then received.\<close>

lemma wait_exit:
  assumes inv: "serve_inv s" and m: "svMain s = WaitDone r" and pc: "svStreams s ! r = (sid, StrExit)"
  shows "\<exists>t. serve_steps env cd tag wr srv s t \<and> serve_inv t \<and> svMain t = WaitLock \<and> live t < live s"
proof -
  note d = serve_invD[OF inv]
  have r: "r < length (svStreams s)" using d(3) m by (simp add: main_inv_def)
  from unregisterStream_live[OF d(1,2) r pc] obtain h' where u: "unregisterStream sid (svHd s) = Ret h'"
    and b: "buf (shDone (hdObjs h' ! r)) = [()]" by blast
  let ?t = "s\<lparr>svHd := h', svStreams := (svStreams s)[r := (sid, StrEnd)]\<rparr>"
  obtain h'' where w: "wait_done r h' = Ret h''" using b by (simp add: wait_done_def chan_recv_def)
  have s1: "serve_step env cd tag wr srv s ?t" by (rule sv_str_end[OF r pc _ u]) (simp add: m)
  have i1: "serve_inv ?t" by (rule serve_inv_step[OF inv s1])
  have s2: "serve_step env cd tag wr srv ?t (?t\<lparr>svMain := WaitLock, svHd := h''\<rparr>)"
    by (rule sv_wait_done[of _ r]) (simp_all add: m w)
  have "live (?t\<lparr>svMain := WaitLock, svHd := h''\<rparr>) < live s"
    using length_filter_update[OF r, of "\<lambda>x. snd x \<noteq> StrEnd" "(sid, StrEnd)"] pc by (simp add: live_def)
  with s1 s2 serve_inv_step[OF i1 s2] show ?thesis
    by (intro exI[of _ "?t\<lparr>svMain := WaitLock, svHd := h''\<rparr>"]) simp
qed

lemma wait_live:
  assumes inv: "serve_inv s" and m: "svMain s = WaitDone r" and pc: "snd (svStreams s ! r) \<noteq> StrEnd"
  shows "\<exists>t. serve_steps env cd tag wr srv s t \<and> serve_inv t \<and> svMain t = WaitLock \<and> live t < live s"
proof (cases "svStreams s ! r")
  case (Pair sid p)
  show ?thesis
  proof (cases p)
    case StrExit
    with Pair wait_exit[OF inv m] show ?thesis by simp
  next
    case StrRun
    have r: "r < length (svStreams s)" using serve_invD(3)[OF inv] m by (simp add: main_inv_def)
    let ?t = "s\<lparr>svHd := sh_cancel r (svHd s), svStreams := (svStreams s)[r := (sid, StrExit)]\<rparr>"
    have st: "serve_step env cd tag wr srv s ?t" by (rule sv_str_return[OF r]) (simp add: Pair StrRun)
    have "live ?t = live s"
      using length_filter_update[OF r, of "\<lambda>x. snd x \<noteq> StrEnd" "(sid, StrExit)"] Pair StrRun by (simp add: live_def)
    moreover obtain t where "serve_steps env cd tag wr srv ?t t" "serve_inv t" "svMain t = WaitLock" "live t < live ?t"
      using wait_exit[OF serve_inv_step[OF inv st], of r sid, where env = env and cd = cd and tag = tag and wr = wr and srv = srv] m r by auto
    ultimately show ?thesis using st by (metis converse_rtranclp_into_rtranclp)
  next
    case StrEnd
    with Pair pc show ?thesis by simp
  qed
qed

lemma wait_finishes:
  "serve_inv s \<Longrightarrow> svMain s = WaitLock \<Longrightarrow>
   \<exists>t. serve_steps env cd tag wr srv s t \<and> svMain t = ServeReturned"
proof (induction "live s" arbitrary: s rule: less_induct)
  case less
  show ?case
  proof (cases "hdStreams (svHd s) = Map.empty")
    case True
    have "serve_step env cd tag wr srv s (s\<lparr>svMain := ServeReturned\<rparr>)" by (rule sv_returned[OF less.prems(2) True])
    then show ?thesis by (intro exI[of _ "s\<lparr>svMain := ServeReturned\<rparr>"]) auto
  next
    case False
    then obtain sid r where e: "hdStreams (svHd s) sid = Some r" by fastforce
    let ?t = "s\<lparr>svMain := WaitDone r, svHd := sh_cancel r (svHd s)\<rparr>"
    have st: "serve_step env cd tag wr srv s ?t"
      by (rule sv_wait_pick[OF less.prems(2), of sid]) (simp add: wait_pick_def e)
    have "snd (svStreams ?t ! r) \<noteq> StrEnd" using tab_invD(1)[OF serve_invD(2)[OF less.prems(1)] e] by simp
    from wait_live[OF serve_inv_step[OF less.prems(1) st] _ this, where env = env and cd = cd and tag = tag and wr = wr and srv = srv] obtain u where
      u: "serve_steps env cd tag wr srv ?t u" "serve_inv u" "svMain u = WaitLock" "live u < live ?t" by auto
    then have "live u < live s" by (simp add: live_def)
    from less.hyps[OF this u(2,3)] obtain v where "serve_steps env cd tag wr srv u v" "svMain v = ServeReturned" by blast
    with st u(1) show ?thesis by (meson converse_rtranclp_into_rtranclp rtranclp_trans)
  qed
qed

lemma wait_done_finishes:
  assumes inv: "serve_inv s" and m: "svMain s = WaitDone r"
  shows "\<exists>t. serve_steps env cd tag wr srv s t \<and> svMain t = ServeReturned"
proof (cases "snd (svStreams s ! r) = StrEnd")
  case True
  with serve_invD(3)[OF inv] m have "buf (shDone (hdObjs (svHd s) ! r)) \<noteq> []" by (simp add: main_inv_def)
  then obtain h' where w: "wait_done r (svHd s) = Ret h'"
    by (cases "buf (shDone (hdObjs (svHd s) ! r))") (simp_all add: wait_done_def chan_recv_def)
  have st: "serve_step env cd tag wr srv s (s\<lparr>svMain := WaitLock, svHd := h'\<rparr>)" by (rule sv_wait_done[OF m w])
  from wait_finishes[OF serve_inv_step[OF inv st], where env = env and cd = cd and tag = tag and wr = wr and srv = srv] obtain t where
    "serve_steps env cd tag wr srv (s\<lparr>svMain := WaitLock, svHd := h'\<rparr>) t" "svMain t = ServeReturned" by auto
  with st show ?thesis by (meson converse_rtranclp_into_rtranclp)
next
  case False
  from wait_live[OF inv m this] obtain u where u: "serve_steps env cd tag wr srv s u" "serve_inv u" "svMain u = WaitLock" by blast
  from wait_finishes[OF u(2,3), where env = env and cd = cd and tag = tag and wr = wr and srv = srv] u(1) show ?thesis by (meson rtranclp_trans)
qed

section \<open>Where goroutines block for ever\<close>

text \<open>
  The loop holds the mutex and sends to a stream whose goroutine has returned and waits for the mutex;
  the stream's channel is full.
\<close>

definition stuck :: "nat \<Rightarrow> Rpc \<Rightarrow> ('m, 't, 'w) serve_sys \<Rightarrow> bool" where
  "stuck r rpc s \<longleftrightarrow>
     svMain s = ServeLocked rpc \<and> \<not> is_reset rpc \<and> hdStreams (svHd s) (rpcId rpc) = Some r \<and>
     snd (svStreams s ! r) = StrExit \<and> buf (shCh (hdObjs (svHd s) ! r)) \<noteq> []"

definition ended :: "('m, 't, 'w) serve_sys \<Rightarrow> bool" where
  "ended s \<longleftrightarrow> ctx_done (svClientCtx s) \<or> ctx_done (hdCtx (svHd s))"

lemma ended_step:
  assumes "ended s" "serve_step env cd tag wr srv s t" "serve_inv s"
  shows "ended t"
  using assms(2)
proof (cases rule: serve_step.cases)
  case (sv_process rpc p q now new h' w')
  from sv_process(3) serve_invD(4)[OF assms(3)] have "hdCtx h' = hdCtx (svHd s)" by (cases rule: process_cases) simp_all
  with sv_process assms(1) show ?thesis by (simp add: ended_def)
next
  case (sv_process_err rpc p q now err new h' w')
  then show ?thesis by (simp add: ended_def serve_return_def)
next
  case (sv_str_read r pick ctx res h')
  then have "hdCtx h' = hdCtx (svHd s)"
    by (auto simp: stream_readerFunc_def go_bind_Ret_iff Let_def dest!: select2_RetD split: option.splits)
  with sv_str_read assms(1) show ?thesis by (simp add: ended_def)
next
  case (sv_str_end r sid h')
  then have "hdCtx h' = hdCtx (svHd s)"
    by (auto simp: unregisterStream_def go_bind_Ret_iff Let_def split: option.splits)
  with sv_str_end assms(1) show ?thesis by (simp add: ended_def)
qed (use assms(1) in \<open>auto simp: ended_def serve_return_def wait_pick_def wait_done_def go_bind_Ret_iff ctx_done_def
      split: option.splits\<close>)

lemma stuck_blocks:
  assumes "stuck r rpc s" "serve_inv s" "\<not> ended s"
  shows "processStreamingRpc env wr p q now (svClientCtx s) rpc (svHd s, svWire s) = Block"
proof -
  have e: "hdStreams (svHd s) (rpcId rpc) = Some r" "\<not> is_reset rpc" using assms(1) by (simp_all add: stuck_def)
  have "r < length (svStreams s)" using tab_invD(1)[OF serve_invD(2)[OF assms(2)] e(1)] by simp
  from objs_inv_ok[OF serve_invD(1)[OF assms(2)] this] assms(1)
  have "chan_send (shCh (hdObjs (svHd s) ! r)) rpc = Block"
    by (cases "buf (shCh (hdObjs (svHd s) ! r))") (simp_all add: str_ok_def stuck_def chan_simps)
  with assms(3) have "stream_deliver p q (svClientCtx s) r rpc (svHd s) = Block"
    by (simp add: stream_deliver_def ended_def ctx_done_def)
  with e show ?thesis by (simp add: processStreamingRpc_def)
qed

lemma upd_obj_shCh: "(\<And>sh. shCh (f sh) = shCh sh) \<Longrightarrow> shCh (hdObjs (upd_obj q f h) ! r) = shCh (hdObjs h ! r)"
  by (cases "q < length (hdObjs h)") (simp_all add: upd_obj_def list_update_beyond nth_list_update)

lemma stream_readerFunc_upd:
  assumes "stream_readerFunc pick r ctx h = Ret (res, h')"
  shows "h' = h \<or> (\<exists>ch. h' = upd_obj r (\<lambda>sh. sh\<lparr>shCh := ch\<rparr>) h)"
  using select2_RetD[OF assms[unfolded stream_readerFunc_def]]
proof (elim disjE, goal_cases)
  case 1
  then obtain v ch where v: "chan_recv (shCh (hdObjs h ! r)) = Ret (v, ch)" by (auto simp: go_bind_Ret_iff)
  with 1 have "h' = upd_obj r (\<lambda>sh. sh\<lparr>shCh := ch\<rparr>) h" by (cases v) (simp_all add: Let_def)
  then show ?case by blast
qed auto

lemma stuck_step:
  assumes st: "stuck r rpc s" and inv: "serve_inv s" and live: "\<not> ended s" and step: "serve_step env cd tag wr srv s t"
  shows "stuck r rpc t \<or> ended t"
  using step
proof (cases rule: serve_step.cases)
  case (sv_str_read q pick ctx res h')
  have "q \<noteq> r" using sv_str_read(3) st by (auto simp: stuck_def)
  moreover have "q < length (hdObjs (svHd s))" using sv_str_read(2) objs_inv_len[OF serve_invD(1)[OF inv]] by simp
  ultimately show ?thesis using st sv_str_read(1) stream_readerFunc_upd[OF sv_str_read(4)] by (auto simp: stuck_def)
next
  case (sv_str_return q sid)
  have "q \<noteq> r" using sv_str_return(3) st by (auto simp: stuck_def)
  with st sv_str_return(1) show ?thesis by (simp add: stuck_def sh_cancel_def upd_obj_shCh)
next
  case (sv_stream_done q e)
  with st show ?thesis by (simp add: stuck_def upd_obj_shCh)
next
  case (sv_write m err w')
  with st show ?thesis by (cases err) (simp_all add: stuck_def)
qed (use st stuck_blocks[OF st inv live] in \<open>auto simp: stuck_def ended_def ctx_done_def\<close>)

text \<open>C32: The loop of a connection deadlocks with a stream that has returned: when it holds the mutex to queue a
  message for a stream whose handler has returned, and the stream's channel is full, then whatever else
  happens the loop stays blocked with the mutex and the stream's goroutine waits for it, until the connection's
  or the client's context ends. No other stream can start, get a message or end meanwhile.\<close>

theorem serve_deadlock:
  assumes "reach (serve_init srv) (serve_step env cd tag wr srv) s" and "stuck r rpc s"
    and "(serve_step env cd tag wr srv)\<^sup>*\<^sup>* s t"
  shows "stuck r rpc t \<or> ctx_done (svClientCtx t) \<or> ctx_done (hdCtx (svHd t))"
proof -
  have "serve_inv t \<and> (stuck r rpc t \<or> ended t)"
    using assms(3)
  proof (induction rule: rtranclp_induct)
    case base
    show ?case using svs.reach_inv[OF assms(1)] assms(2) by simp
  next
    case (step y z)
    then show ?case using stuck_step[of r rpc y env cd tag wr srv z] ended_step[of y env cd tag wr srv z] serve_inv_step by blast
  qed
  then show ?thesis by (simp add: ended_def)
qed

text \<open>C6: In every reachable state of a server connection, what was dispatched to a stream is what its goroutine read
  and what waits in its channel, in order and all under the stream's id; the table holds exactly the
  streams that have not ended, and a stream that has returned can always unregister without
  blocking or panicking once the mutex is free.\<close>

theorem serve_streams:
  assumes "reach (serve_init srv) (serve_step env cd tag wr srv) s"
  shows "(\<forall>r < length (svStreams s).
      of_conn r (svRouted s) = of_conn r (svGot s) @ buf (shCh (hdObjs (svHd s) ! r)) \<and>
      (\<forall>m \<in> set (of_conn r (svRouted s)). rpcId m = fst (svStreams s ! r)) \<and>
      (snd (svStreams s ! r) = StrExit \<longrightarrow> (\<exists>h'. unregisterStream (fst (svStreams s ! r)) (svHd s) = Ret h'))) \<and>
    (\<forall>sid r. hdStreams (svHd s) sid = Some r \<longleftrightarrow>
      r < length (svStreams s) \<and> fst (svStreams s ! r) = sid \<and> snd (svStreams s ! r) \<noteq> StrEnd)"
proof -
  note d = serve_invD[OF svs.reach_inv[OF assms]]
  have "\<exists>h'. unregisterStream (fst (svStreams s ! r)) (svHd s) = Ret h'"
    if "r < length (svStreams s)" "snd (svStreams s ! r) = StrExit" for r
    using unregisterStream_live[OF d(1,2) that(1), of "fst (svStreams s ! r)"] that(2)
    by (cases "svStreams s ! r") auto
  moreover have "str_ok (hdObjs (svHd s) ! r) (svStreams s ! r) (of_conn r (svRouted s)) (of_conn r (svGot s))"
    if "r < length (svStreams s)" for r by (rule objs_inv_ok[OF d(1) that])
  ultimately show ?thesis using d(2) unfolding str_ok_def tab_inv_def by blast
qed

text \<open>C7: In every reachable state of a server connection, the unary requests given to the eight workers are, by id
  and as a multiset, those answered and those a worker still has: every call is answered at most
  once, under its id, and none is lost. The answers reach the writer in order, and the writer writes what it
  was given in order, each message once.\<close>

theorem serve_unary_once:
  assumes "reach (serve_init srv) (serve_step env cd tag wr srv) s"
  shows "mset (map rpcId (svCalls s)) = mset (map rpcId (svReplied s)) + mset (concat (map worker_ids (svWorkers s))) \<and>
    length (svWorkers s) = 8 \<and> subseq (svReplied s) (svQueued s) \<and>
    svQueued s = svWritten s @ (case svWriter s of WriterBusy rpc \<Rightarrow> [rpc] | _ \<Rightarrow> [])"
  using svc.reach_inv[OF assms] svw.reach_inv[OF assms]
  by (simp add: calls_inv_def writer_inv_def in_flight_def numRpcWorkers_def)

text \<open>C13: \<open>Serve\<close> returns only after every stream goroutine of the connection has ended, and always with an error; once its loop has ended it
  can always return: from every reachable state of the wait there is a run in which the streams' handlers return,
  unregister and the wait finishes, however many streams are left.\<close>

theorem serve_wait_finishes:
  assumes "reach (serve_init srv) (serve_step env cd tag wr srv) s"
  shows "(svMain s = ServeReturned \<longrightarrow> (\<forall>x \<in> set (svStreams s). snd x = StrEnd) \<and> ctx_done (hdCtx (svHd s)) \<and>
       svResult s \<noteq> None) \<and>
    (svMain s = WaitLock \<or> (\<exists>r. svMain s = WaitDone r) \<longrightarrow>
      (\<exists>t. (serve_step env cd tag wr srv)\<^sup>*\<^sup>* s t \<and> svMain t = ServeReturned))"
proof -
  have inv: "serve_inv s" by (rule svs.reach_inv[OF assms])
  have "snd x = StrEnd" if "svMain s = ServeReturned" "x \<in> set (svStreams s)" for x
  proof (rule ccontr)
    assume "snd x \<noteq> StrEnd"
    with that(2) obtain r where "r < length (svStreams s)" "snd (svStreams s ! r) \<noteq> StrEnd" by (auto simp: in_set_conv_nth)
    from tab_invD(2)[OF serve_invD(2)[OF inv] this] serve_invD(3)[OF inv] that(1) show False by (simp add: main_inv_def)
  qed
  moreover have "svMain s = ServeReturned \<Longrightarrow> ctx_done (hdCtx (svHd s))"
    using serve_invD(3)[OF inv] by (simp add: main_inv_def)
  moreover have "svMain s = ServeReturned \<Longrightarrow> svResult s \<noteq> None"
    using svr.reach_inv[OF assms] by (simp add: result_inv_def)
  ultimately show ?thesis using wait_finishes[OF inv] wait_done_finishes[OF inv] by blast
qed

text \<open>A worker that has a response when the writer has gone is blocked for ever: its send on the write channel is
  not guarded by a context.\<close>

lemma serve_worker_leak:
  assumes "svWriter s = WriterGone" and "i < length (svWorkers s)" and "svWorkers s ! i = WorkerSend resp"
    and "(serve_step env cd tag wr srv)\<^sup>*\<^sup>* s t"
  shows "svWriter t = WriterGone \<and> i < length (svWorkers t) \<and> svWorkers t ! i = WorkerSend resp"
  using assms(4)
proof (induction rule: rtranclp_induct)
  case base
  then show ?case using assms(1-3) by simp
next
  case (step y z)
  from step.hyps(2) show ?case
  proof (cases rule: serve_step.cases)
    case (sv_worker_send j m c)
    with step.IH write_chan_send[OF sv_worker_send(4)] show ?thesis by simp
  next
    case (sv_str_write r pick ctx rpc err c)
    with step.IH write_chan_stream[OF sv_str_write(4)] show ?thesis by auto
  next
    case (sv_unary_send si md rpc j)
    with step.IH show ?thesis by (cases "j = i") auto
  next
    case (sv_worker j si md rpc now m tr)
    with step.IH show ?thesis by (cases "j = i") auto
  next
    case (sv_worker_gone j)
    with step.IH show ?thesis by (cases "j = i") auto
  qed (use step.IH in \<open>auto simp: serve_return_def\<close>)
qed

section \<open>An example connection\<close>

definition demo_chat :: "u64 \<Rightarrow> bytes option \<Rightarrow> Rpc" where
  "demo_chat i b =
     \<lparr>rpcId = i, rpcHeader = Some (header_of ''/svc/Chat'' ''c'' ''s'' []), rpcStatus = None,
      rpcBody = (case b of None \<Rightarrow> None | Some d \<Rightarrow> Some \<lparr>bData = Some d\<rparr>), rpcTrailer = None, rpcReset = None\<rparr>"

definition demo_srv :: "(bytes, unit) Server" where
  "demo_srv = (NewServer ''s'' [])
     \<lparr>services := [''svc'' \<mapsto> \<lparr>siName = ''svc'', siMethods = [''Echo'' \<mapsto> demo_method],
        siStreams = [''Chat'' \<mapsto> \<lparr>StreamName = ''Chat'', ServerStreams = True, ClientStreams = True,
          sdHandler = (\<lambda>st. Ret (None, st))\<rparr>]\<rparr>]\<rparr>"

definition demo_wire :: "Rpc list rpc_write" where
  "demo_wire ctx rpc w = Ret (None, w @ [rpc])"

abbreviation demo_serve where
  "demo_serve \<equiv> serve_step sample_env sample_codec (\<lambda>i m ctx. ctx) demo_wire demo_srv"

abbreviation demo_serve_reach where
  "demo_serve_reach \<equiv> reach (serve_init demo_srv) demo_serve"

lemma demo_dispatch:
  "\<exists>si sd. serve_dispatch demo_srv (demo_chat i b) = Stream si sd"
  "\<exists>si. serve_dispatch demo_srv (demo_request []) = Unary si demo_method"
proof -
  have "parseRawMethod ''/svc/Chat'' = Inr (''svc'', ''Chat'')" "parseRawMethod ''/svc/Echo'' = Inr (''svc'', ''Echo'')"
    by code_simp+
  then show "\<exists>si sd. serve_dispatch demo_srv (demo_chat i b) = Stream si sd"
    "\<exists>si. serve_dispatch demo_srv (demo_request []) = Unary si demo_method"
    by (simp_all add: serve_dispatch_def demo_srv_def demo_chat_def demo_request_def NewServer_def)
qed

lemma demo_locked:
  assumes "demo_serve_reach s" and "svMain s = ServeRead"
  shows "demo_serve_reach (s\<lparr>svMain := ServeLocked (demo_chat i b)\<rparr>)"
proof -
  obtain si sd where "serve_dispatch demo_srv (demo_chat i b) = Stream si sd" using demo_dispatch(1) by blast
  from reach_step[OF assms(1) sv_stream[OF assms(2) this]] have
    r: "demo_serve_reach (s\<lparr>svMain := ServeStream (demo_chat i b)\<rparr>)" .
  have "demo_serve (s\<lparr>svMain := ServeStream (demo_chat i b)\<rparr>) (s\<lparr>svMain := ServeLocked (demo_chat i b)\<rparr>)"
    using sv_lock[of "s\<lparr>svMain := ServeStream (demo_chat i b)\<rparr>" "demo_chat i b"] by simp
  from reach_step[OF r this] show ?thesis .
qed

definition demo_s0 :: "(bytes, unit, Rpc list) serve_sys" where
  "demo_s0 = serve_start (\<lambda>i ctx. ctx) demo_srv Background []"

lemma demo_s0_sel [simp]:
  "svMain demo_s0 = ServeRead" "svHd demo_s0 = newHandler demo_srv" "svClientCtx demo_s0 = Background"
  "svWriter demo_s0 = WriterIdle" "svStreams demo_s0 = []" "svWire demo_s0 = []"
  "svWorkers demo_s0 = replicate 8 WorkerIdle" "svRouted demo_s0 = []" "svGot demo_s0 = []"
  by (simp_all add: demo_s0_def serve_start_def serve_begin_def demo_srv_def NewServer_def numRpcWorkers_def)

lemma demo_s0_eq:
  "demo_s0 = \<lparr>svMain = ServeRead, svHd = newHandler demo_srv, svClientCtx = Background, svWriter = WriterIdle,
     svWorkers = replicate 8 WorkerIdle, svStreams = [], svWire = [], svTrace = [],
     svRouted = [], svGot = [], svQueued = [], svWritten = [], svCalls = [], svReplied = [], svResult = None\<rparr>"
  by (simp add: demo_s0_def serve_start_def serve_begin_def demo_srv_def NewServer_def numRpcWorkers_def)

lemma reach_demo_s0: "demo_serve_reach demo_s0"
  by (rule reach_init) (auto simp: serve_init_def demo_s0_def)

text \<open>A stream that was started and has returned, with one message in its channel.\<close>

definition demo_hd :: "Rpc list \<Rightarrow> stream_pc \<Rightarrow> handler" where
  "demo_hd q pc =
     \<lparr>hdCtx = Background, hdCause = None, hdStreams = [1 \<mapsto> 0],
      hdObjs = [\<lparr>shCh = (make_chan 1)\<lparr>buf := q\<rparr>, shDone = make_chan 1,
        shCtx = (let ctx = Background\<lparr>ctxIncoming := Some Map.empty\<rparr> in if pc = StrRun then ctx else ctx_cancel ctx)\<rparr>]\<rparr>"

definition demo_sys :: "Rpc list \<Rightarrow> stream_pc \<Rightarrow> (bytes, unit, Rpc list) serve_sys" where
  "demo_sys q pc = demo_s0\<lparr>svHd := demo_hd q pc, svStreams := [(1, pc)], svRouted := map (Pair 0) q\<rparr>"

lemma demo_process_start:
  "processStreamingRpc sample_env demo_wire True True 0 Background (demo_chat 1 None) (newHandler demo_srv, []) =
     Ret ((None, Some 0), demo_hd [] StrRun, [])"
  by (simp add: processStreamingRpc_def newHandler_def demo_srv_def NewServer_def demo_chat_def is_reset_def Let_def
      contextFromHeaders_def demo_hd_def Background_def make_chan_def fun_eq_iff)

lemma demo_process_queue:
  "processStreamingRpc sample_env demo_wire True True 0 Background (demo_chat 1 (Some b)) (demo_hd [] pc, []) =
     Ret ((None, None), demo_hd [demo_chat 1 (Some b)] pc, [])"
  by (simp add: processStreamingRpc_def demo_hd_def demo_chat_def is_reset_def stream_deliver_def chan_send_def
      upd_obj_def on_done_def Background_def)

lemma reach_demo_run: "demo_serve_reach (demo_sys [] StrRun)"
proof -
  let ?s = "demo_s0\<lparr>svMain := ServeLocked (demo_chat 1 None)\<rparr>"
  have r: "demo_serve_reach ?s" by (rule demo_locked[OF reach_demo_s0]) simp
  have "demo_serve ?s (?s\<lparr>svMain := ServeRead, svHd := demo_hd [] StrRun, svWire := [],
      svStreams := svStreams ?s @ (case Some (0 :: nat) of None \<Rightarrow> [] | Some r \<Rightarrow> [(rpcId (demo_chat 1 None), StrRun)]),
      svRouted := svRouted ?s @ routed (demo_chat 1 None) (svHd ?s) None\<rparr>)"
    by (rule sv_process[where p = True and q = True and now = 0]) (use demo_process_start in simp_all)
  from reach_step[OF r this] show ?thesis
    by (simp add: demo_sys_def demo_s0_eq routed_def newHandler_def demo_chat_def)
qed

lemma reach_demo_exit: "demo_serve_reach (demo_sys [] StrExit)"
proof -
  have "demo_serve (demo_sys [] StrRun) ((demo_sys [] StrRun)\<lparr>svHd := sh_cancel 0 (svHd (demo_sys [] StrRun)),
      svStreams := (svStreams (demo_sys [] StrRun))[0 := (1, StrExit)]\<rparr>)"
    by (rule sv_str_return) (simp_all add: demo_sys_def)
  from reach_step[OF reach_demo_run this] show ?thesis
    by (simp add: demo_sys_def demo_s0_eq demo_hd_def sh_cancel_def upd_obj_def)
qed

lemma reach_demo_queued: "demo_serve_reach (demo_sys [demo_chat 1 (Some [1])] StrExit)"
proof -
  let ?s = "(demo_sys [] StrExit)\<lparr>svMain := ServeLocked (demo_chat 1 (Some [1]))\<rparr>"
  have r: "demo_serve_reach ?s" by (rule demo_locked[OF reach_demo_exit]) (simp add: demo_sys_def)
  have "demo_serve ?s (?s\<lparr>svMain := ServeRead, svHd := demo_hd [demo_chat 1 (Some [1])] StrExit, svWire := [],
      svStreams := svStreams ?s @ (case None :: nat option of None \<Rightarrow> [] | Some r \<Rightarrow> [(rpcId (demo_chat 1 (Some [1])), StrRun)]),
      svRouted := svRouted ?s @ routed (demo_chat 1 (Some [1])) (svHd ?s) None\<rparr>)"
    by (rule sv_process[where p = True and q = True and now = 0])
      (use demo_process_queue in \<open>simp_all add: demo_sys_def\<close>)
  from reach_step[OF r this] show ?thesis
    by (simp add: demo_sys_def demo_s0_eq routed_def demo_hd_def demo_chat_def is_reset_def)
qed

theorem serve_deadlock_witness:
  "stuck 0 (demo_chat 1 (Some [2])) ((demo_sys [demo_chat 1 (Some [1])] StrExit)\<lparr>svMain := ServeLocked (demo_chat 1 (Some [2]))\<rparr>)"
proof -
  let ?s = "(demo_sys [demo_chat 1 (Some [1])] StrExit)\<lparr>svMain := ServeLocked (demo_chat 1 (Some [2]))\<rparr>"
  have r: "demo_serve_reach ?s" by (rule demo_locked[OF reach_demo_queued]) (simp add: demo_sys_def)
  have "stuck 0 (demo_chat 1 (Some [2])) ?s" by (simp add: stuck_def demo_sys_def demo_hd_def demo_chat_def is_reset_def)
  from serve_deadlock[OF r this rtranclp.rtrancl_refl] show ?thesis
    by (simp add: demo_sys_def demo_hd_def Background_def ctx_done_def)
qed

text \<open>A request in the hands of the first worker.\<close>

definition demo_busy :: "(bytes, unit) serviceInfo \<Rightarrow> (bytes, unit, Rpc list) serve_sys" where
  "demo_busy si = demo_s0\<lparr>svWorkers := (replicate 8 WorkerIdle)[0 := WorkerBusy si demo_method (demo_request [])],
     svCalls := [demo_request []]\<rparr>"

lemma reach_demo_busy: "\<exists>si. demo_serve_reach (demo_busy si)"
proof -
  obtain si where u: "serve_dispatch demo_srv (demo_request []) = Unary si demo_method" using demo_dispatch(2) by blast
  let ?s1 = "demo_s0\<lparr>svMain := ServeUnary si demo_method (demo_request [])\<rparr>"
  have r1: "demo_serve_reach ?s1" by (rule reach_step[OF reach_demo_s0 sv_unary[OF _ u]]) simp
  have "demo_serve ?s1 (?s1\<lparr>svMain := ServeRead, svWorkers := (svWorkers ?s1)[0 := WorkerBusy si demo_method (demo_request [])],
      svCalls := svCalls ?s1 @ [demo_request []]\<rparr>)" by (rule sv_unary_send) simp_all
  from reach_step[OF r1 this] have "demo_serve_reach (demo_busy si)" by (simp add: demo_busy_def demo_s0_eq)
  then show ?thesis ..
qed

theorem serve_unary_once_witness:
  "\<exists>si. demo_serve_reach (demo_busy si) \<and>
     mset (map rpcId (svReplied (demo_busy si))) + mset (concat (map worker_ids (svWorkers (demo_busy si)))) = {#7#}"
proof -
  obtain si where r: "demo_serve_reach (demo_busy si)" using reach_demo_busy ..
  with serve_unary_once[OF r] show ?thesis by (auto simp: demo_busy_def demo_request_def)
qed

theorem serve_streams_witness:
  "of_conn 0 (svRouted (demo_sys [demo_chat 1 (Some [1])] StrExit)) = [demo_chat 1 (Some [1])] \<and>
   (\<exists>h'. unregisterStream 1 (demo_hd [demo_chat 1 (Some [1])] StrExit) = Ret h')"
  using serve_streams[OF reach_demo_queued] by (simp add: demo_sys_def)

theorem serve_wait_finishes_witness:
  "\<exists>t. demo_serve\<^sup>*\<^sup>* (serve_return 0 (Some (Wrap EOF ''read error'')) (demo_sys [] StrRun)) t \<and> svMain t = ServeReturned"
proof -
  let ?t = "serve_return (srvHandlers demo_srv) (Some (Wrap EOF ''read error'')) (demo_sys [] StrRun)"
  have "demo_serve (demo_sys [] StrRun) ?t" by (rule sv_read_err) (simp add: demo_sys_def)
  with reach_demo_run have r: "demo_serve_reach ?t" by (rule reach_step)
  have "svMain ?t = WaitLock" by (simp add: serve_return_def)
  with serve_wait_finishes[OF r] have "\<exists>t. demo_serve\<^sup>*\<^sup>* ?t t \<and> svMain t = ServeReturned" by blast
  moreover have "srvHandlers demo_srv = 0" by (simp add: demo_srv_def NewServer_def)
  ultimately show ?thesis by (simp only:)
qed

end
