(* ===== verification/Goat_Serve_Live.thy ===== *)
theory Goat_Serve_Live
  imports Goat_Fair Goat_Serve
begin

text \<open>
  Progress of a server connection: in every run that forgets no goroutine, a unary request the loop has read is
  eventually given to a worker, processed, and its response written, as long as the connection lives, the handlers
  return and the transport accepts what is written.
\<close>

section \<open>The steps of the goroutines\<close>

type_synonym ('m, 't, 'w) serve_rel = "('m, 't, 'w) serve_sys \<Rightarrow> ('m, 't, 'w) serve_sys \<Rightarrow> bool"

text \<open>The loop hands a request to a worker, a worker runs the method, a worker hands its response to the writer, the
  writer writes. The write channel serves its senders in order, which is strong fairness of \<open>worker_sends\<close>.\<close>

definition loop_hands :: "('m, 't, 'w) serve_rel \<Rightarrow> ('m, 't, 'w) serve_rel" where
  "loop_hands step s t \<longleftrightarrow> step s t \<and> (\<exists>si md rpc. svMain s = ServeUnary si md rpc) \<and> svMain t = ServeRead"

definition worker_runs :: "('m, 't, 'w) serve_rel \<Rightarrow> nat \<Rightarrow> ('m, 't, 'w) serve_rel" where
  "worker_runs step i s t \<longleftrightarrow> step s t \<and> i < length (svWorkers s) \<and>
     (\<exists>si md rpc. svWorkers s ! i = WorkerBusy si md rpc) \<and> (\<exists>resp. svWorkers t ! i = WorkerSend resp)"

definition worker_sends :: "('m, 't, 'w) serve_rel \<Rightarrow> nat \<Rightarrow> ('m, 't, 'w) serve_rel" where
  "worker_sends step i s t \<longleftrightarrow> step s t \<and> i < length (svWorkers s) \<and>
     (\<exists>resp. svWorkers s ! i = WorkerSend resp) \<and> svWorkers t ! i = WorkerIdle"

definition writer_writes :: "('m, 't, 'w) serve_rel \<Rightarrow> ('m, 't, 'w) serve_rel" where
  "writer_writes step s t \<longleftrightarrow> step s t \<and> (\<exists>rpc. svWriter s = WriterBusy rpc) \<and> svWriter t = WriterIdle"

text \<open>A connection that lives: its context has not ended, every method call in progress returns, and the transport takes what
  the writer has.\<close>

definition serve_lives ::
  "env \<Rightarrow> 'm codec \<Rightarrow> tagger \<Rightarrow> 'w rpc_write \<Rightarrow> ('m, 't) Server \<Rightarrow> ('m, 't, 'w) serve_sys \<Rightarrow> bool" where
  "serve_lives env cd tag wr srv s \<longleftrightarrow> \<not> ctx_done (hdCtx (svHd s)) \<and>
     (\<forall>i < length (svWorkers s). \<forall>si md rpc. svWorkers s ! i = WorkerBusy si md rpc \<longrightarrow>
        (\<exists>now x. processUnaryRpc env cd tag now srv (svClientCtx s) si md rpc = Ret x)) \<and>
     (\<forall>rpc. svWriter s = WriterBusy rpc \<longrightarrow> (\<exists>x. wr (hdCtx (svHd s)) rpc (svWire s) = Ret x))"

text \<open>\<open>resp\<close> is a response of the method to the request.\<close>

definition method_answers ::
  "env \<Rightarrow> 'm codec \<Rightarrow> tagger \<Rightarrow> ('m, 't) Server \<Rightarrow> ('m, 't) serviceInfo \<Rightarrow> 'm MethodDesc \<Rightarrow> Rpc \<Rightarrow> Rpc \<Rightarrow> bool" where
  "method_answers env cd tag srv si md rpc resp \<longleftrightarrow>
     (\<exists>now ctx tr. processUnaryRpc env cd tag now srv ctx si md rpc = Ret (resp, tr))"

section \<open>What a step keeps\<close>

lemma workers_length: "serve_step env cd tag wr srv s t \<Longrightarrow> length (svWorkers t) = length (svWorkers s)"
  by (cases rule: serve_step.cases) (auto simp: serve_return_def)

lemma worker_step:
  assumes "serve_step env cd tag wr srv s t" and i: "i < length (svWorkers s)" and "\<not> ctx_done (hdCtx (svHd s))"
  shows "svWorkers t ! i = svWorkers s ! i \<or>
    (\<exists>si md rpc. svWorkers s ! i = WorkerIdle \<and> svMain s = ServeUnary si md rpc \<and> svWorkers t ! i = WorkerBusy si md rpc) \<or>
    (\<exists>si md rpc resp. svWorkers s ! i = WorkerBusy si md rpc \<and> svWorkers t ! i = WorkerSend resp \<and>
       method_answers env cd tag srv si md rpc resp) \<or>
    (\<exists>resp. svWorkers s ! i = WorkerSend resp \<and> svWorkers t ! i = WorkerIdle \<and> svWriter t = WriterBusy resp)"
  using assms(1)
proof (cases rule: serve_step.cases)
  case (sv_unary_send si md rpc j)
  with i show ?thesis by (cases "j = i") auto
next
  case (sv_worker j si md rpc now resp tr)
  with i show ?thesis by (cases "j = i") (auto simp: method_answers_def)
next
  case (sv_worker_send j resp c)
  with i write_chan_send[OF sv_worker_send(4)] show ?thesis by (cases "j = i") auto
next
  case (sv_worker_gone j)
  with assms(3) show ?thesis by simp
qed (auto simp: serve_return_def)

lemma writer_step:
  assumes "serve_step env cd tag wr srv s t" and "\<not> ctx_done (hdCtx (svHd s))"
  shows "(svWriter s = WriterBusy rpc \<longrightarrow> svWriter t = WriterBusy rpc \<or> svWriter t = WriterIdle \<and> svWritten t = svWritten s @ [rpc]) \<and>
    (svWriter s \<noteq> WriterGone \<longrightarrow> svWriter t \<noteq> WriterGone)"
  using assms(1)
proof (cases rule: serve_step.cases)
  case (sv_worker_send j resp c)
  with write_chan_send[OF sv_worker_send(4)] show ?thesis by auto
next
  case (sv_str_write r pick ctx m err c)
  with write_chan_stream[OF sv_str_write(4)] show ?thesis by auto
qed (use assms(2) in \<open>auto simp: serve_return_def\<close>)

lemma loop_step:
  assumes "serve_step env cd tag wr srv s t" and "\<not> ctx_done (hdCtx (svHd s))" and "svMain s = ServeUnary si md rpc"
  shows "svMain t = ServeUnary si md rpc \<or> svMain t = ServeRead \<and> (\<exists>i < length (svWorkers t). svWorkers t ! i = WorkerBusy si md rpc)"
  using assms(1)
proof (cases rule: serve_step.cases)
  case (sv_unary_send si' md' rpc' i)
  with assms(3) show ?thesis by (auto intro!: exI[of _ i])
qed (use assms(2,3) in \<open>auto simp: serve_return_def\<close>)

section \<open>Fair runs\<close>

text \<open>Between the steps of the connection the peer may do anything to the transport.\<close>

definition serve_or_peer ::
  "env \<Rightarrow> 'm codec \<Rightarrow> tagger \<Rightarrow> 'w rpc_write \<Rightarrow> ('m, 't) Server \<Rightarrow> ('m, 't, 'w) serve_rel" where
  "serve_or_peer env cd tag wr srv s t \<longleftrightarrow> serve_step env cd tag wr srv s t \<or> (\<exists>w. t = s\<lparr>svWire := w\<rparr>)"

definition serve_fair_run ::
  "env \<Rightarrow> 'm codec \<Rightarrow> tagger \<Rightarrow> 'w rpc_write \<Rightarrow> ('m, 't) Server \<Rightarrow> (nat \<Rightarrow> ('m, 't, 'w) serve_sys) \<Rightarrow> bool" where
  "serve_fair_run env cd tag wr srv \<sigma> \<longleftrightarrow>
     (let step = serve_step env cd tag wr srv
      in serve_init srv (\<sigma> 0) \<and> run (serve_or_peer env cd tag wr srv) \<sigma> \<and> (\<forall>j. serve_lives env cd tag wr srv (\<sigma> j)) \<and>
         weakly_fair (loop_hands step) \<sigma> \<and> weakly_fair (writer_writes step) \<sigma> \<and>
         (\<forall>i. weakly_fair (worker_runs step i) \<sigma> \<and> strongly_fair (worker_sends step i) \<sigma>))"

text \<open>The next state of a fair run, seen by a worker, the writer and the loop.\<close>

lemma fair_run_next:
  assumes "serve_fair_run env cd tag wr srv \<sigma>"
  shows "(\<exists>w. \<sigma> (Suc j) = (\<sigma> j)\<lparr>svWire := w\<rparr>) \<or> serve_step env cd tag wr srv (\<sigma> j) (\<sigma> (Suc j))"
    and "\<not> ctx_done (hdCtx (svHd (\<sigma> j)))"
proof -
  have "\<sigma> (Suc j) = (\<sigma> j)\<lparr>svWire := svWire (\<sigma> j)\<rparr> \<or> serve_or_peer env cd tag wr srv (\<sigma> j) (\<sigma> (Suc j))"
    using assms by (simp add: serve_fair_run_def Let_def run_def)
  then show "(\<exists>w. \<sigma> (Suc j) = (\<sigma> j)\<lparr>svWire := w\<rparr>) \<or> serve_step env cd tag wr srv (\<sigma> j) (\<sigma> (Suc j))"
    unfolding serve_or_peer_def by blast
  show "\<not> ctx_done (hdCtx (svHd (\<sigma> j)))" using assms by (simp add: serve_fair_run_def Let_def serve_lives_def)
qed

lemma fair_run_workers:
  assumes "serve_fair_run env cd tag wr srv \<sigma>"
  shows "length (svWorkers (\<sigma> j)) = numRpcWorkers" and "svWriter (\<sigma> j) \<noteq> WriterGone"
proof (induction j)
  case 0
  { case 1 show ?case using assms by (auto simp: serve_fair_run_def Let_def serve_init_def)
  next case 2 show ?case using assms by (auto simp: serve_fair_run_def Let_def serve_init_def) }
next
  case (Suc j)
  { case 1 show ?case using fair_run_next(1)[OF assms, of j] Suc(1) by (auto dest: workers_length)
  next case 2 show ?case using fair_run_next[OF assms, of j] Suc(2) writer_step[of env cd tag wr srv "\<sigma> j" "\<sigma> (Suc j)"] by auto }
qed

lemma busy_leads:
  assumes r: "serve_fair_run env cd tag wr srv \<sigma>" and i: "i < numRpcWorkers"
  shows "leads_to \<sigma> (\<lambda>s. svWorkers s ! i = WorkerBusy si md rpc)
    (\<lambda>s. \<exists>resp. svWorkers s ! i = WorkerSend resp \<and> method_answers env cd tag srv si md rpc resp)"
proof (rule wf_leads_to[where act = "worker_runs (serve_step env cd tag wr srv) i"])
  show "weakly_fair (worker_runs (serve_step env cd tag wr srv) i) \<sigma>" using r by (simp add: serve_fair_run_def Let_def)
  fix j assume b: "svWorkers (\<sigma> j) ! i = WorkerBusy si md rpc"
  have len: "i < length (svWorkers (\<sigma> j))" using fair_run_workers[OF r] i by simp
  have *: "svWorkers (\<sigma> (Suc j)) ! i = WorkerBusy si md rpc \<or>
      (\<exists>resp. svWorkers (\<sigma> (Suc j)) ! i = WorkerSend resp \<and> method_answers env cd tag srv si md rpc resp)"
    using fair_run_next[OF r, of j] worker_step[OF _ len, of env cd tag wr srv "\<sigma> (Suc j)"] b by auto
  then show "svWorkers (\<sigma> (Suc j)) ! i = WorkerBusy si md rpc \<or>
      (\<exists>resp. svWorkers (\<sigma> (Suc j)) ! i = WorkerSend resp \<and> method_answers env cd tag srv si md rpc resp)" .
  show "\<exists>resp. svWorkers (\<sigma> (Suc j)) ! i = WorkerSend resp \<and> method_answers env cd tag srv si md rpc resp"
    if "worker_runs (serve_step env cd tag wr srv) i (\<sigma> j) (\<sigma> (Suc j))"
    using that * by (auto simp: worker_runs_def)
  obtain now resp tr where "processUnaryRpc env cd tag now srv (svClientCtx (\<sigma> j)) si md rpc = Ret (resp, tr)"
    using r b len by (fastforce simp: serve_fair_run_def Let_def serve_lives_def)
  from sv_worker[OF len b this, of wr] len b show "enabled (worker_runs (serve_step env cd tag wr srv) i) (\<sigma> j)"
    unfolding enabled_def worker_runs_def by fastforce
qed

lemma writer_leads:
  assumes r: "serve_fair_run env cd tag wr srv \<sigma>"
  shows "leads_to \<sigma> (\<lambda>s. svWriter s = WriterBusy rpc) (\<lambda>s. svWriter s = WriterIdle \<and> rpc \<in> set (svWritten s))"
proof (rule wf_leads_to[where act = "writer_writes (serve_step env cd tag wr srv)"])
  show "weakly_fair (writer_writes (serve_step env cd tag wr srv)) \<sigma>" using r by (simp add: serve_fair_run_def Let_def)
  fix j assume b: "svWriter (\<sigma> j) = WriterBusy rpc"
  have *: "svWriter (\<sigma> (Suc j)) = WriterBusy rpc \<or> svWriter (\<sigma> (Suc j)) = WriterIdle \<and> rpc \<in> set (svWritten (\<sigma> (Suc j)))"
    using fair_run_next[OF r, of j] writer_step[of env cd tag wr srv "\<sigma> j" "\<sigma> (Suc j)" rpc] b by auto
  then show "svWriter (\<sigma> (Suc j)) = WriterBusy rpc \<or> svWriter (\<sigma> (Suc j)) = WriterIdle \<and> rpc \<in> set (svWritten (\<sigma> (Suc j)))" .
  show "svWriter (\<sigma> (Suc j)) = WriterIdle \<and> rpc \<in> set (svWritten (\<sigma> (Suc j)))"
    if "writer_writes (serve_step env cd tag wr srv) (\<sigma> j) (\<sigma> (Suc j))"
    using that * by (auto simp: writer_writes_def)
  obtain err w' where "wr (hdCtx (svHd (\<sigma> j))) rpc (svWire (\<sigma> j)) = Ret (err, w')"
    using r b by (fastforce simp: serve_fair_run_def Let_def serve_lives_def)
  from sv_write[where wr = wr, OF b this, of env cd tag srv] b show "enabled (writer_writes (serve_step env cd tag wr srv)) (\<sigma> j)"
    unfolding enabled_def writer_writes_def by fastforce
qed

lemma writer_idle_leads:
  assumes r: "serve_fair_run env cd tag wr srv \<sigma>"
  shows "leads_to \<sigma> (\<lambda>s. True) (\<lambda>s. svWriter s = WriterIdle)"
proof (rule leads_toI)
  fix j
  show "\<exists>k\<ge>j. svWriter (\<sigma> k) = WriterIdle"
  proof (cases "svWriter (\<sigma> j)")
    case (WriterBusy rpc)
    with leads_toD[OF writer_leads[OF r, of rpc], of j] show ?thesis by blast
  qed (use fair_run_workers(2)[OF r, of j] in auto)
qed

lemma send_leads:
  assumes r: "serve_fair_run env cd tag wr srv \<sigma>" and i: "i < numRpcWorkers"
  shows "leads_to \<sigma> (\<lambda>s. svWorkers s ! i = WorkerSend resp) (\<lambda>s. svWorkers s ! i = WorkerIdle \<and> svWriter s = WriterBusy resp)"
proof (rule sf_leads_to[where act = "worker_sends (serve_step env cd tag wr srv) i"])
  show "strongly_fair (worker_sends (serve_step env cd tag wr srv) i) \<sigma>" using r by (simp add: serve_fair_run_def Let_def)
  have len: "i < length (svWorkers (\<sigma> j))" for j using fair_run_workers[OF r] i by simp
  have *: "svWorkers (\<sigma> (Suc j)) ! i = WorkerSend resp \<or> svWorkers (\<sigma> (Suc j)) ! i = WorkerIdle \<and> svWriter (\<sigma> (Suc j)) = WriterBusy resp"
    if "svWorkers (\<sigma> j) ! i = WorkerSend resp" for j
    using fair_run_next[OF r, of j] worker_step[OF _ len, of env cd tag wr srv j "\<sigma> (Suc j)"] that by auto
  then show "svWorkers (\<sigma> (Suc j)) ! i = WorkerSend resp \<or> svWorkers (\<sigma> (Suc j)) ! i = WorkerIdle \<and> svWriter (\<sigma> (Suc j)) = WriterBusy resp"
    if "svWorkers (\<sigma> j) ! i = WorkerSend resp" for j using that by blast
  show "svWorkers (\<sigma> (Suc j)) ! i = WorkerIdle \<and> svWriter (\<sigma> (Suc j)) = WriterBusy resp"
    if "svWorkers (\<sigma> j) ! i = WorkerSend resp" "worker_sends (serve_step env cd tag wr srv) i (\<sigma> j) (\<sigma> (Suc j))" for j
    using that *[of j] by (auto simp: worker_sends_def)
  have en: "enabled (worker_sends (serve_step env cd tag wr srv) i) (\<sigma> j)"
    if w: "svWorkers (\<sigma> j) ! i = WorkerSend resp" and idle: "svWriter (\<sigma> j) = WriterIdle" for j
  proof -
    obtain c where "chan_send (write_chan (svWriter (\<sigma> j))) resp = Ret c"
      using idle by (simp add: write_chan_def chan_send_def)
    from sv_worker_send[OF len w this, of env cd tag wr srv] len[of j] w show ?thesis
      unfolding enabled_def worker_sends_def by fastforce
  qed
  have "leads_to \<sigma> (\<lambda>s. svWorkers s ! i = WorkerSend resp \<and> True)
      (\<lambda>s. (svWorkers s ! i = WorkerIdle \<and> svWriter s = WriterBusy resp) \<or> svWorkers s ! i = WorkerSend resp \<and> svWriter s = WriterIdle)"
    by (rule leads_to_unless[OF _ writer_idle_leads[OF r]]) (use * in blast)
  with en show "leads_to \<sigma> (\<lambda>s. svWorkers s ! i = WorkerSend resp)
      (\<lambda>s. (svWorkers s ! i = WorkerIdle \<and> svWriter s = WriterBusy resp) \<or> enabled (worker_sends (serve_step env cd tag wr srv) i) s)"
    unfolding leads_to_def by (metis (no_types, lifting))
qed

lemma worker_leads:
  assumes r: "serve_fair_run env cd tag wr srv \<sigma>" and i: "i < numRpcWorkers" and b: "svWorkers (\<sigma> k) ! i = WorkerBusy si md rpc"
  shows "\<exists>j\<ge>k. svWorkers (\<sigma> j) ! i = WorkerIdle \<and>
    (\<exists>resp. svWriter (\<sigma> j) = WriterBusy resp \<and> method_answers env cd tag srv si md rpc resp)"
proof -
  obtain j resp where j: "k \<le> j" "svWorkers (\<sigma> j) ! i = WorkerSend resp" "method_answers env cd tag srv si md rpc resp"
    using leads_toD[OF busy_leads[OF r i], of k si md rpc] b by blast
  with leads_toD[OF send_leads[OF r i], of j resp] show ?thesis by (meson order_trans)
qed

lemma first_worker_idle:
  assumes r: "serve_fair_run env cd tag wr srv \<sigma>"
  shows "leads_to \<sigma> (\<lambda>s. True) (\<lambda>s. svWorkers s ! 0 = WorkerIdle)"
proof (rule leads_toI)
  fix j
  have n: "0 < numRpcWorkers" by (simp add: numRpcWorkers_def)
  have gone: "svWorkers (\<sigma> j) ! 0 \<noteq> WorkerGone"
  proof (induction j)
    case 0
    show ?case using r n by (auto simp: serve_fair_run_def Let_def serve_init_def)
  next
    case (Suc j)
    have len: "0 < length (svWorkers (\<sigma> j))" using fair_run_workers[OF r] n by simp
    from fair_run_next[OF r, of j] worker_step[OF _ len, of env cd tag wr srv "\<sigma> (Suc j)"] Suc show ?case by auto
  qed
  show "\<exists>k\<ge>j. svWorkers (\<sigma> k) ! 0 = WorkerIdle"
  proof (cases "svWorkers (\<sigma> j) ! 0")
    case (WorkerBusy si md rpc)
    with worker_leads[OF r n, of j] show ?thesis by blast
  next
    case (WorkerSend resp)
    with leads_toD[OF send_leads[OF r n], of j resp] show ?thesis by blast
  qed (use gone in auto)
qed

text \<open>The loop finds a worker.\<close>

lemma loop_leads:
  assumes r: "serve_fair_run env cd tag wr srv \<sigma>"
  shows "leads_to \<sigma> (\<lambda>s. svMain s = ServeUnary si md rpc) (\<lambda>s. \<exists>i < numRpcWorkers. svWorkers s ! i = WorkerBusy si md rpc)"
proof -
  let ?P = "\<lambda>s. svMain s = ServeUnary si md rpc" and ?Q = "\<lambda>s. \<exists>i < numRpcWorkers. svWorkers s ! i = WorkerBusy si md rpc"
  let ?idle = "\<lambda>s. svWorkers s ! 0 = WorkerIdle"
  have keep: "?P (\<sigma> (Suc j)) \<or> svMain (\<sigma> (Suc j)) = ServeRead \<and> ?Q (\<sigma> (Suc j))" if "?P (\<sigma> j)" for j
    using fair_run_next[OF r, of j] loop_step[of env cd tag wr srv "\<sigma> j" "\<sigma> (Suc j)"] that
      fair_run_workers(1)[OF r, of "Suc j"] by auto
  have "leads_to \<sigma> (\<lambda>s. ?P s \<and> True) (\<lambda>s. ?Q s \<or> ?P s \<and> ?idle s)"
    by (rule leads_to_unless[OF _ first_worker_idle[OF r]]) (use keep in blast)
  then have "leads_to \<sigma> ?P (\<lambda>s. ?Q s \<or> ?P s \<and> ?idle s)" by (simp only: simp_thms)
  moreover have "leads_to \<sigma> (\<lambda>s. ?P s \<and> ?idle s) ?Q"
  proof (rule wf_leads_to[where act = "loop_hands (serve_step env cd tag wr srv)"])
    show "weakly_fair (loop_hands (serve_step env cd tag wr srv)) \<sigma>" using r by (simp add: serve_fair_run_def Let_def)
    fix j assume p: "?P (\<sigma> j) \<and> ?idle (\<sigma> j)"
    have len: "0 < length (svWorkers (\<sigma> j))" using fair_run_workers[OF r] by (simp add: numRpcWorkers_def)
    have "?idle (\<sigma> (Suc j)) \<or> ?Q (\<sigma> (Suc j))"
      using fair_run_next[OF r, of j] worker_step[OF _ len, of env cd tag wr srv "\<sigma> (Suc j)"] p
      by (auto simp: numRpcWorkers_def)
    with keep[of j] p show "(?P (\<sigma> (Suc j)) \<and> ?idle (\<sigma> (Suc j))) \<or> ?Q (\<sigma> (Suc j))" by blast
    show "?Q (\<sigma> (Suc j))" if "loop_hands (serve_step env cd tag wr srv) (\<sigma> j) (\<sigma> (Suc j))"
      using that keep[of j] p by (auto simp: loop_hands_def)
    from p have m: "svMain (\<sigma> j) = ServeUnary si md rpc" and w: "svWorkers (\<sigma> j) ! 0 = WorkerIdle" by simp_all
    from sv_unary_send[OF m len w, of env cd tag wr srv] m
    show "enabled (loop_hands (serve_step env cd tag wr srv)) (\<sigma> j)"
      unfolding enabled_def loop_hands_def by fastforce
  qed
  ultimately show ?thesis by (rule leads_to_then)
qed

section \<open>Properties\<close>

text \<open>C22: In every fair run of a connection that lives, whatever the peer does to the transport, a unary request the loop has read is eventually answered: a
  worker gets it, runs the method, and the response is written to the transport.\<close>

theorem serve_eventually_answers:
  assumes "serve_fair_run env cd tag wr srv \<sigma>" and "svMain (\<sigma> k) = ServeUnary si md rpc"
  shows "\<exists>j\<ge>k. \<exists>resp \<in> set (svWritten (\<sigma> j)). method_answers env cd tag srv si md rpc resp"
proof -
  obtain j i where j: "k \<le> j" "i < numRpcWorkers" "svWorkers (\<sigma> j) ! i = WorkerBusy si md rpc"
    using leads_toD[OF loop_leads[OF assms(1)], of k si md rpc] assms(2) by blast
  then obtain l resp where l: "j \<le> l" "svWriter (\<sigma> l) = WriterBusy resp" and a: "method_answers env cd tag srv si md rpc resp"
    using worker_leads[OF assms(1)] by blast
  then obtain n where "l \<le> n" "resp \<in> set (svWritten (\<sigma> n))"
    using leads_toD[OF writer_leads[OF assms(1)], of l resp] by blast
  with a j l show ?thesis by (meson order_trans)
qed

section \<open>An example\<close>

text \<open>One request, one answer, then nothing more arrives.\<close>

abbreviation "demo_tag \<equiv> (\<lambda>(i :: nat) (m :: string) (ctx :: Context). ctx)"

lemma demo_process:
  "\<exists>resp tr. processUnaryRpc sample_env sample_codec demo_tag now demo_srv ctx si demo_method (demo_request []) = Ret (resp, tr)"
  by (simp add: processUnaryRpc_def demo_request_def demo_method_def contextFromHeaders_def Let_def
      split: prod.split sum.split)

definition demo_answer :: "(bytes, unit) serviceInfo \<Rightarrow> Rpc \<Rightarrow> trace \<Rightarrow> (bytes, unit, Rpc list) serve_sys list" where
  "demo_answer si resp tr =
     (let req = demo_request [];
          sent = demo_s0\<lparr>svTrace := tr, svCalls := [req], svQueued := [resp], svReplied := [resp]\<rparr>
      in [demo_s0, demo_s0\<lparr>svMain := ServeUnary si demo_method req\<rparr>, demo_busy si,
          (demo_busy si)\<lparr>svWorkers := (replicate 8 WorkerIdle)[0 := WorkerSend resp], svTrace := tr\<rparr>,
          sent\<lparr>svWriter := WriterBusy resp\<rparr>, sent\<lparr>svWire := [resp], svWritten := [resp]\<rparr>])"

lemma demo_answer_steps:
  assumes "serve_dispatch demo_srv (demo_request []) = Unary si demo_method"
    and "processUnaryRpc sample_env sample_codec demo_tag 0 demo_srv Background si demo_method (demo_request []) = Ret (resp, tr)"
  shows "steps demo_serve (demo_answer si resp tr)"
proof -
  let ?s1 = "demo_s0\<lparr>svMain := ServeUnary si demo_method (demo_request [])\<rparr>"
  let ?s3 = "(demo_busy si)\<lparr>svWorkers := (replicate 8 WorkerIdle)[0 := WorkerSend resp], svTrace := tr\<rparr>"
  let ?s4 = "demo_s0\<lparr>svTrace := tr, svCalls := [demo_request []], svQueued := [resp], svReplied := [resp], svWriter := WriterBusy resp\<rparr>"
  have idle: "(replicate 8 WorkerIdle)[0 := WorkerIdle] = replicate 8 WorkerIdle" by (simp add: list_eq_iff_nth_eq nth_list_update)
  have "demo_serve demo_s0 ?s1" by (rule sv_unary[OF _ assms(1)]) simp
  moreover have "demo_serve ?s1 (demo_busy si)"
    using sv_unary_send[of ?s1 si demo_method "demo_request []" 0 sample_env sample_codec demo_tag demo_wire demo_srv]
    by (simp add: demo_busy_def demo_s0_eq)
  moreover have "demo_serve (demo_busy si) ?s3"
    using sv_worker[of 0 "demo_busy si" si demo_method "demo_request []" sample_env sample_codec demo_tag 0 demo_srv resp tr demo_wire] assms(2)
    by (simp add: demo_busy_def demo_s0_eq)
  moreover have "demo_serve ?s3 ?s4"
    using sv_worker_send[of 0 ?s3 resp "(make_chan 0)\<lparr>waiting := 1, buf := [resp]\<rparr>" sample_env sample_codec demo_tag demo_wire demo_srv]
    by (simp add: demo_busy_def demo_s0_eq write_chan_def chan_send_def writer_after_def make_chan_def idle)
  moreover have "demo_serve ?s4 (?s4\<lparr>svWriter := WriterIdle, svWire := [resp], svWritten := [resp]\<rparr>)"
    using sv_write[of ?s4 resp demo_wire None "[resp]" sample_env sample_codec demo_tag demo_srv]
    by (simp add: demo_s0_eq demo_wire_def)
  ultimately show ?thesis by (simp add: demo_answer_def Let_def demo_s0_eq)
qed

text \<open>The last state is at rest, and the connection lives throughout.\<close>

lemma demo_answer_rest:
  fixes si resp tr
  defines "s \<equiv> last (demo_answer si resp tr)"
  shows "\<not> enabled (loop_hands demo_serve) s" "\<not> enabled (writer_writes demo_serve) s"
    "\<not> enabled (worker_runs demo_serve i) s" "\<not> enabled (worker_sends demo_serve i) s"
  unfolding s_def demo_answer_def
  by (auto simp: enabled_def loop_hands_def writer_writes_def worker_runs_def worker_sends_def Let_def)

lemma demo_answer_lives:
  assumes "x \<in> set (demo_answer si resp tr)"
  shows "serve_lives sample_env sample_codec demo_tag demo_wire demo_srv x"
proof -
  have "svWorkers x ! i = WorkerBusy si' md rpc \<Longrightarrow> i < length (svWorkers x) \<Longrightarrow> md = demo_method \<and> rpc = demo_request []" for i si' md rpc
    using assms by (cases "i = 0") (auto simp: demo_answer_def Let_def demo_busy_def)
  moreover have "\<not> ctx_done (hdCtx (svHd x))"
    using assms by (auto simp: demo_answer_def Let_def demo_busy_def newHandler_def demo_srv_def NewServer_def ctx_done_def Background_def)
  ultimately show ?thesis using demo_process unfolding serve_lives_def by (metis (no_types) demo_wire_def)
qed

theorem serve_eventually_answers_witness:
  "\<exists>\<sigma> si. serve_fair_run sample_env sample_codec demo_tag demo_wire demo_srv \<sigma> \<and>
     svMain (\<sigma> 1) = ServeUnary si demo_method (demo_request []) \<and>
     (\<exists>j\<ge>1. \<exists>resp \<in> set (svWritten (\<sigma> j)). method_answers sample_env sample_codec demo_tag demo_srv si demo_method (demo_request []) resp)"
proof -
  obtain si where d: "serve_dispatch demo_srv (demo_request []) = Unary si demo_method" using demo_dispatch(2) by blast
  obtain resp tr where p: "processUnaryRpc sample_env sample_codec demo_tag 0 demo_srv Background si demo_method (demo_request []) = Ret (resp, tr)"
    using demo_process by blast
  let ?ss = "demo_answer si resp tr"
  have ne: "?ss \<noteq> []" by (simp add: demo_answer_def Let_def)
  have "serve_init demo_srv (stops ?ss 0)" by (auto simp: stops_def demo_answer_def Let_def serve_init_def demo_s0_def)
  moreover have "serve_lives sample_env sample_codec demo_tag demo_wire demo_srv (stops ?ss j)" for j
    by (rule stops_all[OF ne]) (rule demo_answer_lives)
  moreover have "run (serve_or_peer sample_env sample_codec demo_tag demo_wire demo_srv) (stops ?ss)"
    using steps_run[OF demo_answer_steps[OF d p] ne] unfolding run_def serve_or_peer_def by blast
  moreover note stops_fair[OF ne demo_answer_rest(1)] stops_fair[OF ne demo_answer_rest(2)]
    stops_fair[OF ne demo_answer_rest(3)] stops_fair[OF ne demo_answer_rest(4)]
  ultimately have r: "serve_fair_run sample_env sample_codec demo_tag demo_wire demo_srv (stops ?ss)"
    unfolding serve_fair_run_def Let_def by blast
  have m: "svMain (stops ?ss 1) = ServeUnary si demo_method (demo_request [])" by (simp add: stops_def demo_answer_def Let_def)
  from serve_eventually_answers[OF r m] r m show ?thesis by blast
qed

end
