(* ===== verification/Goat_System.thy ===== *)
theory Goat_System
  imports Goat_Mux Goat_Serve
begin

text \<open>
  A client and a server connection joined by a pair of channels: \<^verbatim>\<open>NewGoatOverChannel\<close> at both ends
  (\<^verbatim>\<open>channel.go\<close>), with the client's goroutines of \<^verbatim>\<open>Goat_Mux\<close> on one side and those of the server's
  connection of \<^verbatim>\<open>Goat_Serve\<close> on the other. What either side reads is what the other wrote, so the
  laws of the two systems compose: a unary call receives at most one response, computed by the server's
  method from the call's own request, and the messages of a stream arrive in order in both directions.
\<close>

section \<open>The joined system\<close>

text \<open>The transport of the server is part of its state; the client uses the same two channels the other way
  round.\<close>

definition peer_end :: "chan_rw \<Rightarrow> chan_rw" where
  "peer_end w = NewGoatOverChannel (outQ w) (inQ w)"

lemma peer_end_simps [simp]:
  "inQ (peer_end w) = outQ w" "outQ (peer_end w) = inQ w" "peer_end (peer_end w) = w"
  by (simp_all add: peer_end_def NewGoatOverChannel_def)

text \<open>The records: what the client wrote, what the server's loop read, what the server wrote, what the
  client's read loop read.\<close>

record ('m, 't) goat_sys =
  gsMux :: mux_sys
  gsSrv :: "('m, 't, chan_rw) serve_sys"
  gsSent :: "Rpc list"
  gsRead :: "Rpc list"
  gsBack :: "Rpc list"
  gsSeen :: "Rpc list"

definition goat_init :: "('m, 't) Server \<Rightarrow> ('m, 't) goat_sys \<Rightarrow> bool" where
  "goat_init srv s \<longleftrightarrow>
     mux_init (gsMux s) \<and>
     (\<exists>tagConn ctx n k. gsSrv s = serve_start tagConn srv ctx (NewGoatOverChannel (make_chan n) (make_chan k))) \<and>
     gsSent s = [] \<and> gsRead s = [] \<and> gsBack s = [] \<and> gsSeen s = []"

text \<open>The message \<open>CallUnaryMethod\<close> writes.\<close>

definition call_request :: "u64 \<Rightarrow> RequestHeader \<Rightarrow> Body \<Rightarrow> Rpc" where
  "call_request sid h b =
     \<lparr>rpcId = sid, rpcHeader = Some h, rpcStatus = None, rpcBody = Some b, rpcTrailer = None, rpcReset = None\<rparr>"

text \<open>Steps of the client that do not touch the transport: all but the read of a message and the write of a unary
  request. Steps of the server that read nothing; a stream's goroutine writes under its stream's id, as
  every message of a \<open>serverStream\<close> does.\<close>

definition mux_local :: "mux_sys \<Rightarrow> mux_sys \<Rightarrow> bool" where
  "mux_local m m' \<longleftrightarrow>
     \<not> (\<exists>rpc. reader m = RRead \<and> reader m' = RGot rpc) \<and>
     \<not> (\<exists>i. at_pc m i PWrite \<and> cUnary (calls m ! i) \<and> at_pc m' i PWait)"

definition serve_local :: "('m, 't, 'w) serve_sys \<Rightarrow> ('m, 't, 'w) serve_sys \<Rightarrow> bool" where
  "serve_local s t \<longleftrightarrow>
     (svMain s = ServeRead \<longrightarrow> svMain t \<in> {ServeRead, WaitLock}) \<and>
     (\<forall>x. svQueued t = svQueued s @ [x] \<and> svReplied t = svReplied s \<longrightarrow>
        (\<exists>r < length (svStreams s). svStreams s ! r = (rpcId x, StrRun)))"

text \<open>What the server's loop does with a message it has read.\<close>

definition serve_read :: "('m, 't) Server \<Rightarrow> Rpc \<Rightarrow> ('m, 't) main_pc" where
  "serve_read srv rpc =
     (case serve_dispatch srv rpc of
        Ignore \<Rightarrow> ServeRead
      | Unary si md \<Rightarrow> ServeUnary si md rpc
      | Stream si sd \<Rightarrow> ServeStream rpc)"

abbreviation gs_wire :: "('m, 't) goat_sys \<Rightarrow> chan_rw" where
  "gs_wire s \<equiv> svWire (gsSrv s)"

abbreviation set_wire :: "chan_rw \<Rightarrow> ('m, 't) goat_sys \<Rightarrow> ('m, 't) goat_sys" where
  "set_wire w s \<equiv> s\<lparr>gsSrv := (gsSrv s)\<lparr>svWire := w\<rparr>\<rparr>"

inductive goat_step ::
  "env \<Rightarrow> 'm codec \<Rightarrow> tagger \<Rightarrow> ('m, 't) Server \<Rightarrow> nat \<Rightarrow> RequestHeader \<Rightarrow>
   ('m, 't) goat_sys \<Rightarrow> ('m, 't) goat_sys \<Rightarrow> bool"
  for env cd tag srv n header where
  gs_client: "mux_step env n header (gsMux s) m \<Longrightarrow> mux_local (gsMux s) m \<Longrightarrow>
    goat_step env cd tag srv n header s (s\<lparr>gsMux := m\<rparr>)"
| gs_client_read: "reader (gsMux s) = RRead \<Longrightarrow>
    goc_read pick ctx (peer_end (gs_wire s)) = Ret (Inr rpc, w) \<Longrightarrow>
    goat_step env cd tag srv n header s
      (set_wire (peer_end w) (s\<lparr>gsMux := (gsMux s)\<lparr>reader := RGot rpc\<rparr>, gsSeen := gsSeen s @ [rpc]\<rparr>))"
| gs_call_write: "at_pc (gsMux s) i PWrite \<Longrightarrow> cUnary (calls (gsMux s) ! i) \<Longrightarrow>
    rpc = call_request (cId (calls (gsMux s) ! i)) h b \<Longrightarrow>
    goc_write pick ctx rpc (peer_end (gs_wire s)) = Ret (None, w) \<Longrightarrow>
    goat_step env cd tag srv n header s
      (set_wire (peer_end w) (s\<lparr>gsMux := upd_call i (\<lambda>k. k\<lparr>cPc := PWait\<rparr>) (gsMux s), gsSent := gsSent s @ [rpc]\<rparr>))"
| gs_stream_write: "i < length (calls (gsMux s)) \<Longrightarrow> cPc (calls (gsMux s) ! i) \<in> {PWait, PUnregister, PDone} \<Longrightarrow>
    \<not> cUnary (calls (gsMux s) ! i) \<Longrightarrow> cRef (calls (gsMux s) ! i) \<noteq> None \<Longrightarrow> rpcId rpc = cId (calls (gsMux s) ! i) \<Longrightarrow>
    stream_write (goc_write pick) ctx rpc (rm (gsMux s)) (peer_end (gs_wire s)) = Ret (None, w) \<Longrightarrow>
    goat_step env cd tag srv n header s (set_wire (peer_end w) (s\<lparr>gsSent := gsSent s @ [rpc]\<rparr>))"
| gs_server: "serve_step env cd tag (goc_write pick) srv (gsSrv s) v \<Longrightarrow> serve_local (gsSrv s) v \<Longrightarrow>
    goat_step env cd tag srv n header s
      (s\<lparr>gsSrv := v, gsBack := gsBack s @ drop (length (buf (outQ (gs_wire s)))) (buf (outQ (svWire v)))\<rparr>)"
| gs_server_read: "svMain (gsSrv s) = ServeRead \<Longrightarrow>
    goc_read pick (hdCtx (svHd (gsSrv s))) (gs_wire s) = Ret (Inr rpc, w) \<Longrightarrow>
    goat_step env cd tag srv n header s
      (s\<lparr>gsSrv := (gsSrv s)\<lparr>svWire := w, svMain := serve_read srv rpc\<rparr>, gsRead := gsRead s @ [rpc]\<rparr>)"

section \<open>Projections\<close>

text \<open>The client of the joined system runs the multiplexer's steps, so everything shown of those holds here.\<close>

lemma goat_mux_step:
  assumes "goat_step env cd tag srv n header s t"
  shows "gsMux t = gsMux s \<or> mux_step env n header (gsMux s) (gsMux t)"
  using assms
proof (cases rule: goat_step.cases)
  case (gs_client_read pick ctx rpc w)
  with mux_step.read[of "gsMux s" env n header rpc] show ?thesis by simp
next
  case (gs_call_write i rpc h b pick ctx w)
  with mux_step.write_ok[of "gsMux s" i env n header] show ?thesis by simp
qed simp_all

interpretation gmx: refinement_map "goat_init srv" "goat_step env cd tag srv n header" mux_init "mux_step env n header" gsMux
  for env cd tag srv n header
  by unfold_locales (auto simp: goat_init_def dest: goat_mux_step)

lemmas reach_goat_mux = gmx.reach_abs

text \<open>The server's steps, up to what the client does to the transport.\<close>

lemma serve_read_step:
  assumes "svMain s = ServeRead"
  shows "serve_step env cd tag wr srv s (s\<lparr>svMain := serve_read srv rpc\<rparr>)"
proof (cases "serve_dispatch srv rpc")
  case Ignore
  moreover have "s\<lparr>svMain := ServeRead\<rparr> = s" using assms by (cases s) simp
  ultimately show ?thesis using sv_ignore[OF assms Ignore] by (simp add: serve_read_def)
next
  case (Unary si md)
  with sv_unary[OF assms Unary] show ?thesis by (simp add: serve_read_def)
next
  case (Stream si sd)
  with sv_stream[OF assms Stream] show ?thesis by (simp add: serve_read_def)
qed

lemma goat_serve_step:
  assumes "goat_step env cd tag srv n header s t"
  obtains (wire) w where "gsSrv t = (gsSrv s)\<lparr>svWire := w\<rparr>"
  | (step) pick w where "serve_step env cd tag (goc_write pick) srv ((gsSrv s)\<lparr>svWire := w\<rparr>) (gsSrv t)"
  using assms
proof (cases rule: goat_step.cases)
  case (gs_client m)
  with wire[of "gs_wire s"] show ?thesis by simp
next
  case (gs_server pick v)
  with step[of pick "gs_wire s"] show ?thesis by simp
next
  case (gs_server_read pick rpc w)
  have "serve_step env cd tag (goc_write pick) srv ((gsSrv s)\<lparr>svWire := w\<rparr>) ((gsSrv s)\<lparr>svWire := w, svMain := serve_read srv rpc\<rparr>)"
    using serve_read_step[of "(gsSrv s)\<lparr>svWire := w\<rparr>" env cd tag "goc_write pick" srv rpc] gs_server_read(2) by simp
  with step[of pick w] gs_server_read show ?thesis by simp
qed (use wire in simp_all)

lemma serve_invs_wire [simp]:
  "serve_inv (s\<lparr>svWire := w\<rparr>) = serve_inv s" "writer_inv (s\<lparr>svWire := w\<rparr>) = writer_inv s"
  "calls_inv (s\<lparr>svWire := w\<rparr>) = calls_inv s"
  by (auto simp: serve_inv_def main_inv_def writer_inv_def calls_inv_def split: main_pc.splits)

definition server_inv :: "('m, 't) goat_sys \<Rightarrow> bool" where
  "server_inv s \<longleftrightarrow> serve_inv (gsSrv s) \<and> writer_inv (gsSrv s) \<and> calls_inv (gsSrv s)"

interpretation gss: invariant_system "goat_init srv" "goat_step env cd tag srv n header" server_inv
  for env cd tag srv n header
proof unfold_locales
  fix s assume "goat_init srv s"
  then have "serve_init srv (gsSrv s)" by (auto simp: goat_init_def serve_init_def)
  then show "server_inv s"
    unfolding server_inv_def using svs.inv_init svw.inv_init svc.inv_init by blast
next
  fix s t assume inv: "server_inv s" and st: "goat_step env cd tag srv n header s t"
  from st show "server_inv t"
  proof (cases rule: goat_serve_step)
    case (wire w)
    with inv show ?thesis by (simp add: server_inv_def)
  next
    case (step pick w)
    with inv serve_inv_step[OF _ step] writer_inv_step[OF _ step] calls_inv_step[OF _ step] show ?thesis
      by (simp add: server_inv_def)
  qed
qed

section \<open>The transport\<close>

text \<open>What a step of the server puts on the transport: the message its writer holds, or a reset for the message
  its loop handles.\<close>

definition wire_adds :: "chan_rw \<Rightarrow> chan_rw \<Rightarrow> Rpc list \<Rightarrow> bool" where
  "wire_adds w w' new \<longleftrightarrow> inQ w' = inQ w \<and> buf (outQ w') = buf (outQ w) @ new"

lemma goc_write_adds:
  "goc_write pick ctx rpc w = Ret (err, w') \<Longrightarrow> wire_adds w w' [] \<or> wire_adds w w' [rpc]"
  by (auto elim!: goc_write_cases simp: wire_adds_def chan_simps)

lemma process_adds:
  assumes "processStreamingRpc env (goc_write pick) p q now ctx rpc (h, w) = Ret (r, h', w')"
  shows "wire_adds w w' [] \<or> (\<exists>hdr. rpcHeader rpc = Some hdr \<and> wire_adds w w' [reset_rpc rpc hdr])"
proof -
  have reset: "wire_adds w w' [] \<or> (\<exists>hdr. rpcHeader rpc = Some hdr \<and> wire_adds w w' [reset_rpc rpc hdr])"
    if "resetStream (goc_write pick) rpc h w = Ret (e, w')" for e
    using that goc_write_adds by (cases "rpcHeader rpc") (auto simp: resetStream_def)
  have same: "wire_adds w w []" by (simp add: wire_adds_def)
  show ?thesis
  proof (cases "hdStreams h (rpcId rpc)")
    case (Some i)
    with assms have "w' = w" by (auto simp: processStreamingRpc_def go_bind_Ret_iff split: if_splits)
    with same show ?thesis by simp
  next
    case None
    consider "w' = w" | e where "resetStream (goc_write pick) rpc h w = Ret (e, w')"
      using assms None
      by (auto simp: processStreamingRpc_def go_bind_Ret_iff Let_def split: if_splits option.splits sum.splits)
    then show ?thesis using reset same by cases auto
  qed
qed

lemma serve_step_wire:
  assumes "serve_step env cd tag (goc_write pick) srv s t"
  obtains (quiet) "svWire t = svWire s" "svWritten t = svWritten s"
  | (written) rpc new where "svWriter s = WriterBusy rpc" "svWritten t = svWritten s @ [rpc]"
      "wire_adds (svWire s) (svWire t) new" "new = [] \<or> new = [rpc]"
  | (reset) rpc new where "svMain s = ServeLocked rpc" "svWritten t = svWritten s"
      "wire_adds (svWire s) (svWire t) new" "new = [] \<or> (\<exists>hdr. rpcHeader rpc = Some hdr \<and> new = [reset_rpc rpc hdr])"
  using assms
proof (cases rule: serve_step.cases)
  case (sv_process rpc p q now new h' w')
  then show ?thesis using process_adds[OF sv_process(3)] reset[of rpc] by auto
next
  case (sv_process_err rpc p q now err new h' w')
  then show ?thesis using process_adds[OF sv_process_err(3)] reset[of rpc] by (auto simp: serve_return_def)
next
  case (sv_write rpc err w')
  then show ?thesis using goc_write_adds[OF sv_write(3)] written[of rpc] by auto
qed (use quiet in \<open>simp_all add: serve_return_def\<close>)

text \<open>Nothing is lost on the way, and what the client's read loop has handed over it has read.\<close>

definition in_hand :: "reader_pc \<Rightarrow> Rpc list" where
  "in_hand pc = (case pc of RGot rpc \<Rightarrow> [rpc] | RDeliver rpc \<Rightarrow> [rpc] | _ \<Rightarrow> [])"

definition wires_inv :: "('m, 't) goat_sys \<Rightarrow> bool" where
  "wires_inv s \<longleftrightarrow>
     gsSent s = gsRead s @ buf (inQ (gs_wire s)) \<and> gsBack s = gsSeen s @ buf (outQ (gs_wire s)) \<and>
     subseq (log (gsMux s) @ in_hand (reader (gsMux s))) (gsSeen s)"

lemma subseq_snoc: "subseq xs ys \<Longrightarrow> subseq (xs @ [x]) (ys @ [x])"
  by (simp add: subseq_append')

lemma subseq_append_left: "subseq (xs @ zs) ys \<Longrightarrow> subseq xs ys"
  by (meson list_emb_append2 list_emb_prefix subseq_order.order_refl subseq_order.trans)

lemma mux_step_log:
  assumes "mux_step env n header m m'" and "\<not> (\<exists>rpc. reader m = RRead \<and> reader m' = RGot rpc)"
  shows "log m' @ in_hand (reader m') = log m @ in_hand (reader m) \<or> log m' @ in_hand (reader m') = log m"
  using assms by (cases rule: mux_step.cases) (auto simp: in_hand_def)

lemma stream_write_None:
  "stream_write wr ctx rpc m t = Ret (None, t') \<Longrightarrow> wr ctx rpc t = Ret (None, t')"
  by (cases "readErrorIfDone m") (auto simp: stream_write_def go_bind_Ret_iff split: option.splits)

lemma goc_write_peer:
  "goc_write pick ctx rpc (peer_end w) = Ret (None, w') \<Longrightarrow>
     outQ (peer_end w') = outQ w \<and> buf (inQ (peer_end w')) = buf (inQ w) @ [rpc]"
  by (auto elim!: goc_write_cases simp: chan_simps)

lemma wires_inv_step:
  assumes inv: "wires_inv s" and st: "goat_step env cd tag srv n header s t"
  shows "wires_inv t"
  using st
proof (cases rule: goat_step.cases)
  case (gs_client m)
  from mux_step_log[OF gs_client(2)] gs_client(3) inv have
    "subseq (log m @ in_hand (reader m)) (gsSeen s)"
    unfolding wires_inv_def mux_local_def by (metis subseq_append_left)
  with inv gs_client show ?thesis by (simp add: wires_inv_def)
next
  case (gs_client_read pick ctx rpc w)
  from goc_read_Inr[OF gs_client_read(3)] gs_client_read inv show ?thesis
    by (auto simp: wires_inv_def in_hand_def subseq_append')
next
  case (gs_call_write i rpc h b pick ctx w)
  from goc_write_peer[OF gs_call_write(5)] gs_call_write(1) inv show ?thesis by (simp add: wires_inv_def)
next
  case (gs_stream_write i rpc pick ctx w)
  from goc_write_peer[OF stream_write_None[OF gs_stream_write(7)]] gs_stream_write(1) inv show ?thesis
    by (simp add: wires_inv_def)
next
  case (gs_server pick v)
  from gs_server(2) obtain new where "wire_adds (gs_wire s) (svWire v) new"
    by (cases rule: serve_step_wire) (auto simp: wire_adds_def)
  with gs_server inv show ?thesis by (simp add: wires_inv_def wire_adds_def)
next
  case (gs_server_read pick rpc w)
  from goc_read_Inr[OF gs_server_read(3)] gs_server_read inv show ?thesis by (simp add: wires_inv_def)
qed

interpretation gsw: invariant_system "goat_init srv" "goat_step env cd tag srv n header" wires_inv
  for env cd tag srv n header
proof unfold_locales
  show "goat_init srv s \<Longrightarrow> wires_inv s" for s
    by (auto simp: goat_init_def wires_inv_def mux_init_def in_hand_def NewGoatOverChannel_def)
qed (rule wires_inv_step)

section \<open>What the client sends\<close>

abbreviation with_id :: "u64 \<Rightarrow> Rpc list \<Rightarrow> Rpc list" where
  "with_id sid \<equiv> filter (\<lambda>m. rpcId m = sid)"

text \<open>Every message on the transport belongs to a call that took its id; a unary call sends one, when it writes.\<close>

definition sent_ok :: "call list \<Rightarrow> Rpc list \<Rightarrow> bool" where
  "sent_ok ks ms \<longleftrightarrow>
     (\<forall>x \<in> set ms. \<exists>k \<in> set ks. cRef k \<noteq> None \<and> cId k = rpcId x) \<and>
     (\<forall>k \<in> set ks. cUnary k \<and> cRef k \<noteq> None \<longrightarrow>
        length (with_id (cId k) ms) \<le> 1 \<and> (cPc k \<in> {PRegister, PWrite} \<longrightarrow> with_id (cId k) ms = []))"

definition sent_inv :: "('m, 't) goat_sys \<Rightarrow> bool" where
  "sent_inv s \<longleftrightarrow> mux_inv (gsMux s) \<and> (ids_left (rm (gsMux s)) \<longrightarrow> sent_ok (calls (gsMux s)) (gsSent s))"

lemma sent_ok_owner:
  assumes "sent_ok ks ms" "x \<in> set ms"
  shows "\<exists>j < length ks. cRef (ks ! j) \<noteq> None \<and> cId (ks ! j) = rpcId x"
  using assms unfolding sent_ok_def by (metis in_set_conv_nth)

lemma sent_ok_upd:
  assumes ok: "sent_ok ks ms" and i: "i < length ks"
    and same: "cRef k = cRef (ks ! i)" "cId k = cId (ks ! i)" "cUnary k = cUnary (ks ! i)"
    and pc: "cPc k \<in> {PRegister, PWrite} \<Longrightarrow> cPc (ks ! i) \<in> {PRegister, PWrite}"
  shows "sent_ok (ks[i := k]) ms"
proof -
  have "\<exists>l \<in> set (ks[i := k]). cRef l \<noteq> None \<and> cId l = rpcId x" if x: "x \<in> set ms" for x
  proof -
    from sent_ok_owner[OF ok x] obtain j where "j < length ks" "cRef (ks ! j) \<noteq> None" "cId (ks ! j) = rpcId x" by blast
    with same i show ?thesis
      by (intro bexI[OF _ nth_mem[of j "ks[i := k]"]]) (auto simp: nth_list_update)
  qed
  moreover have "length (with_id (cId l) ms) \<le> 1 \<and> (cPc l \<in> {PRegister, PWrite} \<longrightarrow> with_id (cId l) ms = [])"
    if "l \<in> set (ks[i := k])" "cUnary l" "cRef l \<noteq> None" for l
  proof (cases "l = k")
    case True
    have "length (with_id (cId (ks ! i)) ms) \<le> 1 \<and> (cPc (ks ! i) \<in> {PRegister, PWrite} \<longrightarrow> with_id (cId (ks ! i)) ms = [])"
      using ok i True that same unfolding sent_ok_def by (metis nth_mem)
    with pc same True show ?thesis by auto
  next
    case False
    with that(1) set_update_subset_insert[of ks i k] have "l \<in> set ks" by blast
    with ok that show ?thesis by (simp add: sent_ok_def)
  qed
  ultimately show ?thesis by (auto simp: sent_ok_def)
qed

text \<open>A call that takes an id: nothing was sent under it.\<close>

lemma sent_ok_alloc:
  assumes ok: "sent_ok ks ms" and i: "i < length ks" and none: "cRef (ks ! i) = None"
    and fresh: "\<And>k. k \<in> set ks \<Longrightarrow> cRef k \<noteq> None \<Longrightarrow> cId k \<noteq> cId l"
  shows "sent_ok (ks[i := l]) ms"
proof -
  have "\<exists>k \<in> set (ks[i := l]). cRef k \<noteq> None \<and> cId k = rpcId x" if x: "x \<in> set ms" for x
  proof -
    from sent_ok_owner[OF ok x] obtain j where j: "j < length ks" "cRef (ks ! j) \<noteq> None" "cId (ks ! j) = rpcId x" by blast
    with none have "i \<noteq> j" by auto
    with j show ?thesis by (intro bexI[OF _ nth_mem[of j "ks[i := l]"]]) auto
  qed
  moreover have "with_id (cId l) ms = []"
    using ok fresh by (auto simp: sent_ok_def filter_empty_conv)
  moreover have "k = l \<or> k \<in> set ks" if "k \<in> set (ks[i := l])" for k
    using that set_update_subset_insert[of ks i l] by blast
  ultimately show ?thesis using ok by (fastforce simp: sent_ok_def)
qed

text \<open>A message under the id of a call.\<close>

lemma sent_ok_send:
  assumes ok: "sent_ok ks ms" and i: "i < length ks" and r: "cRef (ks ! i) \<noteq> None" "rpcId x = cId (ks ! i)"
    and unique: "\<And>j. j < length ks \<Longrightarrow> j \<noteq> i \<Longrightarrow> cRef (ks ! j) \<noteq> None \<Longrightarrow> cId (ks ! j) \<noteq> cId (ks ! i)"
    and own: "cUnary (ks ! i) \<Longrightarrow> with_id (cId (ks ! i)) ms = [] \<and> cPc k \<notin> {PRegister, PWrite}"
    and k: "cRef k = cRef (ks ! i)" "cId k = cId (ks ! i)" "cUnary k = cUnary (ks ! i)"
  shows "sent_ok (ks[i := k]) (ms @ [x])"
proof -
  have "\<exists>l \<in> set (ks[i := k]). cRef l \<noteq> None \<and> cId l = rpcId y" if "y \<in> set (ms @ [x])" for y
  proof -
    have "\<exists>j < length ks. cRef (ks ! j) \<noteq> None \<and> cId (ks ! j) = rpcId y"
      using that sent_ok_owner[OF ok] r i by auto
    then obtain j where "j < length ks" "cRef (ks ! j) \<noteq> None" "cId (ks ! j) = rpcId y" by blast
    with k i show ?thesis by (intro bexI[OF _ nth_mem[of j "ks[i := k]"]]) (auto simp: nth_list_update)
  qed
  moreover have "length (with_id (cId l) (ms @ [x])) \<le> 1 \<and>
      (cPc l \<in> {PRegister, PWrite} \<longrightarrow> with_id (cId l) (ms @ [x]) = [])"
    if l: "l \<in> set (ks[i := k])" "cUnary l" "cRef l \<noteq> None" for l
  proof -
    from l(1) obtain j where j: "j < length ks" "l = ks[i := k] ! j" by (auto simp: in_set_conv_nth)
    show ?thesis
    proof (cases "j = i")
      case True
      with j own k r i l(2) show ?thesis by simp
    next
      case False
      with j have "l = ks ! j" "l \<in> set ks" by auto
      with unique[OF j(1) False] l r(2) ok show ?thesis by (simp add: sent_ok_def)
    qed
  qed
  ultimately show ?thesis by (auto simp: sent_ok_def)
qed

lemma sent_ok_mux:
  assumes ok: "sent_ok (calls m) ms" and core: "mux_core m" and st: "mux_step env n header m m'"
    and left: "ids_left (rm m')" and loc: "\<not> (\<exists>i. at_pc m i PWrite \<and> cUnary (calls m ! i) \<and> at_pc m' i PWait)"
  shows "sent_ok (calls m') ms"
  using st
proof (cases rule: mux_step.cases)
  case (spawn u)
  with ok show ?thesis by (auto simp: sent_ok_def new_call_def)
next
  case (alloc i sid c m1)
  then have i: "i < length (calls m)" and none: "cRef (calls m ! i) = None"
    using mux_core_callD[OF core, of i] by (auto simp: at_pc_def call_ok_def split: option.splits)
  have sid: "sid = ident (length (chans (rm m)))" "length (chans m1) = Suc (length (chans (rm m)))"
    using alloc(3) core by (auto simp: newStreamId_def Let_def ident_def mux_core_def mux_ok_def)
  have "cId k \<noteq> sid" if k: "k \<in> set (calls m)" "cRef k \<noteq> None" for k
  proof -
    from k core obtain c where "c < length (chans (rm m))" "cId k = ident c"
      by (auto simp: mux_core_def call_ok_def dest!: bspec[of _ _ k])
    with sid left alloc(1) ident_inj[of c "length (chans m1)" "length (chans (rm m))"] show ?thesis
      by (auto simp: ids_left_def)
  qed
  then have "sent_ok ((calls m)[i := (calls m ! i)\<lparr>cPc := PRegister, cId := sid, cRef := Some c\<rparr>]) ms"
    by (intro sent_ok_alloc[OF ok i none]) auto
  with alloc(1) show ?thesis by (simp add: upd_call_def)
qed (use ok loc in \<open>auto simp: upd_call_def at_pc_def intro!: sent_ok_upd\<close>)

lemma sent_inv_step:
  assumes inv: "sent_inv s" and st: "goat_step env cd tag srv n header s t"
  shows "sent_inv t"
proof -
  have m: "mux_inv (gsMux t)"
    using goat_mux_step[OF st] inv mux.inv_step by (auto simp: sent_inv_def)
  have "sent_ok (calls (gsMux t)) (gsSent t)" if left: "ids_left (rm (gsMux t))"
  proof -
    have left': "ids_left (rm (gsMux s))"
      using goat_mux_step[OF st] left mux_step_length[of env n header "gsMux s" "gsMux t"] by (auto simp: ids_left_def)
    with inv have ok: "sent_ok (calls (gsMux s)) (gsSent s)" and core: "mux_core (gsMux s)"
      by (simp_all add: sent_inv_def mux_inv_def)
    from st show ?thesis
    proof (cases rule: goat_step.cases)
      case (gs_client m)
      with sent_ok_mux[OF ok core gs_client(2)] left show ?thesis by (simp add: mux_local_def)
    next
      case (gs_call_write i rpc h b pick ctx w)
      have i: "i < length (calls (gsMux s))" "cPc (calls (gsMux s) ! i) = PWrite" using gs_call_write(2) by (simp_all add: at_pc_def)
      have r: "cRef (calls (gsMux s) ! i) \<noteq> None" using mux_core_callD[OF core i(1)] i(2) by (auto simp: call_ok_def split: option.splits)
      have "calls (gsMux s) ! i \<in> set (calls (gsMux s))" using i(1) by simp
      with ok r i(2) gs_call_write(3) have "with_id (cId (calls (gsMux s) ! i)) (gsSent s) = []" by (simp add: sent_ok_def)
      then have "sent_ok ((calls (gsMux s))[i := (calls (gsMux s) ! i)\<lparr>cPc := PWait\<rparr>]) (gsSent s @ [rpc])"
        using r gs_call_write(4) mux_core_ids[OF core left' i(1)]
        by (intro sent_ok_send[OF ok i(1)]) (simp_all add: call_request_def)
      with gs_call_write(1) show ?thesis by (simp add: upd_call_def)
    next
      case (gs_stream_write i rpc pick ctx w)
      have "sent_ok ((calls (gsMux s))[i := calls (gsMux s) ! i]) (gsSent s @ [rpc])"
        using gs_stream_write mux_core_ids[OF core left' gs_stream_write(2)]
        by (intro sent_ok_send[OF ok gs_stream_write(2)]) simp_all
      with gs_stream_write(1) show ?thesis by simp
    qed (use ok in simp_all)
  qed
  with m show ?thesis by (simp add: sent_inv_def)
qed

interpretation gsc: invariant_system "goat_init srv" "goat_step env cd tag srv n header" sent_inv
  for env cd tag srv n header
proof unfold_locales
  show "goat_init srv s \<Longrightarrow> sent_inv s" for s
    using mux.inv_init by (auto simp: goat_init_def sent_inv_def sent_ok_def mux_init_def)
qed (rule sent_inv_step)

section \<open>What the server answers\<close>

definition unary_req :: "('m, 't) Server \<Rightarrow> Rpc \<Rightarrow> bool" where
  "unary_req srv rq = (case serve_dispatch srv rq of Unary si md \<Rightarrow> True | _ \<Rightarrow> False)"

definition stream_req :: "('m, 't) Server \<Rightarrow> Rpc \<Rightarrow> bool" where
  "stream_req srv rq = (case serve_dispatch srv rq of Stream si sd \<Rightarrow> True | _ \<Rightarrow> False)"

text \<open>\<open>x\<close> is what the method named by the request \<open>rq\<close> makes of it, at some time and in some context.\<close>

definition answers :: "env \<Rightarrow> 'm codec \<Rightarrow> tagger \<Rightarrow> ('m, 't) Server \<Rightarrow> Rpc \<Rightarrow> Rpc \<Rightarrow> bool" where
  "answers env cd tag srv rq x \<longleftrightarrow>
     (\<exists>si md now ctx tr. serve_dispatch srv rq = Unary si md \<and>
        processUnaryRpc env cd tag now srv ctx si md rq = Ret (x, tr))"

text \<open>The messages read so far name a stream with this id; or the message answers one of them.\<close>

definition stream_id :: "('m, 't) Server \<Rightarrow> Rpc list \<Rightarrow> u64 \<Rightarrow> bool" where
  "stream_id srv rd k \<longleftrightarrow> (\<exists>rq \<in> set rd. rpcId rq = k \<and> stream_req srv rq)"

definition from_req :: "env \<Rightarrow> 'm codec \<Rightarrow> tagger \<Rightarrow> ('m, 't) Server \<Rightarrow> Rpc list \<Rightarrow> Rpc \<Rightarrow> bool" where
  "from_req env cd tag srv rd x \<longleftrightarrow> stream_id srv rd (rpcId x) \<or> (\<exists>rq \<in> set rd. answers env cd tag srv rq x)"

definition main_from :: "('m, 't) Server \<Rightarrow> Rpc list \<Rightarrow> ('m, 't) main_pc \<Rightarrow> bool" where
  "main_from srv rd pc =
     (case pc of
        ServeUnary si md rpc \<Rightarrow> rpc \<in> set rd \<and> serve_dispatch srv rpc = Unary si md
      | ServeStream rpc \<Rightarrow> rpc \<in> set rd \<and> stream_req srv rpc
      | ServeLocked rpc \<Rightarrow> rpc \<in> set rd \<and> stream_req srv rpc
      | _ \<Rightarrow> True)"

definition worker_from :: "env \<Rightarrow> 'm codec \<Rightarrow> tagger \<Rightarrow> ('m, 't) Server \<Rightarrow> Rpc list \<Rightarrow> ('m, 't) worker_pc \<Rightarrow> bool" where
  "worker_from env cd tag srv rd pc =
     (case pc of
        WorkerBusy si md rpc \<Rightarrow> rpc \<in> set rd \<and> serve_dispatch srv rpc = Unary si md
      | WorkerSend resp \<Rightarrow> (\<exists>rq \<in> set rd. answers env cd tag srv rq resp)
      | _ \<Rightarrow> True)"

text \<open>Every goroutine of the server works on a message that was read, and every message it passes on comes from one.\<close>

definition origin_ok ::
  "env \<Rightarrow> 'm codec \<Rightarrow> tagger \<Rightarrow> ('m, 't) Server \<Rightarrow> Rpc list \<Rightarrow> ('m, 't, 'w) serve_sys \<Rightarrow> bool" where
  "origin_ok env cd tag srv rd v \<longleftrightarrow>
     main_from srv rd (svMain v) \<and> (\<forall>pc \<in> set (svWorkers v). worker_from env cd tag srv rd pc) \<and>
     (\<forall>p \<in> set (svStreams v). stream_id srv rd (fst p)) \<and> (\<forall>x \<in> set (svQueued v). from_req env cd tag srv rd x)"

lemma stream_id_mono: "stream_id srv rd k \<Longrightarrow> stream_id srv (rd @ new) k"
  by (auto simp: stream_id_def)

lemma from_req_mono: "from_req env cd tag srv rd x \<Longrightarrow> from_req env cd tag srv (rd @ new) x"
  by (auto simp: from_req_def stream_id_mono)

lemma worker_from_mono: "worker_from env cd tag srv rd pc \<Longrightarrow> worker_from env cd tag srv (rd @ new) pc"
  by (auto simp: worker_from_def split: worker_pc.splits)

lemma main_from_mono: "main_from srv rd pc \<Longrightarrow> main_from srv (rd @ new) pc"
  by (auto simp: main_from_def split: main_pc.splits)

lemma origin_ok_mono: "origin_ok env cd tag srv rd v \<Longrightarrow> origin_ok env cd tag srv (rd @ new) v"
  by (auto simp: origin_ok_def main_from_mono worker_from_mono stream_id_mono from_req_mono)

lemma origin_ok_worker:
  assumes "origin_ok env cd tag srv rd v" and "worker_from env cd tag srv rd pc"
  shows "\<forall>p \<in> set ((svWorkers v)[i := pc]). worker_from env cd tag srv rd p"
  using assms set_update_subset_insert[of "svWorkers v" i pc] by (auto simp: origin_ok_def)

lemma origin_ok_update:
  assumes "origin_ok env cd tag srv rd v" and "r < length (svStreams v)" and "fst p = fst (svStreams v ! r)"
  shows "\<forall>q \<in> set ((svStreams v)[r := p]). stream_id srv rd (fst q)"
proof -
  have "svStreams v ! r \<in> set (svStreams v)" using assms(2) by simp
  with assms set_update_subset_insert[of "svStreams v" r p] show ?thesis by (auto simp: origin_ok_def)
qed

lemma main_from_locked:
  "origin_ok env cd tag srv rd v \<Longrightarrow> svMain v = ServeLocked rpc \<Longrightarrow> stream_id srv rd (rpcId rpc)"
  by (auto simp: origin_ok_def main_from_def stream_id_def)

lemma origin_ok_step:
  assumes ok: "origin_ok env cd tag srv rd v" and st: "serve_step env cd tag wr srv v v'" and loc: "serve_local v v'"
  shows "origin_ok env cd tag srv rd v'"
  using st
proof (cases rule: serve_step.cases)
  case (sv_unary_send si md rpc i)
  with ok have "worker_from env cd tag srv rd (WorkerBusy si md rpc)"
    by (simp add: origin_ok_def main_from_def worker_from_def)
  from origin_ok_worker[OF ok this, of i] ok sv_unary_send show ?thesis by (simp add: origin_ok_def main_from_def)
next
  case (sv_worker i si md rpc now resp tr)
  then have "worker_from env cd tag srv rd (WorkerBusy si md rpc)" using ok by (metis nth_mem origin_ok_def)
  then have "rpc \<in> set rd" "serve_dispatch srv rpc = Unary si md" by (simp_all add: worker_from_def)
  moreover from this(2) sv_worker(4) have "answers env cd tag srv rpc resp" unfolding answers_def by blast
  ultimately have "worker_from env cd tag srv rd (WorkerSend resp)" by (auto simp: worker_from_def)
  from origin_ok_worker[OF ok this, of i] ok sv_worker show ?thesis by (simp add: origin_ok_def)
next
  case (sv_worker_send i resp c)
  then have "worker_from env cd tag srv rd (WorkerSend resp)" using ok by (metis nth_mem origin_ok_def)
  then have "from_req env cd tag srv rd resp" by (simp add: worker_from_def from_req_def)
  moreover have "worker_from env cd tag srv rd (WorkerIdle :: ('a, 'b) worker_pc)" by (simp add: worker_from_def)
  from origin_ok_worker[OF ok this, of i] ok sv_worker_send calculation show ?thesis by (simp add: origin_ok_def)
next
  case (sv_worker_gone i)
  have "worker_from env cd tag srv rd (WorkerGone :: ('a, 'b) worker_pc)" by (simp add: worker_from_def)
  from origin_ok_worker[OF ok this, of i] ok sv_worker_gone show ?thesis by (simp add: origin_ok_def)
next
  case (sv_process rpc p q now new h' w')
  with ok main_from_locked[OF ok sv_process(2)] show ?thesis
    by (auto simp: origin_ok_def main_from_def split: option.splits)
next
  case (sv_str_write r pick ctx rpc err c)
  have "from_req env cd tag srv rd x" if x: "x \<in> set (buf c)" for x
  proof -
    from x write_chan_stream[OF sv_str_write(4)] have "buf c = [x]" by auto
    with loc sv_str_write(1) obtain q where "q < length (svStreams v)" "svStreams v ! q = (rpcId x, StrRun)"
      by (auto simp: serve_local_def)
    then have "(rpcId x, StrRun) \<in> set (svStreams v)" by (metis nth_mem)
    with ok show ?thesis by (auto simp: origin_ok_def from_req_def)
  qed
  with ok sv_str_write(1) show ?thesis by (auto simp: origin_ok_def)
next
  case (sv_str_return r sid)
  with ok origin_ok_update[OF ok sv_str_return(2), of "(sid, StrExit)"] show ?thesis by (simp add: origin_ok_def)
next
  case (sv_str_end r sid h')
  with ok origin_ok_update[OF ok sv_str_end(2), of "(sid, StrEnd)"] show ?thesis by (simp add: origin_ok_def)
qed (use ok loc in \<open>auto simp: origin_ok_def main_from_def serve_return_def serve_local_def\<close>)

lemma origin_ok_read:
  assumes "origin_ok env cd tag srv rd v"
  shows "origin_ok env cd tag srv (rd @ [rpc]) (v\<lparr>svWire := w, svMain := serve_read srv rpc\<rparr>)"
  using origin_ok_mono[OF assms, of "[rpc]"]
  by (auto simp: origin_ok_def serve_read_def main_from_def stream_req_def split: dispatch.splits)

lemma origin_ok_wire [simp]: "origin_ok env cd tag srv rd (v\<lparr>svWire := w\<rparr>) = origin_ok env cd tag srv rd v"
  by (simp add: origin_ok_def)

section \<open>How often, and in which order\<close>

text \<open>The unary request the loop holds; whether the loop still reads; the stream message it holds.\<close>

definition pending :: "('m, 't) main_pc \<Rightarrow> Rpc list" where
  "pending pc = (case pc of ServeUnary si md rpc \<Rightarrow> [rpc] | _ \<Rightarrow> [])"

definition looping :: "('m, 't) main_pc \<Rightarrow> bool" where
  "looping pc = (case pc of WaitLock \<Rightarrow> False | WaitDone r \<Rightarrow> False | ServeReturned \<Rightarrow> False | _ \<Rightarrow> True)"

definition held :: "('m, 't) main_pc \<Rightarrow> Rpc list" where
  "held pc = (case pc of ServeStream rpc \<Rightarrow> [rpc] | ServeLocked rpc \<Rightarrow> [rpc] | _ \<Rightarrow> [])"

lemmas pc_defs = pending_def looping_def held_def

text \<open>The workers got the unary requests that were read, each once, in order; the writer got the workers' responses and
  messages of streams; each stream got messages that were read, in order.\<close>

definition flow_ok :: "('m, 't) Server \<Rightarrow> Rpc list \<Rightarrow> ('m, 't, 'w) serve_sys \<Rightarrow> bool" where
  "flow_ok srv rd v \<longleftrightarrow>
     (\<exists>rest. filter (unary_req srv) rd = svCalls v @ pending (svMain v) @ rest \<and> (looping (svMain v) \<longrightarrow> rest = [])) \<and>
     (\<exists>others. mset (svQueued v) = mset (svReplied v) + mset others \<and> (\<forall>x \<in> set others. stream_id srv rd (rpcId x))) \<and>
     (\<forall>r. subseq (of_conn r (svRouted v) @ held (svMain v)) rd)"

lemma flow_ok_frame:
  assumes "flow_ok srv rd v" and "svCalls v' = svCalls v" "svQueued v' = svQueued v" "svReplied v' = svReplied v"
    "svRouted v' = svRouted v"
    and "pending (svMain v') = pending (svMain v) \<and> looping (svMain v') = looping (svMain v) \<or> \<not> looping (svMain v') \<and> pending (svMain v') = []"
    and "held (svMain v') = held (svMain v) \<or> held (svMain v') = []"
  shows "flow_ok srv rd v'"
proof -
  have "\<forall>r. subseq (of_conn r (svRouted v') @ held (svMain v')) rd"
    using assms(1,5,7) unfolding flow_ok_def by (metis append_Nil2 subseq_append_left)
  moreover have "\<exists>rest. filter (unary_req srv) rd = svCalls v' @ pending (svMain v') @ rest \<and> (looping (svMain v') \<longrightarrow> rest = [])"
    using assms(1,2,6) unfolding flow_ok_def by auto
  ultimately show ?thesis using assms(1,3,4) by (simp add: flow_ok_def)
qed

lemma flow_ok_queue:
  assumes "flow_ok srv rd v" and "svCalls v' = svCalls v" "svRouted v' = svRouted v" "svMain v' = svMain v"
    and "svQueued v' = svQueued v @ new" "svReplied v' = svReplied v @ rep"
    and "new = rep \<or> rep = [] \<and> (\<forall>x \<in> set new. stream_id srv rd (rpcId x))"
  shows "flow_ok srv rd v'"
proof -
  from assms(1) obtain others where o: "mset (svQueued v) = mset (svReplied v) + mset others"
    "\<forall>x \<in> set others. stream_id srv rd (rpcId x)" by (auto simp: flow_ok_def)
  have "\<exists>others. mset (svQueued v') = mset (svReplied v') + mset others \<and> (\<forall>x \<in> set others. stream_id srv rd (rpcId x))"
    using assms(7)
  proof
    assume "new = rep"
    with o assms(5,6) show ?thesis by (intro exI[of _ others]) simp
  next
    assume "rep = [] \<and> (\<forall>x \<in> set new. stream_id srv rd (rpcId x))"
    with o assms(5,6) show ?thesis by (intro exI[of _ "others @ new"]) auto
  qed
  with assms(1-4) show ?thesis by (simp add: flow_ok_def)
qed

lemma of_conn_routed:
  "of_conn r (routed rpc h None) = [] \<or> of_conn r (routed rpc h None) = [rpc]"
  by (auto simp: routed_def of_conn_def split: option.splits)

lemma flow_ok_step:
  assumes ok: "flow_ok srv rd v" and org: "origin_ok env cd tag srv rd v"
    and st: "serve_step env cd tag wr srv v v'" and loc: "serve_local v v'"
  shows "flow_ok srv rd v'"
  using st
proof (cases rule: serve_step.cases)
  case (sv_unary rpc si md)
  with loc show ?thesis by (simp add: serve_local_def)
next
  case (sv_stream rpc si sd)
  with loc show ?thesis by (simp add: serve_local_def)
next
  case (sv_unary_send si md rpc i)
  with ok show ?thesis by (auto simp: flow_ok_def pc_defs)
next
  case (sv_process rpc p q now new h' w')
  have "subseq (of_conn r (svRouted v) @ [rpc]) rd" for r using ok sv_process(2) by (auto simp: flow_ok_def pc_defs)
  then have "subseq (of_conn r (svRouted v @ routed rpc (svHd v) None)) rd" for r
    using of_conn_routed[of r rpc "svHd v"] subseq_append_left by (metis of_conn_simps(2) append_Nil2)
  with ok sv_process(1,2) show ?thesis by (auto simp: flow_ok_def pc_defs)
next
  case (sv_worker_send i resp c)
  then show ?thesis by (intro flow_ok_queue[OF ok, of _ "[resp]" "[resp]"]) simp_all
next
  case (sv_str_write r pick ctx rpc err c)
  have "stream_id srv rd (rpcId x)" if x: "x \<in> set (buf c)" for x
  proof -
    from x write_chan_stream[OF sv_str_write(4)] have "buf c = [x]" by auto
    with loc sv_str_write(1) obtain q where "q < length (svStreams v)" "svStreams v ! q = (rpcId x, StrRun)"
      by (auto simp: serve_local_def)
    then have "(rpcId x, StrRun) \<in> set (svStreams v)" by (metis nth_mem)
    with org show ?thesis by (auto simp: origin_ok_def)
  qed
  with sv_str_write(1) show ?thesis by (intro flow_ok_queue[OF ok, of _ "buf c" "[]"]) simp_all
qed (auto intro!: flow_ok_frame[OF ok] simp: serve_return_def pc_defs)

lemma flow_ok_read:
  assumes ok: "flow_ok srv rd v" and m: "svMain v = ServeRead"
  shows "flow_ok srv (rd @ [rpc]) (v\<lparr>svWire := w, svMain := serve_read srv rpc\<rparr>)"
proof -
  let ?pc = "serve_read srv rpc"
  have pc: "looping ?pc" "pending ?pc = (if unary_req srv rpc then [rpc] else [])" "held ?pc = [] \<or> held ?pc = [rpc]"
    by (auto simp: serve_read_def pc_defs unary_req_def split: dispatch.splits)
  have sub: "subseq (of_conn r (svRouted v)) rd" for r using ok m by (simp add: flow_ok_def pc_defs)
  have "subseq (of_conn r (svRouted v) @ held ?pc) (rd @ [rpc])" for r
    using pc(3) subseq_snoc[OF sub] list_emb_append2[OF sub] by (auto simp: subseq_append_left)
  moreover have "filter (unary_req srv) rd = svCalls v" using ok m by (auto simp: flow_ok_def pc_defs)
  ultimately show ?thesis using ok pc(1,2) by (auto simp: flow_ok_def stream_id_mono)
qed

lemma flow_ok_wire [simp]: "flow_ok srv rd (v\<lparr>svWire := w\<rparr>) = flow_ok srv rd v"
  by (simp add: flow_ok_def)

text \<open>What the server put on the transport: messages its writer was given, in order, and resets.\<close>

definition back_ok ::
  "env \<Rightarrow> 'm codec \<Rightarrow> tagger \<Rightarrow> ('m, 't) Server \<Rightarrow> Rpc list \<Rightarrow> Rpc list \<Rightarrow> Rpc list \<Rightarrow> bool" where
  "back_ok env cd tag srv rd written back \<longleftrightarrow>
     (\<forall>x \<in> set back. from_req env cd tag srv rd x) \<and>
     (\<exists>rs. mset back \<subseteq># mset written + mset rs \<and> (\<forall>x \<in> set rs. stream_id srv rd (rpcId x))) \<and>
     subseq (filter (\<lambda>x. rpcReset x = None) back) written"

lemma back_ok_mono: "back_ok env cd tag srv rd wn bk \<Longrightarrow> back_ok env cd tag srv (rd @ new) wn bk"
  unfolding back_ok_def using from_req_mono stream_id_mono by blast

lemma back_ok_write:
  assumes "back_ok env cd tag srv rd wn bk" and "from_req env cd tag srv rd x" and "new = [] \<or> new = [x]"
  shows "back_ok env cd tag srv rd (wn @ [x]) (bk @ new)"
proof -
  from assms(1) obtain rs where rs: "mset bk \<subseteq># mset wn + mset rs" "\<forall>x \<in> set rs. stream_id srv rd (rpcId x)"
    by (auto simp: back_ok_def)
  have "mset (bk @ new) \<subseteq># mset (wn @ [x]) + mset rs"
    using assms(3) rs(1) subset_mset.add_increasing[of "{#x#}", OF _ rs(1)] by auto
  moreover have "subseq (filter (\<lambda>x. rpcReset x = None) (bk @ new)) (wn @ [x])"
    using assms(1,3) by (auto simp: back_ok_def subseq_append' intro: list_emb_append2)
  ultimately show ?thesis using assms rs(2) by (auto simp: back_ok_def)
qed

lemma back_ok_reset:
  assumes "back_ok env cd tag srv rd wn bk" and "stream_id srv rd (rpcId rpc)"
    and "new = [] \<or> (\<exists>hdr. rpcHeader rpc = Some hdr \<and> new = [reset_rpc rpc hdr])"
  shows "back_ok env cd tag srv rd wn (bk @ new)"
proof -
  from assms(1) obtain rs where rs: "mset bk \<subseteq># mset wn + mset rs" "\<forall>x \<in> set rs. stream_id srv rd (rpcId x)"
    by (auto simp: back_ok_def)
  have new: "\<forall>x \<in> set new. stream_id srv rd (rpcId x) \<and> rpcReset x \<noteq> None"
    using assms(2,3) by (auto simp: reset_rpc_def)
  have "mset (bk @ new) \<subseteq># mset wn + mset (rs @ new)" using rs(1) by (simp add: add.assoc[symmetric])
  moreover have "filter (\<lambda>x. rpcReset x = None) new = []" using new by (auto simp: filter_empty_conv)
  ultimately show ?thesis using assms(1) rs(2) new unfolding back_ok_def from_req_def
    by (intro conjI exI[of _ "rs @ new"]) auto
qed

text \<open>The invariant of the server's side of the joined system.\<close>

definition goat_inv :: "env \<Rightarrow> 'm codec \<Rightarrow> tagger \<Rightarrow> ('m, 't) Server \<Rightarrow> ('m, 't) goat_sys \<Rightarrow> bool" where
  "goat_inv env cd tag srv s \<longleftrightarrow>
     server_inv s \<and> origin_ok env cd tag srv (gsRead s) (gsSrv s) \<and> flow_ok srv (gsRead s) (gsSrv s) \<and>
     back_ok env cd tag srv (gsRead s) (svWritten (gsSrv s)) (gsBack s)"

lemma goat_inv_step:
  assumes inv: "goat_inv env cd tag srv s" and st: "goat_step env cd tag srv n header s t"
  shows "goat_inv env cd tag srv t"
proof -
  have sv: "server_inv t" using gss.inv_step[OF _ st] inv by (simp add: goat_inv_def)
  from inv have d: "origin_ok env cd tag srv (gsRead s) (gsSrv s)" "flow_ok srv (gsRead s) (gsSrv s)"
    "back_ok env cd tag srv (gsRead s) (svWritten (gsSrv s)) (gsBack s)" and w: "writer_inv (gsSrv s)"
    by (simp_all add: goat_inv_def server_inv_def)
  from st show ?thesis
  proof (cases rule: goat_step.cases)
    case (gs_server pick v)
    let ?new = "drop (length (buf (outQ (gs_wire s)))) (buf (outQ (svWire v)))"
    from gs_server(2) have "back_ok env cd tag srv (gsRead s) (svWritten v) (gsBack s @ ?new)"
    proof (cases rule: serve_step_wire)
      case quiet
      with d(3) show ?thesis by simp
    next
      case (written rpc new)
      from written(1) w have "rpc \<in> set (svQueued (gsSrv s))" by (simp add: writer_inv_def in_flight_def)
      with d(1) have "from_req env cd tag srv (gsRead s) rpc" by (simp add: origin_ok_def)
      from back_ok_write[OF d(3) this written(4)] written(2,3) show ?thesis by (simp add: wire_adds_def)
    next
      case (reset rpc new)
      from back_ok_reset[OF d(3) main_from_locked[OF d(1) reset(1)] reset(4)] reset(2,3) show ?thesis
        by (simp add: wire_adds_def)
    qed
    with gs_server sv origin_ok_step[OF d(1) gs_server(2,3)] flow_ok_step[OF d(2,1) gs_server(2,3)] show ?thesis
      by (simp add: goat_inv_def)
  next
    case (gs_server_read pick rpc w)
    with sv origin_ok_read[OF d(1)] flow_ok_read[OF d(2)] back_ok_mono[OF d(3)] show ?thesis by (simp add: goat_inv_def)
  qed (use d sv in \<open>simp_all add: goat_inv_def\<close>)
qed

interpretation gsi: invariant_system "goat_init srv" "goat_step env cd tag srv n header" "goat_inv env cd tag srv"
  for env cd tag srv n header
proof unfold_locales
  fix s :: "('a, 'b) goat_sys" assume i: "goat_init srv s"
  then have "server_inv s" by (rule gss.inv_init)
  with i show "goat_inv env cd tag srv s"
    by (auto simp: goat_init_def goat_inv_def origin_ok_def main_from_def worker_from_def flow_ok_def pc_defs back_ok_def
        intro: exI[of _ "[]"])
qed (rule goat_inv_step)

section \<open>Properties\<close>

lemma with_id_mset: "length (with_id k xs) = size (filter_mset (\<lambda>m. rpcId m = k) (mset xs))"
  by (simp flip: mset_filter)

lemma with_id_count: "length (with_id k xs) = count (mset (map rpcId xs)) k"
  by (induction xs) auto

lemma with_id_subseq: "subseq xs ys \<Longrightarrow> subseq (with_id k xs) (with_id k ys)"
  by (rule subseq_filter)

lemma with_id_none: "\<not> stream_id srv rd k \<Longrightarrow> \<forall>x \<in> set xs. stream_id srv rd (rpcId x) \<Longrightarrow> with_id k xs = []"
  by (auto simp: filter_empty_conv)

text \<open>Under an id that no stream uses, the server sends no more messages than it read unary requests.\<close>

lemma unary_count:
  assumes inv: "goat_inv env cd tag srv s" and k: "\<not> stream_id srv (gsRead s) k"
  shows "length (with_id k (gsBack s)) \<le> length (with_id k (gsRead s))"
proof -
  let ?v = "gsSrv s" and ?P = "\<lambda>m. rpcId m = k"
  from inv have d: "flow_ok srv (gsRead s) ?v" "back_ok env cd tag srv (gsRead s) (svWritten ?v) (gsBack s)"
    "writer_inv ?v" "calls_inv ?v" by (simp_all add: goat_inv_def server_inv_def)
  from d(2) obtain rs where rs: "mset (gsBack s) \<subseteq># mset (svWritten ?v) + mset rs" "\<forall>x \<in> set rs. stream_id srv (gsRead s) (rpcId x)"
    by (auto simp: back_ok_def)
  have "filter_mset ?P (mset (gsBack s)) \<subseteq># filter_mset ?P (mset (svWritten ?v) + mset rs)"
    by (rule multiset_filter_mono[OF rs(1)])
  from size_mset_mono[OF this] have "length (with_id k (gsBack s)) \<le> length (with_id k (svWritten ?v)) + length (with_id k rs)"
    by (simp add: with_id_mset)
  also have "with_id k rs = []" by (rule with_id_none[OF k rs(2)])
  also have "length (with_id k (svWritten ?v)) \<le> length (with_id k (svQueued ?v))" using d(3) by (simp add: writer_inv_def)
  also from d(1) obtain os where os: "mset (svQueued ?v) = mset (svReplied ?v) + mset os" "\<forall>x \<in> set os. stream_id srv (gsRead s) (rpcId x)"
    by (auto simp: flow_ok_def)
  then have "length (with_id k (svQueued ?v)) = length (with_id k (svReplied ?v)) + length (with_id k os)"
    by (simp add: with_id_mset)
  also have "with_id k os = []" by (rule with_id_none[OF k os(2)])
  also have "length (with_id k (svReplied ?v)) \<le> length (with_id k (svCalls ?v))"
    using d(4) by (simp add: calls_inv_def with_id_count)
  also from d(1) obtain rest where "filter (unary_req srv) (gsRead s) = svCalls ?v @ rest" by (auto simp: flow_ok_def)
  then have "length (with_id k (svCalls ?v)) \<le> length (with_id k (filter (unary_req srv) (gsRead s)))" by (simp del: filter_filter)
  also have "\<dots> \<le> length (with_id k (gsRead s))" 
    by (rule list_emb_length[OF with_id_subseq]) simp
  finally show ?thesis by simp
qed

text \<open>What a call received came over the transport, in order.\<close>

lemma got_subseq:
  assumes r: "reach (goat_init srv) (goat_step env cd tag srv n header) s" and left: "ids_left (rm (gsMux s))"
    and i: "i < length (calls (gsMux s))"
  shows "subseq (cGot (calls (gsMux s) ! i)) (with_id (cId (calls (gsMux s) ! i)) (gsBack s))"
proof (cases "cRef (calls (gsMux s) ! i)")
  case None
  with mux_core_callD[OF reach_mux_core[OF reach_goat_mux[OF r] left] i] show ?thesis by (simp add: call_ok_def)
next
  case (Some c)
  let ?k = "calls (gsMux s) ! i"
  from mux_core_callD[OF reach_mux_core[OF reach_goat_mux[OF r] left] i] Some
  have "subseq (cGot ?k) (with_id (cId ?k) (log (gsMux s)))" by (auto simp: call_ok_def)
  moreover have "subseq (log (gsMux s)) (gsBack s)"
    using gsw.reach_inv[OF r] by (auto simp: wires_inv_def dest!: subseq_append_left intro: list_emb_append2)
  from this have "subseq (with_id (cId ?k) (log (gsMux s))) (with_id (cId ?k) (gsBack s))" by (rule with_id_subseq)
  ultimately show ?thesis by (rule subseq_order.trans)
qed

text \<open>C2: A unary call gets its own answer: in every reachable state of a client and a server joined by channels,
  whatever other calls, streams, errors and cancellations happen, a unary call has sent at most one
  request under its id; if the request names a method, the call has received at most one message, and that
  is what the server's method made of this request; and it receives nothing before it has sent.\<close>

theorem system_unary:
  assumes "reach (goat_init srv) (goat_step env cd tag srv n header) s" and "ids_left (rm (gsMux s))"
    and "i < length (calls (gsMux s))" and "cUnary (calls (gsMux s) ! i)" and "cRef (calls (gsMux s) ! i) \<noteq> None"
  shows "length (filter (\<lambda>m. rpcId m = cId (calls (gsMux s) ! i)) (gsSent s)) \<le> 1 \<and>
    (\<forall>rq \<in> set (gsSent s). rpcId rq = cId (calls (gsMux s) ! i) \<and> unary_req srv rq \<longrightarrow>
       length (cGot (calls (gsMux s) ! i)) \<le> 1 \<and>
       (\<forall>resp \<in> set (cGot (calls (gsMux s) ! i)). answers env cd tag srv rq resp)) \<and>
    (cGot (calls (gsMux s) ! i) \<noteq> [] \<longrightarrow> (\<exists>rq \<in> set (gsSent s). rpcId rq = cId (calls (gsMux s) ! i)))"
proof -
  let ?k = "calls (gsMux s) ! i"
  note inv = gsi.reach_inv[OF assms(1)]
  have sent: "gsSent s = gsRead s @ buf (inQ (gs_wire s))" using gsw.reach_inv[OF assms(1)] by (simp add: wires_inv_def)
  have "?k \<in> set (calls (gsMux s))" using assms(3) by simp
  then have one: "length (with_id (cId ?k) (gsSent s)) \<le> 1"
    using gsc.reach_inv[OF assms(1)] assms(2,4,5) by (auto simp: sent_inv_def sent_ok_def)
  have same: "rq = rq'" if "rq \<in> set (gsSent s)" "rq' \<in> set (gsRead s)" "rpcId rq = cId ?k" "rpcId rq' = cId ?k" for rq rq'
  proof -
    have "rq \<in> set (with_id (cId ?k) (gsSent s))" "rq' \<in> set (with_id (cId ?k) (gsSent s))" using that sent by auto
    with one show ?thesis by (cases "with_id (cId ?k) (gsSent s)") auto
  qed
  note got = got_subseq[OF assms(1,2,3)]
  have from_req: "from_req env cd tag srv (gsRead s) x" and id: "rpcId x = cId ?k" if x: "x \<in> set (cGot ?k)" for x
  proof -
    from list_emb_set[OF got x] have "x \<in> set (with_id (cId ?k) (gsBack s))" by metis
    then show "rpcId x = cId ?k" "from_req env cd tag srv (gsRead s) x" using inv by (auto simp: goat_inv_def back_ok_def)
  qed
  have ans: "rpcId rq = rpcId x" if "answers env cd tag srv rq x" for rq x
    using that processUnaryRpc_id by (fastforce simp: answers_def)
  have no_stream: "\<not> stream_id srv (gsRead s) (cId ?k)"
    if "rq \<in> set (gsSent s)" "rpcId rq = cId ?k" "unary_req srv rq" for rq
    using that same[OF that(1)] by (auto simp: stream_id_def unary_req_def stream_req_def split: dispatch.splits)
  have "length (cGot ?k) \<le> 1 \<and> (\<forall>resp \<in> set (cGot ?k). answers env cd tag srv rq resp)"
    if rq: "rq \<in> set (gsSent s)" "rpcId rq = cId ?k" "unary_req srv rq" for rq
  proof
    have "length (cGot ?k) \<le> length (with_id (cId ?k) (gsBack s))" by (rule list_emb_length[OF got])
    also have "\<dots> \<le> length (with_id (cId ?k) (gsRead s))" by (rule unary_count[OF inv no_stream[OF rq]])
    also have "\<dots> \<le> 1" using one sent by simp
    finally show "length (cGot ?k) \<le> 1" .
    show "\<forall>resp \<in> set (cGot ?k). answers env cd tag srv rq resp"
    proof
      fix x assume x: "x \<in> set (cGot ?k)"
      with from_req id no_stream[OF rq] obtain rq' where "rq' \<in> set (gsRead s)" "answers env cd tag srv rq' x"
        by (auto simp: from_req_def)
      with same[OF rq(1), of rq'] ans id[OF x] rq(2) show "answers env cd tag srv rq x" by metis
    qed
  qed
  moreover have "\<exists>rq \<in> set (gsSent s). rpcId rq = cId ?k" if "cGot ?k \<noteq> []"
  proof -
    from that obtain x where x: "x \<in> set (cGot ?k)" by (cases "cGot ?k") auto
    from from_req[OF x] id[OF x] obtain rq where "rq \<in> set (gsRead s)" "rpcId rq = cId ?k"
      using ans by (auto simp: from_req_def stream_id_def)
    then show ?thesis using sent by auto
  qed
  ultimately show ?thesis using one by blast
qed

text \<open>C3: Streams are ordered from end to end: in every reachable state of a client and a server joined by
  channels, what a server stream has read is a subsequence of what the client's calls sent under its id, and what a
  client stream has received, resets aside, is a subsequence of what was passed to the server's writer
  under its id. Nothing is invented, duplicated or reordered.\<close>

theorem system_stream_order:
  assumes "reach (goat_init srv) (goat_step env cd tag srv n header) s" and "ids_left (rm (gsMux s))"
  shows "(\<forall>r < length (svStreams (gsSrv s)).
       subseq (of_conn r (svGot (gsSrv s))) (filter (\<lambda>m. rpcId m = fst (svStreams (gsSrv s) ! r)) (gsSent s))) \<and>
    (\<forall>i < length (calls (gsMux s)).
       subseq (filter (\<lambda>m. rpcReset m = None) (cGot (calls (gsMux s) ! i)))
         (filter (\<lambda>m. rpcId m = cId (calls (gsMux s) ! i)) (svQueued (gsSrv s))))"
proof (intro conjI allI impI)
  let ?v = "gsSrv s"
  note inv = gsi.reach_inv[OF assms(1)]
  fix r assume r: "r < length (svStreams ?v)"
  have "objs_inv (svHd ?v) (svStreams ?v) (svRouted ?v) (svGot ?v)"
    using inv by (simp add: goat_inv_def server_inv_def serve_inv_def)
  from objs_inv_ok[OF this r] have ok: "of_conn r (svRouted ?v) = of_conn r (svGot ?v) @ buf (shCh (hdObjs (svHd ?v) ! r))"
    "\<forall>m \<in> set (of_conn r (svRouted ?v)). rpcId m = fst (svStreams ?v ! r)" by (auto simp: str_ok_def)
  have "subseq (of_conn r (svRouted ?v)) (gsRead s)"
    using inv subseq_append_left by (auto simp: goat_inv_def flow_ok_def)
  then have "subseq (of_conn r (svGot ?v)) (gsRead s)" unfolding ok(1) by (rule subseq_append_left)
  moreover have "gsSent s = gsRead s @ buf (inQ (gs_wire s))" using gsw.reach_inv[OF assms(1)] by (simp add: wires_inv_def)
  ultimately have "subseq (of_conn r (svGot ?v)) (gsSent s)" by (simp add: subseq_rev_drop_many)
  from with_id_subseq[OF this, of "fst (svStreams ?v ! r)"] ok
  show "subseq (of_conn r (svGot ?v)) (with_id (fst (svStreams ?v ! r)) (gsSent s))" by (simp add: filter_id_conv)
next
  let ?v = "gsSrv s"
  note inv = gsi.reach_inv[OF assms(1)]
  fix i assume i: "i < length (calls (gsMux s))"
  let ?k = "calls (gsMux s) ! i"
  have "subseq (filter (\<lambda>m. rpcReset m = None) (gsBack s)) (svWritten ?v)" using inv by (simp add: goat_inv_def back_ok_def)
  moreover have "\<exists>xs. svQueued ?v = svWritten ?v @ xs" using inv by (auto simp: goat_inv_def server_inv_def writer_inv_def)
  ultimately have "subseq (filter (\<lambda>m. rpcReset m = None) (gsBack s)) (svQueued ?v)" by (auto simp: subseq_rev_drop_many)
  from with_id_subseq[OF this, of "cId ?k"]
  have "subseq (filter (\<lambda>m. rpcReset m = None) (with_id (cId ?k) (gsBack s))) (with_id (cId ?k) (svQueued ?v))"
    by (simp add: conj_commute)
  with subseq_filter[OF got_subseq[OF assms i], of "\<lambda>m. rpcReset m = None"]
  show "subseq (filter (\<lambda>m. rpcReset m = None) (cGot ?k)) (with_id (cId ?k) (svQueued ?v))"
    by (rule subseq_order.trans)
qed

section \<open>A run\<close>

text \<open>One unary call, from its start to the receipt of the answer.\<close>

definition demo_gs ::
  "mux_sys \<Rightarrow> (bytes, unit, chan_rw) serve_sys \<Rightarrow> Rpc list \<Rightarrow> Rpc list \<Rightarrow> Rpc list \<Rightarrow> Rpc list \<Rightarrow> (bytes, unit) goat_sys" where
  "demo_gs m v sent rd bk sn = \<lparr>gsMux = m, gsSrv = v, gsSent = sent, gsRead = rd, gsBack = bk, gsSeen = sn\<rparr>"

abbreviation demo_goat where
  "demo_goat \<equiv> goat_step sample_env sample_codec (\<lambda>i m ctx. ctx) demo_srv 0 (header_of [] [] [] [])"

abbreviation demo_goat_reach where
  "demo_goat_reach \<equiv> reach (goat_init demo_srv) demo_goat"

abbreviation demo_mux where
  "demo_mux \<equiv> mux_step sample_env 0 (header_of [] [] [] [])"

abbreviation demo_conn where
  "demo_conn \<equiv> serve_step sample_env sample_codec (\<lambda>i m ctx. ctx) (goc_write True) demo_srv"

lemma demo_client:
  assumes "demo_goat_reach (demo_gs m v a b c d)" "demo_mux m m'" "mux_local m m'"
  shows "demo_goat_reach (demo_gs m' v a b c d)"
proof -
  have "demo_goat (demo_gs m v a b c d) ((demo_gs m v a b c d)\<lparr>gsMux := m'\<rparr>)"
    by (rule gs_client) (use assms in \<open>simp_all add: demo_gs_def\<close>)
  from reach_step[OF assms(1) this] show ?thesis by (simp add: demo_gs_def)
qed

lemma demo_server:
  assumes "demo_goat_reach (demo_gs m v a b c d)" "demo_conn v v'" "serve_local v v'"
    and "buf (outQ (svWire v')) = buf (outQ (svWire v)) @ new"
  shows "demo_goat_reach (demo_gs m v' a b (c @ new) d)"
proof -
  let ?s = "demo_gs m v a b c d"
  have "demo_goat ?s (?s\<lparr>gsSrv := v', gsBack := gsBack ?s @ drop (length (buf (outQ (gs_wire ?s)))) (buf (outQ (svWire v')))\<rparr>)"
    by (rule gs_server[where pick = True]) (use assms in \<open>simp_all add: demo_gs_def\<close>)
  from reach_step[OF assms(1) this] assms(4) show ?thesis by (simp add: demo_gs_def)
qed

definition demo_rq :: Rpc where
  "demo_rq = call_request 1 (header_of ''/svc/Echo'' ''c'' ''s'' []) \<lparr>bData = Some [1]\<rparr>"

definition demo_w :: "Rpc list \<Rightarrow> Rpc list \<Rightarrow> chan_rw" where
  "demo_w up down = NewGoatOverChannel ((make_chan 1)\<lparr>buf := up\<rparr>) ((make_chan 1)\<lparr>buf := down\<rparr>)"

lemma demo_w_sel [simp]: "buf (inQ (demo_w up down)) = up" "buf (outQ (demo_w up down)) = down"
  by (simp_all add: demo_w_def NewGoatOverChannel_def)

definition demo_sv ::
  "(bytes, unit) main_pc \<Rightarrow> writer_pc \<Rightarrow> (bytes, unit) worker_pc \<Rightarrow> chan_rw \<Rightarrow> trace \<Rightarrow> Rpc list \<Rightarrow> Rpc list \<Rightarrow> Rpc list \<Rightarrow>
   (bytes, unit, chan_rw) serve_sys" where
  "demo_sv pc wpc wk w tr cl q wn =
     \<lparr>svMain = pc, svHd = newHandler demo_srv, svClientCtx = Background, svWriter = wpc,
      svWorkers = wk # replicate 7 WorkerIdle, svStreams = [], svWire = w, svTrace = tr, svRouted = [], svGot = [],
      svQueued = q, svWritten = wn, svCalls = cl, svReplied = q, svResult = None\<rparr>"

abbreviation demo_idle where
  "demo_idle w \<equiv> demo_sv ServeRead WriterIdle WorkerIdle w [] [] [] []"

lemmas gs_simps = demo_simps mux_local_def demo_sv_def serve_local_def

lemma demo_goat_start: "demo_goat_reach (demo_gs \<lparr>rm = NewRpcMultiplexer, calls = [], reader = RRead, log = []\<rparr> (demo_idle (demo_w [] [])) [] [] [] [])"
proof (rule reach_init)
  have "serve_start (\<lambda>i ctx. ctx) demo_srv Background (NewGoatOverChannel (make_chan 1) (make_chan 1)) = demo_idle (demo_w [] [])"
    by (simp add: serve_start_def serve_begin_def demo_srv_def NewServer_def demo_sv_def numRpcWorkers_def demo_w_def
        make_chan_def replicate_app_Cons_same eval_nat_numeral)
  then show "goat_init demo_srv (demo_gs \<lparr>rm = NewRpcMultiplexer, calls = [], reader = RRead, log = []\<rparr> (demo_idle (demo_w [] [])) [] [] [] [])"
    unfolding goat_init_def demo_gs_def mux_init_def by (simp, metis)
qed

lemma demo_goat_write:
  "demo_goat_reach (demo_gs (demo [1 \<mapsto> 0] [make_chan 1] 1 (demo_call True PWrite) RRead []) (demo_idle (demo_w [] [])) [] [] [] [])"
proof -
  let ?R = "\<lambda>m. demo_goat_reach (demo_gs m (demo_idle (demo_w [] [])) [] [] [] [])"
  from demo_client[OF demo_goat_start mux_step.spawn[of _ _ _ _ True]]
  have "?R (demo Map.empty [] 0 (new_call True) RRead [])" by (simp add: gs_simps NewRpcMultiplexer_def)
  from demo_client[OF this mux_step.check_ok[of _ 0]]
  have "?R (demo Map.empty [] 0 ((new_call True)\<lparr>cPc := PAlloc\<rparr>) RRead [])" by (simp add: gs_simps)
  from demo_client[OF this mux_step.alloc[of _ 0 1 0]]
  have "?R (demo Map.empty [make_chan 1] 1 (demo_call True PRegister) RRead [])" by (simp add: gs_simps)
  from demo_client[OF this mux_step.register[of _ 0 0]] show ?thesis by (simp add: gs_simps)
qed

abbreviation demo_m where
  "demo_m cs k rd lg \<equiv> demo [1 \<mapsto> 0] cs 1 k rd lg"

lemma demo_goat_sent:
  "demo_goat_reach (demo_gs (demo_m [make_chan 1] (demo_call True PWait) RRead []) (demo_idle (demo_w [demo_rq] [])) [demo_rq] [] [] [])"
proof -
  let ?s = "demo_gs (demo_m [make_chan 1] (demo_call True PWrite) RRead []) (demo_idle (demo_w [] [])) [] [] [] []"
  have "demo_goat ?s (set_wire (peer_end (peer_end (demo_w [demo_rq] [])))
      (?s\<lparr>gsMux := upd_call 0 (\<lambda>k. k\<lparr>cPc := PWait\<rparr>) (gsMux ?s), gsSent := gsSent ?s @ [demo_rq]\<rparr>))"
    by (rule gs_call_write[where pick = True and ctx = Background and h = "header_of ''/svc/Echo'' ''c'' ''s'' []" and b = "\<lparr>bData = Some [1]\<rparr>"])
      (simp_all add: gs_simps demo_gs_def demo_rq_def goc_write_def peer_end_def NewGoatOverChannel_def demo_w_def on_done_def
        Background_def make_chan_def)
  with demo_goat_write have "demo_goat_reach (set_wire (peer_end (peer_end (demo_w [demo_rq] [])))
      (?s\<lparr>gsMux := upd_call 0 (\<lambda>k. k\<lparr>cPc := PWait\<rparr>) (gsMux ?s), gsSent := gsSent ?s @ [demo_rq]\<rparr>))" by (rule reach_step)
  then show ?thesis by (simp add: gs_simps demo_gs_def)
qed

lemma demo_rq_dispatch: "\<exists>si. serve_dispatch demo_srv demo_rq = Unary si demo_method"
proof -
  have "parseRawMethod ''/svc/Echo'' = Inr (''svc'', ''Echo'')" by code_simp
  then show ?thesis
    by (simp add: serve_dispatch_def demo_srv_def demo_rq_def call_request_def NewServer_def)
qed

lemma demo_rq_answer:
  "\<exists>resp tr. processUnaryRpc sample_env sample_codec (\<lambda>i m ctx. ctx) 0 demo_srv Background si demo_method demo_rq = Ret (resp, tr)"
  by (simp add: processUnaryRpc_def demo_rq_def call_request_def contextFromHeaders_def demo_method_def Let_def demo_srv_def
      NewServer_def StatsStartServerRPC_def unary_dec_def GetData_def sample_codec_def split: sum.splits)

lemma demo_goat_answered:
  "\<exists>resp tr. rpcId resp = 1 \<and>
     demo_goat_reach (demo_gs (demo_m [make_chan 1] (demo_call True PWait) RRead [])
       (demo_sv ServeRead WriterIdle WorkerIdle (demo_w [] [resp]) tr [demo_rq] [resp] [resp]) [demo_rq] [demo_rq] [resp] [])"
proof -
  let ?m = "demo_m [make_chan 1] (demo_call True PWait) RRead []"
  obtain si where si: "serve_dispatch demo_srv demo_rq = Unary si demo_method" using demo_rq_dispatch ..
  obtain resp tr where p: "processUnaryRpc sample_env sample_codec (\<lambda>i m ctx. ctx) 0 demo_srv Background si demo_method demo_rq = Ret (resp, tr)"
    using demo_rq_answer by blast
  let ?R = "\<lambda>v bk. demo_goat_reach (demo_gs ?m v [demo_rq] [demo_rq] bk [])"
  let ?s = "demo_gs ?m (demo_idle (demo_w [demo_rq] [])) [demo_rq] [] [] []"
  have "demo_goat ?s (?s\<lparr>gsSrv := (gsSrv ?s)\<lparr>svWire := demo_w [] [], svMain := serve_read demo_srv demo_rq\<rparr>, gsRead := gsRead ?s @ [demo_rq]\<rparr>)"
    by (rule gs_server_read[where pick = True])
      (simp_all add: demo_gs_def demo_sv_def goc_read_def on_done_def newHandler_def demo_srv_def NewServer_def Background_def
        demo_w_def NewGoatOverChannel_def chan_recv_def make_chan_def)
  with demo_goat_sent have "demo_goat_reach
      (?s\<lparr>gsSrv := (gsSrv ?s)\<lparr>svWire := demo_w [] [], svMain := serve_read demo_srv demo_rq\<rparr>, gsRead := gsRead ?s @ [demo_rq]\<rparr>)" by (rule reach_step)
  then have 1: "?R (demo_sv (ServeUnary si demo_method demo_rq) WriterIdle WorkerIdle (demo_w [] []) [] [] [] []) []"
    by (simp add: demo_gs_def demo_sv_def serve_read_def si)
  from demo_server[OF 1 sv_unary_send[of _ si demo_method demo_rq 0], of "[]"]
  have 2: "?R (demo_sv ServeRead WriterIdle (WorkerBusy si demo_method demo_rq) (demo_w [] []) [] [demo_rq] [] []) []"
    by (simp add: demo_sv_def serve_local_def)
  from demo_server[OF 2 sv_worker[of 0 _ si demo_method demo_rq _ _ _ 0 _ resp tr], of "[]"] p
  have 3: "?R (demo_sv ServeRead WriterIdle (WorkerSend resp) (demo_w [] []) tr [demo_rq] [] []) []"
    by (simp add: demo_sv_def serve_local_def)
  have "chan_send (write_chan WriterIdle) resp = Ret ((write_chan WriterIdle)\<lparr>buf := [resp]\<rparr>)"
    by (simp add: write_chan_def chan_send_def)
  with demo_server[OF 3 sv_worker_send[of 0 _ resp "(write_chan WriterIdle)\<lparr>buf := [resp]\<rparr>"], of "[]"]
  have 4: "?R (demo_sv ServeRead (WriterBusy resp) WorkerIdle (demo_w [] []) tr [demo_rq] [resp] []) []"
    by (simp add: demo_sv_def serve_local_def writer_after_def)
  have w: "goc_write True (hdCtx (newHandler demo_srv)) resp (demo_w [] []) = Ret (None, demo_w [] [resp])"
    by (simp add: goc_write_def demo_w_def NewGoatOverChannel_def on_done_def newHandler_def demo_srv_def NewServer_def
        Background_def chan_send_def make_chan_def)
  from demo_server[OF 4 sv_write[of _ resp _ None "demo_w [] [resp]"], of "[resp]"] w
  have "?R (demo_sv ServeRead WriterIdle WorkerIdle (demo_w [] [resp]) tr [demo_rq] [resp] [resp]) [resp]"
    by (simp add: demo_sv_def serve_local_def)
  moreover have "rpcId resp = 1" using processUnaryRpc_id[OF p] by (simp add: demo_rq_def call_request_def)
  ultimately show ?thesis by blast
qed

lemma demo_goat_received:
  "\<exists>s resp. demo_goat_reach s \<and> calls (gsMux s) = [(demo_call True PUnregister)\<lparr>cGot := [resp], cRes := cRes (calls (gsMux s) ! 0)\<rparr>] \<and>
     chans (rm (gsMux s)) = [make_chan 1] \<and> gsSent s = [demo_rq] \<and> svQueued (gsSrv s) = [resp] \<and> svStreams (gsSrv s) = []"
proof -
  obtain resp tr where id: "rpcId resp = 1" and r: "demo_goat_reach (demo_gs (demo_m [make_chan 1] (demo_call True PWait) RRead [])
       (demo_sv ServeRead WriterIdle WorkerIdle (demo_w [] [resp]) tr [demo_rq] [resp] [resp]) [demo_rq] [demo_rq] [resp] [])"
    (is "demo_goat_reach ?s") using demo_goat_answered by blast
  let ?v = "demo_sv ServeRead WriterIdle WorkerIdle (demo_w [] []) tr [demo_rq] [resp] [resp]"
  let ?R = "\<lambda>m. demo_goat_reach (demo_gs m ?v [demo_rq] [demo_rq] [resp] [resp])"
  have "demo_goat ?s (set_wire (peer_end (peer_end (demo_w [] []))) (?s\<lparr>gsMux := (gsMux ?s)\<lparr>reader := RGot resp\<rparr>, gsSeen := gsSeen ?s @ [resp]\<rparr>))"
    by (rule gs_client_read[where pick = True and ctx = Background])
      (simp_all add: demo_gs_def demo_sv_def demo_def goc_read_def on_done_def Background_def demo_w_def peer_end_def
        NewGoatOverChannel_def chan_recv_def make_chan_def)
  with r have "demo_goat_reach (set_wire (peer_end (peer_end (demo_w [] []))) (?s\<lparr>gsMux := (gsMux ?s)\<lparr>reader := RGot resp\<rparr>, gsSeen := gsSeen ?s @ [resp]\<rparr>))"
    by (rule reach_step)
  then have "?R (demo_m [make_chan 1] (demo_call True PWait) (RGot resp) [])"
    by (simp add: demo_gs_def demo_sv_def demo_def)
  from demo_client[OF this mux_step.lock[of _ resp]]
  have "?R (demo_m [make_chan 1] (demo_call True PWait) (RDeliver resp) [])" by (simp add: demo_def mux_local_def at_pc_def demo_call_def)
  from demo_client[OF this mux_step.deliver[of _ resp]] id
  have d: "?R (demo_m [(make_chan 1)\<lparr>buf := [resp]\<rparr>] (demo_call True PWait) RRead [resp])"
    by (simp add: gs_simps)
  obtain x y where u: "unary_reply sample_env 0 (header_of [] [] [] []) resp = Ret (x, y)"
    using unary_reply_Panic_iff[of sample_env 0 "header_of [] [] [] []" resp]
    by (cases "unary_reply sample_env 0 (header_of [] [] [] []) resp") auto
  have "chan_recv ((make_chan 1)\<lparr>buf := [resp]\<rparr>) = Ret (Some resp, make_chan 1)"
    by (simp add: chan_recv_def make_chan_def)
  with demo_client[OF d mux_step.recv_unary[of _ 0 0 resp "make_chan 1" _ _ _ x y]] u
  have "?R (demo_m [make_chan 1] ((demo_call True PUnregister)\<lparr>cGot := [resp], cRes := Some x\<rparr>) RRead [resp])"
    by (simp add: gs_simps)
  then show ?thesis by (intro exI[of _ "demo_gs _ _ _ _ _ _"] exI[of _ resp] conjI) (assumption, simp_all add: demo_gs_def demo_def demo_sv_def)
qed

theorem system_unary_witness:
  "\<exists>s resp. demo_goat_reach s \<and> cGot (calls (gsMux s) ! 0) = [resp] \<and>
     answers sample_env sample_codec (\<lambda>i m ctx. ctx) demo_srv demo_rq resp"
proof -
  obtain s resp where r: "demo_goat_reach s" and k: "calls (gsMux s) = [(demo_call True PUnregister)\<lparr>cGot := [resp], cRes := cRes (calls (gsMux s) ! 0)\<rparr>]"
    and c: "chans (rm (gsMux s)) = [make_chan 1]" "gsSent s = [demo_rq]" using demo_goat_received by blast
  have "ids_left (rm (gsMux s))" by (simp add: ids_left_def c)
  moreover have "unary_req demo_srv demo_rq" using demo_rq_dispatch by (auto simp: unary_req_def)
  moreover have g: "0 < length (calls (gsMux s))" "cUnary (calls (gsMux s) ! 0)" "cRef (calls (gsMux s) ! 0) \<noteq> None"
    "cId (calls (gsMux s) ! 0) = rpcId demo_rq" "cGot (calls (gsMux s) ! 0) = [resp]"
    by (subst k, simp add: demo_call_def demo_rq_def call_request_def)+
  ultimately show ?thesis using system_unary[OF r, of 0] c(2) r by auto
qed

theorem system_stream_order_witness:
  "\<exists>s resp. demo_goat_reach s \<and>
     subseq (filter (\<lambda>m. rpcReset m = None) [resp]) (filter (\<lambda>m. rpcId m = 1) (svQueued (gsSrv s)))"
proof -
  obtain s resp where r: "demo_goat_reach s" and k: "calls (gsMux s) = [(demo_call True PUnregister)\<lparr>cGot := [resp], cRes := cRes (calls (gsMux s) ! 0)\<rparr>]"
    and c: "chans (rm (gsMux s)) = [make_chan 1]" using demo_goat_received by blast
  have "ids_left (rm (gsMux s))" by (simp add: ids_left_def c)
  moreover have "0 < length (calls (gsMux s))" "cId (calls (gsMux s) ! 0) = 1" "cGot (calls (gsMux s) ! 0) = [resp]"
    by (subst k, simp add: demo_call_def)+
  ultimately have "subseq (filter (\<lambda>m. rpcReset m = None) [resp]) (filter (\<lambda>m. rpcId m = 1) (svQueued (gsSrv s)))"
    using system_stream_order[OF r] by fastforce
  with r show ?thesis by blast
qed

end
