(* ===== verification/Goat_Example.thy ===== *)
theory Goat_Example
  imports Goat_Unary Goat_Serve
begin

text \<open>
  The example program, \<^verbatim>\<open>cmd/e2e-websocket-test/main.go\<close>: the handlers of its test service, its interceptors, its
  websocket acceptor and the server it sets up, with the service description and handler stubs of
  \<^verbatim>\<open>gen/testproto/test_grpc.pb.go\<close> it registers. The generated stubs wrap a stream in \<^verbatim>\<open>grpc.GenericServerStream\<close>
  of the gRPC library: its methods are the record \<open>stream_ops\<close>, and \<open>delegates\<close> states that they call the wrapped
  stream. What the handlers rely on is the locale \<open>msg_stream\<close>, interpreted on the streams of \<^verbatim>\<open>Goat_Server_Stream\<close>
  over a channel transport.
\<close>

section \<open>Messages and library functions\<close>

record Msg =
  mValue :: i32

text \<open>\<^verbatim>\<open>metadata.Pairs\<close>, \<^verbatim>\<open>metadata.New\<close> (on the entries of its map), \<^verbatim>\<open>grpc.SetTrailer\<close> and \<^verbatim>\<open>grpc.SetHeader\<close>.\<close>

record grpc_pkg =
  mdPairs :: "string list \<Rightarrow> MD"
  mdNew :: "(string \<times> string) list \<Rightarrow> MD"
  gSetTrailer :: "Context \<Rightarrow> MD \<Rightarrow> unaryServerTransportStream \<Rightarrow> gerr option \<times> unaryServerTransportStream"
  gSetHeader :: "Context \<Rightarrow> MD \<Rightarrow> unaryServerTransportStream \<Rightarrow> gerr option \<times> unaryServerTransportStream"

text \<open>The documented behaviour: keys are converted to lower case and a key's values kept in order; the setters call
  the transport stream of the context.\<close>

definition md_of :: "env \<Rightarrow> (string \<times> string) list \<Rightarrow> MD" where
  "md_of env kvs k =
     (case map snd (filter (\<lambda>kv. ToLower (uniLower env) (fst kv) = k) kvs) of [] \<Rightarrow> None | v # vs \<Rightarrow> Some (v # vs))"

definition grpc_ok :: "env \<Rightarrow> grpc_pkg \<Rightarrow> bool" where
  "grpc_ok env pk \<longleftrightarrow>
     (\<forall>kvs. mdPairs pk (concat (map (\<lambda>(k, v). [k, v]) kvs)) = md_of env kvs) \<and>
     (\<forall>kvs. distinct (map fst kvs) \<longrightarrow> mdNew pk kvs = md_of env kvs) \<and>
     (\<forall>ctx md sts. gSetTrailer pk ctx md sts = (None, ut_SetTrailer env md sts)) \<and>
     (\<forall>ctx md sts. gSetHeader pk ctx md sts = ut_SetHeader env md sts)"

text \<open>The methods of \<^verbatim>\<open>grpc.GenericServerStream[Msg, Msg]\<close> over a server stream.\<close>

record 't stream_ops =
  Recv :: "serverStream \<times> 't \<Rightarrow> ((gerr + Msg) \<times> serverStream \<times> 't) go"
  Send :: "Msg \<Rightarrow> serverStream \<times> 't \<Rightarrow> (gerr option \<times> serverStream \<times> 't) go"
  SendAndClose :: "Msg \<Rightarrow> serverStream \<times> 't \<Rightarrow> (gerr option \<times> serverStream \<times> 't) go"

text \<open>A \<^verbatim>\<open>RecvMsg\<close> that returns nil without having decoded leaves the new message, the zero one.\<close>

definition recv_result :: "gerr option \<times> Msg option \<Rightarrow> gerr + Msg" where
  "recv_result r =
     (case r of (Some e, _) \<Rightarrow> Inl e | (None, Some m) \<Rightarrow> Inr m | (None, None) \<Rightarrow> Inr \<lparr>mValue = 0\<rparr>)"

definition delegates :: "env \<Rightarrow> Msg codec \<Rightarrow> 't rpc_read \<Rightarrow> 't rpc_write \<Rightarrow> 't stream_ops \<Rightarrow> bool" where
  "delegates env cd rd wr so \<longleftrightarrow>
     (\<forall>st. Recv so st = go_bind (ss_RecvMsg env cd rd st) (\<lambda>(r, st1). Ret (recv_result r, st1))) \<and>
     (\<forall>m st. Send so m st = ss_SendMsg env cd wr m st) \<and>
     (\<forall>m st. SendAndClose so m st = ss_SendMsg env cd wr m st)"

section \<open>The test service\<close>

text \<open>The loop \<^verbatim>\<open>for i := 0; i < int(msg.Value); i++\<close> that sends \<open>i\<close>; what \<^verbatim>\<open>Send\<close> returns is not looked at.\<close>

fun send_count :: "(Msg \<Rightarrow> 's \<Rightarrow> (gerr option \<times> 's) go) \<Rightarrow> nat \<Rightarrow> nat \<Rightarrow> 's \<Rightarrow> 's go" where
  "send_count tx i 0 st = Ret st"
| "send_count tx i (Suc n) st =
     go_bind (tx \<lparr>mValue = of_nat i\<rparr> st) (\<lambda>(err, st1). send_count tx (Suc i) n st1)"

definition send_values :: "(Msg \<Rightarrow> 's \<Rightarrow> (gerr option \<times> 's) go) \<Rightarrow> Msg \<Rightarrow> 's \<Rightarrow> 's go" where
  "send_values tx msg st = send_count tx 0 (nat (sint (mValue msg))) st"

text \<open>The receive loops run until \<^verbatim>\<open>Recv\<close> fails; a loop that never ends is \<open>None\<close>.\<close>

partial_function (option) BidiStream_loop ::
  "('s \<Rightarrow> ((gerr + Msg) \<times> 's) go) \<Rightarrow> (Msg \<Rightarrow> 's \<Rightarrow> (gerr option \<times> 's) go) \<Rightarrow> 's \<Rightarrow> (gerr option \<times> 's) go option" where
  "BidiStream_loop rx tx st =
     (case rx st of
        Panic \<Rightarrow> Some Panic
      | Block \<Rightarrow> Some Block
      | Ret (res, st1) \<Rightarrow>
          (case res of
             Inl err \<Rightarrow> Some (Ret (None, st1))
           | Inr msg \<Rightarrow>
               (case send_values tx msg st1 of
                  Panic \<Rightarrow> Some Panic
                | Block \<Rightarrow> Some Block
                | Ret st2 \<Rightarrow> BidiStream_loop rx tx st2)))"

text \<open>\<^verbatim>\<open>count\<close> is a 64-bit \<^verbatim>\<open>int\<close>; \<^verbatim>\<open>int(msg.Value)\<close> extends the sign, \<^verbatim>\<open>int32(count)\<close> truncates.\<close>

partial_function (option) ClientStream_loop ::
  "('s \<Rightarrow> ((gerr + Msg) \<times> 's) go) \<Rightarrow> i64 \<Rightarrow> 's \<Rightarrow> (i64 \<times> 's) go option" where
  "ClientStream_loop rx cnt st =
     (case rx st of
        Panic \<Rightarrow> Some Panic
      | Block \<Rightarrow> Some Block
      | Ret (res, st1) \<Rightarrow>
          (case res of
             Inl err \<Rightarrow> Some (Ret (cnt, st1))
           | Inr msg \<Rightarrow> ClientStream_loop rx (cnt + scast (mValue msg)) st1))"

text \<open>A handler that never returns blocks its goroutine.\<close>

definition returns :: "'a go option \<Rightarrow> 'a go" where
  "returns r = (case r of None \<Rightarrow> Block | Some g \<Rightarrow> g)"

definition BidiStream :: "'t stream_ops \<Rightarrow> serverStream \<times> 't \<Rightarrow> (gerr option \<times> serverStream \<times> 't) go" where
  "BidiStream so st = returns (BidiStream_loop (Recv so) (Send so) st)"

definition ClientStream :: "'t stream_ops \<Rightarrow> serverStream \<times> 't \<Rightarrow> (gerr option \<times> serverStream \<times> 't) go" where
  "ClientStream so st =
     go_bind (returns (ClientStream_loop (Recv so) 0 st)) (\<lambda>(cnt, st1).
       go_bind (SendAndClose so \<lparr>mValue = ucast cnt\<rparr> st1) (\<lambda>(err, st2). Ret (None, st2)))"

definition ServerStream ::
  "grpc_pkg \<Rightarrow> 't stream_ops \<Rightarrow> Msg \<Rightarrow> serverStream \<times> 't \<Rightarrow> (gerr option \<times> serverStream \<times> 't) go" where
  "ServerStream pk so msg st =
     go_bind (send_values (Send so) msg st) (\<lambda>(ss, t).
       Ret (None, ss_SetTrailer (mdNew pk [(''FOOO'', ''bar'')]) ss, t))"

text \<open>\<open>timer d\<close> tells whether the timer of duration \<open>d\<close> has fired.\<close>

definition ServerStreamThatSleeps ::
  "bool \<Rightarrow> (i64 \<Rightarrow> bool) \<Rightarrow> Msg \<Rightarrow> serverStream \<times> 't \<Rightarrow> (gerr option \<times> serverStream \<times> 't) go" where
  "ServerStreamThatSleeps pick timer msg st =
     select2 pick
       (if timer (10 ^ 9 * scast (mValue msg)) then Ret (None, st) else Block)
       (on_done (ss_Context (fst st)) (\<lambda>e. (None, st)))"

text \<open>\<open>stamp\<close> is \<^verbatim>\<open>time.Now().String()\<close>.\<close>

definition ex_Unary ::
  "grpc_pkg \<Rightarrow> string \<Rightarrow> Context \<Rightarrow> Msg \<Rightarrow> unaryServerTransportStream \<Rightarrow>
   ((Msg option \<times> gerr option) \<times> unaryServerTransportStream) go" where
  "ex_Unary pk stamp ctx m sts =
     (let trailer = mdPairs pk [''timestamp'', stamp, ''foo'', ''bar'', ''input'', format_d (sint (mValue m))];
          (e1, sts1) = gSetTrailer pk ctx trailer sts;
          header = mdPairs pk [''foo'', ''baz''];
          (e2, sts2) = gSetHeader pk ctx header sts1
      in Ret ((Some \<lparr>mValue = mValue m * 2\<rparr>, None), sts2))"

section \<open>The generated service description\<close>

definition TestService_Unary_FullMethodName :: string where
  "TestService_Unary_FullMethodName = ''/grpcwebsockets.TestService/Unary''"

text \<open>The stub decodes the request, then calls the method, through the interceptor when there is one.\<close>

definition TestService_Unary_Handler ::
  "(Context \<Rightarrow> Msg \<Rightarrow> unaryServerTransportStream \<Rightarrow> ((Msg option \<times> gerr option) \<times> unaryServerTransportStream) go) \<Rightarrow>
   Msg unary_icpt option \<Rightarrow> (gerr + Msg, unaryServerTransportStream, Msg unary_out) UnaryHandler" where
  "TestService_Unary_Handler impl interceptor ctx req sts =
     (let handler = (\<lambda>ctx req sts. case req of
            Inl e \<Rightarrow> Panic
          | Inr m \<Rightarrow> go_bind (impl ctx m sts) (\<lambda>((resp, err), sts1). Ret ((resp, err, 1), sts1)))
      in case req of
           Inl err \<Rightarrow> Ret ((None, Some err, 1), sts)
         | Inr m \<Rightarrow>
             (case interceptor of
                None \<Rightarrow> handler ctx (Inr m) sts
              | Some i \<Rightarrow> i ctx (Inr m) TestService_Unary_FullMethodName handler sts))"

text \<open>The stubs of the streams with a single request receive it first.\<close>

definition recv_first ::
  "(serverStream \<times> 't \<Rightarrow> ((gerr option \<times> Msg option) \<times> serverStream \<times> 't) go) \<Rightarrow>
   (Msg \<Rightarrow> serverStream \<times> 't \<Rightarrow> (gerr option \<times> serverStream \<times> 't) go) \<Rightarrow>
   serverStream \<times> 't \<Rightarrow> (gerr option \<times> serverStream \<times> 't) go" where
  "recv_first recvMsg impl st =
     go_bind (recvMsg st) (\<lambda>(r, st1).
       case recv_result r of Inl err \<Rightarrow> Ret (Some err, st1) | Inr m \<Rightarrow> impl m st1)"

definition TestService_ServiceDesc ::
  "grpc_pkg \<Rightarrow> string \<Rightarrow> bool \<Rightarrow> (i64 \<Rightarrow> bool) \<Rightarrow> 't stream_ops \<Rightarrow>
   (serverStream \<times> 't \<Rightarrow> ((gerr option \<times> Msg option) \<times> serverStream \<times> 't) go) \<Rightarrow> (Msg, 't) ServiceDesc" where
  "TestService_ServiceDesc pk stamp pick timer so recvMsg =
     \<lparr>ServiceName = ''grpcwebsockets.TestService'',
      sdMethods = [\<lparr>MethodName = ''Unary'', mdHandler = TestService_Unary_Handler (ex_Unary pk stamp)\<rparr>],
      sdStreams =
        [\<lparr>StreamName = ''BidiStream'', ServerStreams = True, ClientStreams = True, sdHandler = BidiStream so\<rparr>,
         \<lparr>StreamName = ''ServerStream'', ServerStreams = True, ClientStreams = False,
          sdHandler = recv_first recvMsg (ServerStream pk so)\<rparr>,
         \<lparr>StreamName = ''ServerStreamThatSleeps'', ServerStreams = True, ClientStreams = False,
          sdHandler = recv_first recvMsg (ServerStreamThatSleeps pick timer)\<rparr>,
         \<lparr>StreamName = ''ClientStream'', ServerStreams = False, ClientStreams = True, sdHandler = ClientStream so\<rparr>]\<rparr>"

section \<open>The program\<close>

text \<open>The interceptors of \<^verbatim>\<open>main\<close> write a log line and call the handler.\<close>

definition log_unary :: "Msg unary_icpt" where
  "log_unary ctx req info handler s = handler ctx req s"

definition log_stream :: "(serverStream \<times> 't, gerr option) StreamServerInterceptor" where
  "log_stream ss info handler = handler ss"

definition example_server :: "(Msg, 't) ServiceDesc \<Rightarrow> (Msg, 't) Server go" where
  "example_server desc =
     RegisterService True desc (NewServer ''e2e'' [UnaryInterceptor log_unary, StreamInterceptor log_stream])"

text \<open>
  \<open>WebsocketAcceptor\<close>: \<open>acc\<close> is what \<^verbatim>\<open>websocket.Accept\<close> returned, \<open>serve\<close> the error \<^verbatim>\<open>Serve\<close> returns on the connection,
  \<open>closeStatus\<close> \<^verbatim>\<open>websocket.CloseStatus\<close>. It returns the lines it logs and the reason it closes the connection
  with; \<^verbatim>\<open>err.Error()\<close> on a nil error panics.
\<close>

datatype log_line = LogConnected | LogClosed | LogUnexpected "gerr option"

definition WebsocketAcceptor ::
  "env \<Rightarrow> (gerr option \<Rightarrow> int) \<Rightarrow> gerr + 'c \<Rightarrow> ('c \<Rightarrow> gerr option) \<Rightarrow> (log_line list \<times> (int \<times> string) option) go" where
  "WebsocketAcceptor env closeStatus acc serve =
     (case acc of
        Inl err \<Rightarrow> Ret ([], None)
      | Inr c \<Rightarrow>
          let err = serve c;
              line = (if (case err of None \<Rightarrow> False | Some e \<Rightarrow> errors_Is e EOF) \<or> closeStatus err = 1000
                      then LogClosed else LogUnexpected err)
          in case err of
               None \<Rightarrow> Panic
             | Some e \<Rightarrow> Ret ([LogConnected, line], Some (1006, errText env e)))"

section \<open>What the handlers rely on\<close>

text \<open>
  A stream with the messages still to come, those sent, how many more can be sent, and whether the end of the input
  is in sight: then the next message is received, or the end reported when there is none; while there is
  room a message is sent.
\<close>

locale msg_stream =
  fixes rx :: "'s \<Rightarrow> ((gerr + Msg) \<times> 's) go" and tx :: "Msg \<Rightarrow> 's \<Rightarrow> (gerr option \<times> 's) go"
    and inp :: "'s \<Rightarrow> Msg list" and outp :: "'s \<Rightarrow> Msg list" and room :: "'s \<Rightarrow> nat" and ends :: "'s \<Rightarrow> bool"
  assumes rx_msg: "ends s \<Longrightarrow> inp s = m # ms \<Longrightarrow>
      \<exists>s'. rx s = Ret (Inr m, s') \<and> ends s' \<and> inp s' = ms \<and> outp s' = outp s \<and> room s' = room s"
    and rx_end: "ends s \<Longrightarrow> inp s = [] \<Longrightarrow>
      \<exists>e s'. rx s = Ret (Inl e, s') \<and> outp s' = outp s \<and> room s' = room s"
    and tx_msg: "0 < room s \<Longrightarrow>
      \<exists>s'. tx m s = Ret (None, s') \<and> ends s' = ends s \<and> inp s' = inp s \<and> outp s' = outp s @ [m] \<and> room s' = room s - 1"

text \<open>The messages one request is answered with.\<close>

definition counted :: "Msg \<Rightarrow> Msg list" where
  "counted m = map (\<lambda>i. \<lparr>mValue = of_nat i\<rparr>) [0..<nat (sint (mValue m))]"

context msg_stream
begin

lemma send_count_sends:
  "n \<le> room s \<Longrightarrow>
   \<exists>s'. send_count tx i n s = Ret s' \<and> ends s' = ends s \<and> inp s' = inp s \<and>
     outp s' = outp s @ map (\<lambda>j. \<lparr>mValue = of_nat j\<rparr>) [i..<i + n] \<and> room s' = room s - n"
proof (induction n arbitrary: i s)
  case (Suc n)
  then have "0 < room s" by simp
  from tx_msg[OF this, of "\<lparr>mValue = of_nat i\<rparr>"] obtain s1 where
    s1: "tx \<lparr>mValue = of_nat i\<rparr> s = Ret (None, s1)" "ends s1 = ends s" "inp s1 = inp s" "outp s1 = outp s @ [\<lparr>mValue = of_nat i\<rparr>]"
      "room s1 = room s - 1" by blast
  with Suc.prems have "n \<le> room s1" by simp
  from Suc.IH[OF this, of "Suc i"] obtain s2 where
    s2: "send_count tx (Suc i) n s1 = Ret s2" "ends s2 = ends s1" "inp s2 = inp s1"
      "outp s2 = outp s1 @ map (\<lambda>j. \<lparr>mValue = of_nat j\<rparr>) [Suc i..<Suc i + n]" "room s2 = room s1 - n" by blast
  with s1 show ?case by (simp add: upt_conv_Cons del: upt_Suc)
qed simp

lemma send_values_sends:
  assumes "length (counted m) \<le> room s"
  shows "\<exists>s'. send_values tx m s = Ret s' \<and> ends s' = ends s \<and> inp s' = inp s \<and>
     outp s' = outp s @ counted m \<and> room s' = room s - length (counted m)"
  using send_count_sends[of "nat (sint (mValue m))" s 0] assms by (simp add: send_values_def counted_def)

lemma bidi_returns:
  assumes "ends s" and "length (concat (map counted (inp s))) \<le> room s"
  shows "\<exists>s'. BidiStream_loop rx tx s = Some (Ret (None, s')) \<and> outp s' = outp s @ concat (map counted (inp s))"
  using assms
proof (induction "inp s" arbitrary: s)
  case Nil
  from rx_end[OF Nil.prems(1)] Nil.hyps obtain e s' where "rx s = Ret (Inl e, s')" "outp s' = outp s" by auto
  with Nil.hyps show ?case by (subst BidiStream_loop.simps) (auto simp flip: Nil.hyps)
next
  case (Cons m ms)
  from rx_msg[OF Cons.prems(1) Cons.hyps(2)[symmetric]] obtain s1 where
    s1: "rx s = Ret (Inr m, s1)" "ends s1" "inp s1 = ms" "outp s1 = outp s" "room s1 = room s" by blast
  have len: "length (counted m) + length (concat (map counted ms)) \<le> room s" using Cons.prems(2) by (simp flip: Cons.hyps(2))
  then obtain s2 where s2: "send_values tx m s1 = Ret s2" "ends s2" "inp s2 = ms" "outp s2 = outp s1 @ counted m"
    "room s2 = room s1 - length (counted m)" using send_values_sends[of m s1] s1 by auto
  with len s1 have "length (concat (map counted (inp s2))) \<le> room s2" by simp
  from Cons.hyps(1)[OF s2(3)[symmetric] s2(2) this] obtain s' where
    "BidiStream_loop rx tx s2 = Some (Ret (None, s'))" "outp s' = outp s2 @ concat (map counted (inp s2))" by blast
  with s1 s2 show ?case by (subst BidiStream_loop.simps) (simp flip: Cons.hyps(2))
qed

lemma client_returns:
  assumes "ends s"
  shows "\<exists>s'. ClientStream_loop rx c s = Some (Ret (c + sum_list (map (\<lambda>m. scast (mValue m)) (inp s)), s')) \<and>
    outp s' = outp s \<and> room s' = room s"
  using assms
proof (induction "inp s" arbitrary: s c)
  case Nil
  from rx_end[OF Nil.prems] Nil.hyps obtain e s' where "rx s = Ret (Inl e, s')" "outp s' = outp s" "room s' = room s" by auto
  then show ?case by (subst ClientStream_loop.simps) (auto simp flip: Nil.hyps)
next
  case (Cons m ms)
  from rx_msg[OF Cons.prems Cons.hyps(2)[symmetric]] obtain s1 where
    s1: "rx s = Ret (Inr m, s1)" "ends s1" "inp s1 = ms" "outp s1 = outp s" "room s1 = room s" by blast
  from Cons.hyps(1)[OF s1(3)[symmetric] s1(2), of "c + scast (mValue m)"] s1 show ?case
    by (subst ClientStream_loop.simps) (auto simp: add.assoc simp flip: Cons.hyps(2))
qed

end

section \<open>Streams over a channel\<close>

text \<open>The messages on the way in up to the end of the input, whether the end is among them, and those on the way out.\<close>

fun in_msgs :: "Msg codec \<Rightarrow> Rpc list \<Rightarrow> Msg list" where
  "in_msgs cd [] = []"
| "in_msgs cd (r # rs) =
     (if rpcTrailer r \<noteq> None then []
      else (case Unmarshal cd (GetData (rpcBody r)) of Inl e \<Rightarrow> [] | Inr m \<Rightarrow> m # in_msgs cd rs))"

fun in_ends :: "Msg codec \<Rightarrow> Rpc list \<Rightarrow> bool" where
  "in_ends cd [] = False"
| "in_ends cd (r # rs) =
     (if rpcTrailer r \<noteq> None then GetCode (rpcStatus r) = code_OK
      else (case Unmarshal cd (GetData (rpcBody r)) of Inl e \<Rightarrow> True | Inr m \<Rightarrow> in_ends cd rs))"

definition out_msgs :: "Msg codec \<Rightarrow> Rpc list \<Rightarrow> Msg list" where
  "out_msgs cd rs =
     concat (map (\<lambda>r. case rpcBody r of
         None \<Rightarrow> []
       | Some b \<Rightarrow> (case Unmarshal cd (bData b) of Inl e \<Rightarrow> [] | Inr m \<Rightarrow> [m])) rs)"

text \<open>A protobuf message with one number can always be marshalled.\<close>

definition codec_total :: "Msg codec \<Rightarrow> bool" where
  "codec_total cd \<longleftrightarrow> (\<forall>m. \<exists>bs. Marshal cd m = Inr bs)"

definition ch_room :: "Msg codec \<Rightarrow> serverStream \<times> chan_rw \<Rightarrow> nat" where
  "ch_room cd st =
     (case st of (ss, t) \<Rightarrow>
        if ctxErr (ssCtx ss) = None \<and> \<not> closed (outQ t) \<and> codec_law cd \<and> codec_total cd
        then cap (outQ t) + waiting (outQ t) - length (buf (outQ t)) else 0)"

definition ch_ends :: "Msg codec \<Rightarrow> serverStream \<times> chan_rw \<Rightarrow> bool" where
  "ch_ends cd st = (case st of (ss, t) \<Rightarrow> ctxErr (ssCtx ss) = None \<and> in_ends cd (buf (inQ t)))"

definition ch_rx :: "env \<Rightarrow> Msg codec \<Rightarrow> bool \<Rightarrow> serverStream \<times> chan_rw \<Rightarrow> ((gerr + Msg) \<times> serverStream \<times> chan_rw) go" where
  "ch_rx env cd p st = go_bind (ss_RecvMsg env cd (goc_read p) st) (\<lambda>(r, st1). Ret (recv_result r, st1))"

lemma ss_event_ctx [simp]: "ssCtx (ss_event evs ss) = ssCtx ss"
  by (simp add: ss_event_def)

lemma goc_read_live:
  "ctxErr ctx = None \<Longrightarrow> buf (inQ t) = r # rs \<Longrightarrow>
     goc_read p ctx t = Ret (Inr r, t\<lparr>inQ := (inQ t)\<lparr>buf := rs, waiting := waiting (inQ t) - 1\<rparr>\<rparr>)"
  by (simp add: goc_read_def on_done_def chan_recv_def)

lemma ch_rx_head:
  assumes "ctxErr (ssCtx ss) = None" and "buf (inQ t) = r # rs"
  shows "\<exists>t'. inQ t' = (inQ t)\<lparr>buf := rs, waiting := waiting (inQ t) - 1\<rparr> \<and> outQ t' = outQ t \<and>
    (rpcTrailer r \<noteq> None \<and> GetCode (rpcStatus r) = code_OK \<longrightarrow> ch_rx env cd p (ss, t) = Ret (Inl EOF, ss, t')) \<and>
    (rpcTrailer r = None \<longrightarrow> (case Unmarshal cd (GetData (rpcBody r)) of
        Inl e \<Rightarrow> ch_rx env cd p (ss, t) = Ret (Inl e, ss, t')
      | Inr m \<Rightarrow> \<exists>evs. ch_rx env cd p (ss, t) = Ret (Inr m, ss_event evs ss, t')))"
  using goc_read_live[OF assms, of p]
  by (intro exI[of _ "t\<lparr>inQ := (inQ t)\<lparr>buf := rs, waiting := waiting (inQ t) - 1\<rparr>\<rparr>"])
    (auto simp: ch_rx_def ss_RecvMsg_def recv_result_def Let_def split: sum.splits)

interpretation chs: msg_stream "ch_rx env cd p" "ss_SendMsg env cd (goc_write q)"
  "\<lambda>(ss, t). in_msgs cd (buf (inQ t))" "\<lambda>(ss, t). out_msgs cd (buf (outQ t))" "ch_room cd" "ch_ends cd"
  for env cd p q
proof unfold_locales
  fix s :: "serverStream \<times> chan_rw" and m ms
  assume e: "ch_ends cd s" and i: "(case s of (ss, t) \<Rightarrow> in_msgs cd (buf (inQ t))) = m # ms"
  obtain ss t where s: "s = (ss, t)" by (cases s)
  from i s obtain r rs where b: "buf (inQ t) = r # rs" by (cases "buf (inQ t)") auto
  with i s have tr: "rpcTrailer r = None" and u: "Unmarshal cd (GetData (rpcBody r)) = Inr m" and ms: "in_msgs cd rs = ms"
    by (auto split: if_splits sum.splits)
  from e s have c: "ctxErr (ssCtx ss) = None" by (simp add: ch_ends_def)
  from ch_rx_head[OF c b, of env cd p] tr u obtain t' evs where
    "inQ t' = (inQ t)\<lparr>buf := rs, waiting := waiting (inQ t) - 1\<rparr>" "outQ t' = outQ t"
    "ch_rx env cd p (ss, t) = Ret (Inr m, ss_event evs ss, t')" by auto
  with e s b tr u ms show "\<exists>s'. ch_rx env cd p s = Ret (Inr m, s') \<and> ch_ends cd s' \<and>
      (case s' of (ss, t) \<Rightarrow> in_msgs cd (buf (inQ t))) = ms \<and>
      (case s' of (ss, t) \<Rightarrow> out_msgs cd (buf (outQ t))) = (case s of (ss, t) \<Rightarrow> out_msgs cd (buf (outQ t))) \<and>
      ch_room cd s' = ch_room cd s"
    by (intro exI[of _ "(ss_event evs ss, t')"]) (simp add: ch_ends_def ch_room_def)
next
  fix s :: "serverStream \<times> chan_rw"
  assume e: "ch_ends cd s" and i: "(case s of (ss, t) \<Rightarrow> in_msgs cd (buf (inQ t))) = []"
  obtain ss t where s: "s = (ss, t)" by (cases s)
  from e s obtain r rs where b: "buf (inQ t) = r # rs" by (cases "buf (inQ t)") (auto simp: ch_ends_def)
  from e s have c: "ctxErr (ssCtx ss) = None" by (simp add: ch_ends_def)
  have "rpcTrailer r \<noteq> None \<and> GetCode (rpcStatus r) = code_OK \<or>
      rpcTrailer r = None \<and> (\<exists>e. Unmarshal cd (GetData (rpcBody r)) = Inl e)"
    using e i s b by (auto simp: ch_ends_def split: if_splits sum.splits)
  with ch_rx_head[OF c b, of env cd p] have "\<exists>t' e. outQ t' = outQ t \<and> ch_rx env cd p (ss, t) = Ret (Inl e, ss, t')"
    by fastforce
  then obtain t' e where "outQ t' = outQ t" "ch_rx env cd p (ss, t) = Ret (Inl e, ss, t')" by blast
  with s show "\<exists>e s'. ch_rx env cd p s = Ret (Inl e, s') \<and>
      (case s' of (ss, t) \<Rightarrow> out_msgs cd (buf (outQ t))) = (case s of (ss, t) \<Rightarrow> out_msgs cd (buf (outQ t))) \<and>
      ch_room cd s' = ch_room cd s"
    by (intro exI[of _ e] exI[of _ "(ss, t')"]) (simp add: ch_room_def)
next
  fix s :: "serverStream \<times> chan_rw" and m
  assume r: "0 < ch_room cd s"
  obtain ss t where s: "s = (ss, t)" by (cases s)
  from r s have c: "ctxErr (ssCtx ss) = None" "\<not> closed (outQ t)" "codec_law cd"
    "length (buf (outQ t)) < cap (outQ t) + waiting (outQ t)" by (auto simp: ch_room_def split: if_splits)
  from r s obtain bs where bs: "Marshal cd m = Inr bs" by (auto simp: ch_room_def codec_total_def split: if_splits)
  let ?t = "\<lambda>rpc. t\<lparr>outQ := (outQ t)\<lparr>buf := buf (outQ t) @ [rpc]\<rparr>\<rparr>"
  have w: "goc_write q (ssCtx ss) rpc t = Ret (None, ?t rpc)" for rpc
    using c by (simp add: goc_write_def on_done_def chan_send_def)
  then obtain ss' rpc where "ss_SendMsg env cd (goc_write q) m s = Ret (None, ss', ?t rpc)" "ssCtx ss' = ssCtx ss"
    "rpcBody rpc = Some \<lparr>bData = Materialize cd bs\<rparr>"
    using s bs by (simp add: ss_SendMsg_def Let_def)
  with s c codec_lawD[OF c(3) bs] show "\<exists>s'. ss_SendMsg env cd (goc_write q) m s = Ret (None, s') \<and> ch_ends cd s' = ch_ends cd s \<and>
      (case s' of (ss, t) \<Rightarrow> in_msgs cd (buf (inQ t))) = (case s of (ss, t) \<Rightarrow> in_msgs cd (buf (inQ t))) \<and>
      (case s' of (ss, t) \<Rightarrow> out_msgs cd (buf (outQ t))) = (case s of (ss, t) \<Rightarrow> out_msgs cd (buf (outQ t))) @ [m] \<and>
      ch_room cd s' = ch_room cd s - 1"
    by (intro exI[of _ "(ss', ?t rpc)"]) (simp add: ch_ends_def ch_room_def out_msgs_def)
qed

section \<open>Properties\<close>

lemma delegatesD:
  assumes "delegates env cd (goc_read p) (goc_write q) so"
  shows "Recv so = ch_rx env cd p" "Send so = ss_SendMsg env cd (goc_write q)" "SendAndClose so = ss_SendMsg env cd (goc_write q)"
  using assms by (auto simp: delegates_def ch_rx_def fun_eq_iff)

text \<open>The 32-bit sum of the values, through the 64-bit counter.\<close>

lemma ucast_add: "ucast (a + b :: i64) = (ucast a + ucast b :: i32)"
proof -
  have m: "word_of_int (x mod 2 ^ 64) = (word_of_int x :: i32)" for x
    unfolding word_of_int_eq_iff take_bit_eq_mod by (simp add: mod_mod_cancel)
  have "uint (a + b) = (uint a + uint b) mod 2 ^ 64" by (simp add: uint_word_ariths(1))
  then have "ucast (a + b) = (word_of_int (uint a + uint b) :: i32)" unfolding ucast_eq by (simp only: m)
  then show ?thesis unfolding ucast_eq wi_hom_add .
qed

lemma ucast_scast: "ucast (scast (x :: i32) :: i64) = x"
  by (rule bit_word_eqI) (simp add: bit_simps)

lemma ucast_sum: "ucast (sum_list (map (\<lambda>m. scast (mValue m)) ms) :: i64) = sum_list (map mValue ms)"
  by (induction ms) (simp_all add: ucast_add ucast_scast)

lemma sum_sint: "sum_list (map mValue ms) = word_of_int (sum_list (map (\<lambda>m. sint (mValue m)) ms))"
  by (induction ms) (simp_all add: wi_hom_add[symmetric])

lemma sint_sum:
  "- (2 ^ 31) \<le> sum_list (map (\<lambda>m. sint (mValue m)) ms) \<Longrightarrow> sum_list (map (\<lambda>m. sint (mValue m)) ms) < 2 ^ 31 \<Longrightarrow>
   sint (sum_list (map mValue ms)) = sum_list (map (\<lambda>m. sint (mValue m)) ms)"
  unfolding sum_sint by (simp add: signed_take_bit_int_eq_self sint_sbintrunc')

text \<open>The longest sleep fits: the multiplication of the duration does not wrap. \<open>ServerStreamThatSleeps\<close> never fails, and
  blocks exactly while its timer runs and its context is live.\<close>

lemma sleep_duration: "sint (10 ^ 9 * scast (x :: i32) :: i64) = 10 ^ 9 * sint x"
proof -
  have "(word_of_int (10 ^ 9) :: i64) = 10 ^ 9" by simp
  then have e: "(10 ^ 9 * scast x :: i64) = word_of_int (10 ^ 9 * sint x)"
    unfolding scast_eq by (simp only: wi_hom_mult[symmetric])
  have "- (2 ^ 31) \<le> sint x" "sint x < 2 ^ 31" using sint_ge[of x] sint_lt[of x] by simp_all
  then have "- (2 ^ 63) \<le> 10 ^ 9 * sint x" "10 ^ 9 * sint x < 2 ^ 63" by simp_all
  then show ?thesis unfolding e by (rule sint_range_id)
qed

lemma sleeps_Block_iff:
  "ServerStreamThatSleeps pick timer msg (ss, t) = Block \<longleftrightarrow>
     \<not> timer (10 ^ 9 * scast (mValue msg)) \<and> \<not> ctx_done (ss_Context ss)"
  by (auto simp: ServerStreamThatSleeps_def ctx_done_def)

text \<open>C27: The example's streams answer what they should, and return: when the client's messages and the end of its
  input are on the channel and there is room for the answers, \<open>BidiStream\<close> returns nil having sent, for each
  message in order, the numbers below its value; \<open>ClientStream\<close> returns nil having sent one message, the
  32-bit sum of the values, which is the sum of the values as integers when that fits.\<close>

theorem example_streams:
  assumes "delegates env cd (goc_read p) (goc_write q) so" and "ch_ends cd (ss, t)" and "0 < ch_room cd (ss, t)"
    and "length (concat (map counted (in_msgs cd (buf (inQ t))))) \<le> ch_room cd (ss, t)"
  shows "(\<exists>ss' t'. BidiStream so (ss, t) = Ret (None, ss', t') \<and>
      out_msgs cd (buf (outQ t')) = out_msgs cd (buf (outQ t)) @ concat (map counted (in_msgs cd (buf (inQ t))))) \<and>
    (\<exists>ss' t' x. ClientStream so (ss, t) = Ret (None, ss', t') \<and>
      out_msgs cd (buf (outQ t')) = out_msgs cd (buf (outQ t)) @ [\<lparr>mValue = x\<rparr>] \<and>
      x = sum_list (map mValue (in_msgs cd (buf (inQ t)))) \<and>
      (- (2 ^ 31) \<le> sum_list (map (\<lambda>m. sint (mValue m)) (in_msgs cd (buf (inQ t)))) \<and>
       sum_list (map (\<lambda>m. sint (mValue m)) (in_msgs cd (buf (inQ t)))) < 2 ^ 31 \<longrightarrow>
         sint x = sum_list (map (\<lambda>m. sint (mValue m)) (in_msgs cd (buf (inQ t))))))"
proof
  note d = delegatesD[OF assms(1)]
  from chs.bidi_returns[OF assms(2), of env p q] assms(4) show "\<exists>ss' t'. BidiStream so (ss, t) = Ret (None, ss', t') \<and>
      out_msgs cd (buf (outQ t')) = out_msgs cd (buf (outQ t)) @ concat (map counted (in_msgs cd (buf (inQ t))))"
    by (auto simp: BidiStream_def returns_def d)
  let ?ms = "in_msgs cd (buf (inQ t))"
  from chs.client_returns[OF assms(2), of env p 0] obtain ss1 t1 where
    l: "ClientStream_loop (ch_rx env cd p) 0 (ss, t) = Some (Ret (sum_list (map (\<lambda>m. scast (mValue m)) ?ms), ss1, t1))"
    and r: "out_msgs cd (buf (outQ t1)) = out_msgs cd (buf (outQ t))" "ch_room cd (ss1, t1) = ch_room cd (ss, t)" by auto
  have "0 < ch_room cd (ss1, t1)" using assms(3) r(2) by simp
  from chs.tx_msg[OF this, of env q "\<lparr>mValue = sum_list (map mValue ?ms)\<rparr>"] obtain ss2 t2 where
    "ss_SendMsg env cd (goc_write q) \<lparr>mValue = sum_list (map mValue ?ms)\<rparr> (ss1, t1) = Ret (None, ss2, t2)"
    "out_msgs cd (buf (outQ t2)) = out_msgs cd (buf (outQ t1)) @ [\<lparr>mValue = sum_list (map mValue ?ms)\<rparr>]" by auto
  with l r(1) sint_sum[of ?ms] show "\<exists>ss' t' x. ClientStream so (ss, t) = Ret (None, ss', t') \<and>
      out_msgs cd (buf (outQ t')) = out_msgs cd (buf (outQ t)) @ [\<lparr>mValue = x\<rparr>] \<and> x = sum_list (map mValue ?ms) \<and>
      (- (2 ^ 31) \<le> sum_list (map (\<lambda>m. sint (mValue m)) ?ms) \<and> sum_list (map (\<lambda>m. sint (mValue m)) ?ms) < 2 ^ 31 \<longrightarrow>
         sint x = sum_list (map (\<lambda>m. sint (mValue m)) ?ms))"
    by (auto simp: ClientStream_def returns_def d ucast_sum)
qed

text \<open>\<open>ServerStream\<close>, through its stub: the numbers below the value of its one request.\<close>

lemma example_server_stream:
  assumes "delegates env cd (goc_read p) (goc_write q) so" and "ch_ends cd (ss, t)"
    and "in_msgs cd (buf (inQ t)) = m # ms" and "length (counted m) \<le> ch_room cd (ss, t)"
  shows "\<exists>ss' t'. recv_first (ss_RecvMsg env cd (goc_read p)) (ServerStream pk so) (ss, t) = Ret (None, ss', t') \<and>
    out_msgs cd (buf (outQ t')) = out_msgs cd (buf (outQ t)) @ counted m"
proof -
  from chs.rx_msg[OF assms(2), of m ms env p] assms(3) obtain ss1 t1 where
    r: "ch_rx env cd p (ss, t) = Ret (Inr m, ss1, t1)" "out_msgs cd (buf (outQ t1)) = out_msgs cd (buf (outQ t))"
      "ch_room cd (ss1, t1) = ch_room cd (ss, t)" by auto
  from chs.send_values_sends[of m cd "(ss1, t1)" env q] assms(4) r(2,3) obtain ss2 t2 where
    "send_values (ss_SendMsg env cd (goc_write q)) m (ss1, t1) = Ret (ss2, t2)"
    "out_msgs cd (buf (outQ t2)) = out_msgs cd (buf (outQ t)) @ counted m" by auto
  with r(1) show ?thesis
    by (auto simp: recv_first_def ServerStream_def delegatesD[OF assms(1)] ch_rx_def go_bind_Ret_iff)
qed

text \<open>The method \<open>Unary\<close>: the doubled value, one header and three trailers.\<close>

lemma md_of_plain:
  assumes "\<forall>kv \<in> set kvs. is_lower_ascii (fst kv)" and "distinct (map fst kvs)"
  shows "md_of env kvs = map_of (map (\<lambda>(k, v). (k, [v])) kvs)"
proof
  fix k
  have "filter (\<lambda>kv. ToLower (uniLower env) (fst kv) = k) kvs = filter (\<lambda>kv. fst kv = k) kvs"
    using assms(1) by (intro filter_cong) simp_all
  then have "md_of env kvs k = (case map snd (filter (\<lambda>kv. fst kv = k) kvs) of [] \<Rightarrow> None | v # vs \<Rightarrow> Some (v # vs))"
    by (simp add: md_of_def)
  also have "\<dots> = map_of (map (\<lambda>(k, v). (k, [v])) kvs) k"
    using assms(2)
  proof (induction kvs)
    case (Cons kv kvs)
    have "fst kv \<notin> fst ` set kvs" using Cons.prems by simp
    then have "filter (\<lambda>x. fst x = fst kv) kvs = []" by (auto simp: filter_empty_conv intro: rev_image_eqI)
    with Cons show ?case by (cases kv) auto
  qed simp
  finally show "md_of env kvs k = map_of (map (\<lambda>(k, v). (k, [v])) kvs) k" .
qed

lemma join_opt_empty: "join_ok env \<Longrightarrow> \<forall>k. md k \<noteq> Some [] \<Longrightarrow> md_join_opt env None md = Some md"
  by (auto simp: md_join_opt_def join_okD fun_eq_iff md_get_def split: option.splits)

lemma ex_Unary_result:
  assumes pk: "grpc_ok env pk" and j: "join_ok env"
  shows "\<exists>sts. ex_Unary pk stamp ctx m (NewUnaryServerTransportStream name) = Ret ((Some \<lparr>mValue = mValue m * 2\<rparr>, None), sts) \<and>
    ut_GetHeaders sts = Some [''foo'' \<mapsto> [''baz'']] \<and>
    ut_GetTrailers sts = Some [''timestamp'' \<mapsto> [stamp], ''foo'' \<mapsto> [''bar''], ''input'' \<mapsto> [format_d (sint (mValue m))]]"
proof -
  have lower: "is_lower_ascii ''timestamp''" "is_lower_ascii ''foo''" "is_lower_ascii ''input''" by code_simp+
  have pairs: "mdPairs pk (concat (map (\<lambda>(k, v). [k, v]) kvs)) = md_of env kvs" for kvs using pk by (simp add: grpc_ok_def)
  have t: "mdPairs pk [''timestamp'', stamp, ''foo'', ''bar'', ''input'', format_d (sint (mValue m))] =
      [''timestamp'' \<mapsto> [stamp], ''foo'' \<mapsto> [''bar''], ''input'' \<mapsto> [format_d (sint (mValue m))]]"
    using pairs[of "[(''timestamp'', stamp), (''foo'', ''bar''), (''input'', format_d (sint (mValue m)))]"] lower
    by (auto simp: md_of_plain fun_eq_iff)
  have h: "mdPairs pk [''foo'', ''baz''] = [''foo'' \<mapsto> [''baz'']]"
    using pairs[of "[(''foo'', ''baz'')]"] lower by (auto simp: md_of_plain fun_eq_iff)
  show ?thesis using pk
    by (simp add: ex_Unary_def t h grpc_ok_def ut_SetTrailer_def ut_SetHeader_def ut_setHeaderLocked_def
        NewUnaryServerTransportStream_def ut_GetHeaders_def ut_GetTrailers_def join_opt_empty[OF j])
qed

definition example_info ::
  "(Msg, 't) ServiceDesc \<Rightarrow> (Msg, 't) serviceInfo" where
  "example_info desc =
     \<lparr>siName = ServiceName desc, siMethods = fold (\<lambda>d m. m(MethodName d \<mapsto> d)) (sdMethods desc) Map.empty,
      siStreams = fold (\<lambda>d m. m(StreamName d \<mapsto> d)) (sdStreams desc) Map.empty\<rparr>"

lemma example_server_Ret:
  assumes "example_server desc = Ret srv"
  shows "services srv = [ServiceName desc \<mapsto> example_info desc]" "srvId srv = ''e2e''" "srvUnary srv = Some log_unary"
    "srvHandlers srv = 0"
  using assms
  by (auto simp: example_server_def RegisterService_def NewServer_def UnaryInterceptor_def StreamInterceptor_def example_info_def)

lemma example_dispatch:
  assumes s: "example_server (TestService_ServiceDesc pk stamp pick timer so recvMsg) = Ret srv"
    and h: "rpcHeader rq = Some h" "hMethod h = TestService_Unary_FullMethodName" "hDestination h = ''e2e''"
  shows "serve_dispatch srv rq = Unary (example_info (TestService_ServiceDesc pk stamp pick timer so recvMsg))
    \<lparr>MethodName = ''Unary'', mdHandler = TestService_Unary_Handler (ex_Unary pk stamp)\<rparr>"
proof -
  have "parseRawMethod TestService_Unary_FullMethodName = Inr (''grpcwebsockets.TestService'', ''Unary'')"
    by code_simp
  then show ?thesis
    using example_server_Ret(1,2)[OF s] h
    by (simp add: serve_dispatch_def example_info_def TestService_ServiceDesc_def)
qed

text \<open>C28: The example's unary method doubles over the wire: a client that calls it through its stub's options gets twice the
  argument, as a 32-bit product, from the server the program sets up: registration succeeds, the request is
  dispatched to the method, which runs behind the logging interceptor.\<close>

theorem example_unary:
  assumes codec: "codec_law cd" and errs: "err_ok env" "from_error_ok env" and pk: "grpc_ok env pk" and j: "join_ok env"
    and args: "Marshal cd m = Inr bs" and resp: "Marshal cd \<lparr>mValue = mValue m * 2\<rparr> = Inr bs'"
    and n: "statsHandlers cc = 0" and dst: "destAddress cc = ''e2e''" and live: "ctxErr ctx = None" and mx: "readErrorIfDone mx = None"
    and sctx: "contextFromHeaders env now' Background
        (header_of TestService_Unary_FullMethodName (sourceAddress cc) ''e2e'' (headersFromContext env now ctx)) = Inr sctx"
  shows "\<exists>srv. example_server (TestService_ServiceDesc pk stamp pick timer so recvMsg) = Ret srv \<and>
    (\<exists>info md. (\<forall>rq hs. rpcHeader rq = Some (header_of TestService_Unary_FullMethodName (sourceAddress cc) ''e2e'' hs) \<longrightarrow>
         serve_dispatch srv rq = Unary info md) \<and>
       (\<exists>tr w'. cc_invoke env cd tag list_write (unary_peer env cd tag' now' srv info md) sel now cc ctx
          TestService_Unary_FullMethodName m [StaticMethodCallOption] (mx, t) = Ret (Inr \<lparr>mValue = mValue m * 2\<rparr>, tr, w')))"
proof -
  let ?desc = "TestService_ServiceDesc pk stamp pick timer so recvMsg"
  let ?md = "\<lparr>MethodName = ''Unary'', mdHandler = TestService_Unary_Handler (ex_Unary pk stamp)\<rparr>"
  obtain srv where s: "example_server ?desc = Ret srv"
    by (auto simp: example_server_def RegisterService_def NewServer_def UnaryInterceptor_def StreamInterceptor_def)
  note srv = example_server_Ret[OF s]
  have d: "serve_dispatch srv rq = Unary (example_info ?desc) ?md"
    if "rpcHeader rq = Some (header_of TestService_Unary_FullMethodName (sourceAddress cc) ''e2e'' hs)" for rq hs
    by (rule example_dispatch[OF s that]) simp_all
  obtain sts where "ex_Unary pk stamp sctx m (NewUnaryServerTransportStream (full_method (siName (example_info ?desc)) (MethodName ?md))) =
      Ret ((Some \<lparr>mValue = mValue m * 2\<rparr>, None), sts)"
    using ex_Unary_result[OF pk j] by blast
  then have h: "mdHandler ?md (srvUnary srv) sctx (Inr m) (NewUnaryServerTransportStream (full_method (siName (example_info ?desc)) (MethodName ?md))) =
      Ret ((Some \<lparr>mValue = mValue m * 2\<rparr>, None, 1), sts)"
    by (simp add: srv(3) TestService_Unary_Handler_def log_unary_def)
  have o: "opts_supported [StaticMethodCallOption]" by (simp add: opts_supported_def)
  have sctx': "contextFromHeaders env now' Background
        (header_of TestService_Unary_FullMethodName (sourceAddress cc) (destAddress cc) (headersFromContext env now ctx)) = Inr sctx"
    using sctx dst by simp
  have "\<exists>tr w'. cc_invoke env cd tag list_write (unary_peer env cd tag' now' srv (example_info ?desc) ?md) sel now cc ctx
      TestService_Unary_FullMethodName m [StaticMethodCallOption] (mx, t) = Ret (Inr \<lparr>mValue = mValue m * 2\<rparr>, tr, w')"
    using unary_call[OF codec errs o args n srv(4) live mx sctx' h, where tag = tag and tag' = tag' and pick = sel and t = t] resp by simp
  with s d show ?thesis by blast
qed

text \<open>C30: The acceptor never panics: whatever happens on a connection, once \<open>Serve\<close> has returned the handler closes the
  websocket with the text of the error it returned, and an end of the transport is logged as a plain close.\<close>

theorem example_acceptor:
  assumes "reach (serve_init srv) (serve_step env cd tag wr srv) s" and "svMain s = ServeReturned"
  shows "\<exists>e line. svResult s = Some e \<and>
    WebsocketAcceptor env closeStatus (Inr c) (\<lambda>c. svResult s) = Ret ([LogConnected, line], Some (1006, errText env e)) \<and>
    (errors_Is e EOF \<longrightarrow> line = LogClosed)"
proof -
  from svr.reach_inv[OF assms(1)] assms(2) obtain e where "svResult s = Some e" by (auto simp: result_inv_def)
  then show ?thesis by (auto simp: WebsocketAcceptor_def Let_def)
qed

section \<open>Instances\<close>

text \<open>A codec for the messages, the library functions and the stream wrapper, with the documented behaviour.\<close>

definition msg_codec :: "Msg codec" where
  "msg_codec =
     \<lparr>Marshal = (\<lambda>m. Inr [be32_bytes (mValue m)]), Materialize = (\<lambda>bs. Some (concat bs)),
      Unmarshal = (\<lambda>d. Inr (case d of None \<Rightarrow> \<lparr>mValue = 0\<rparr> | Some bs \<Rightarrow> \<lparr>mValue = be32_word bs\<rparr>)),
      zeroMsg = \<lparr>mValue = 0\<rparr>\<rparr>"

lemma msg_codec_law [simp]: "codec_law msg_codec" "codec_total msg_codec"
  by (simp_all add: codec_law_def codec_total_def msg_codec_def)

fun pair_up :: "string list \<Rightarrow> (string \<times> string) list" where
  "pair_up (k # v # kvs) = (k, v) # pair_up kvs"
| "pair_up kvs = []"

lemma pair_up_concat [simp]: "pair_up (concat (map (\<lambda>(k, v). [k, v]) kvs)) = kvs"
  by (induction kvs) auto

definition sample_grpc :: grpc_pkg where
  "sample_grpc =
     \<lparr>mdPairs = (\<lambda>kvs. md_of sample_env (pair_up kvs)), mdNew = md_of sample_env,
      gSetTrailer = (\<lambda>ctx md sts. (None, ut_SetTrailer sample_env md sts)),
      gSetHeader = (\<lambda>ctx md sts. ut_SetHeader sample_env md sts)\<rparr>"

lemma sample_grpc_ok [simp]: "grpc_ok sample_env sample_grpc"
  by (simp add: grpc_ok_def sample_grpc_def)

definition sample_ops :: "chan_rw stream_ops" where
  "sample_ops =
     \<lparr>Recv = ch_rx sample_env msg_codec True, Send = ss_SendMsg sample_env msg_codec (goc_write True),
      SendAndClose = ss_SendMsg sample_env msg_codec (goc_write True)\<rparr>"

lemma sample_ops_delegates [simp]: "delegates sample_env msg_codec (goc_read True) (goc_write True) sample_ops"
  by (simp add: delegates_def sample_ops_def ch_rx_def)

definition msg_rpc :: "i32 option \<Rightarrow> Rpc" where
  "msg_rpc v =
     \<lparr>rpcId = 1, rpcHeader = None, rpcStatus = None, rpcBody = map_option (\<lambda>x. \<lparr>bData = Some (be32_bytes x)\<rparr>) v,
      rpcTrailer = (if v = None then Some \<lparr>tMetadata = None\<rparr> else None), rpcReset = None\<rparr>"

theorem example_streams_witness:
  "\<exists>ss' t'. ClientStream sample_ops (NewServerStream Background 1 ''/s/m'' ''a'' ''b'' 0,
       NewGoatOverChannel ((make_chan 3)\<lparr>buf := [msg_rpc (Some 2), msg_rpc (Some (- 1)), msg_rpc None]\<rparr>) (make_chan 4)) = Ret (None, ss', t') \<and>
     out_msgs msg_codec (buf (outQ t')) = [\<lparr>mValue = 1\<rparr>]"
proof -
  let ?ss = "NewServerStream Background 1 ''/s/m'' ''a'' ''b'' 0"
  let ?t = "NewGoatOverChannel ((make_chan 3)\<lparr>buf := [msg_rpc (Some 2), msg_rpc (Some (- 1)), msg_rpc None]\<rparr>) (make_chan 4)"
  have i: "in_msgs msg_codec (buf (inQ ?t)) = [\<lparr>mValue = 2\<rparr>, \<lparr>mValue = - 1\<rparr>]"
    by (simp add: NewGoatOverChannel_def msg_rpc_def msg_codec_def GetData_def)
  have o: "out_msgs msg_codec (buf (outQ ?t)) = []" by (simp add: NewGoatOverChannel_def out_msgs_def)
  have e: "ch_ends msg_codec (?ss, ?t)"
    by (simp add: ch_ends_def NewGoatOverChannel_def msg_rpc_def msg_codec_def GetData_def GetCode_def NewServerStream_def Background_def)
  have r: "ch_room msg_codec (?ss, ?t) = 4"
    by (simp add: ch_room_def NewGoatOverChannel_def NewServerStream_def Background_def)
  then have z: "0 < ch_room msg_codec (?ss, ?t)" by simp
  have l: "length (concat (map counted (in_msgs msg_codec (buf (inQ ?t))))) \<le> ch_room msg_codec (?ss, ?t)"
    unfolding i r by (simp add: counted_def)
  from conjunct2[OF example_streams[OF sample_ops_delegates e z l, unfolded i o]] show ?thesis by auto
qed

theorem example_unary_witness:
  "\<exists>srv info md tr w'. example_server (TestService_ServiceDesc sample_grpc ''now'' True (\<lambda>d. True) sample_ops (\<lambda>st. Block)) = Ret srv \<and>
     cc_invoke sample_env msg_codec (\<lambda>i m ctx. ctx) list_write (unary_peer sample_env msg_codec (\<lambda>i m ctx. ctx) 0 srv info md) True 0
       (fst (NewClientConn ''a'' ''e2e'' [])) Background TestService_Unary_FullMethodName \<lparr>mValue = 21\<rparr> [StaticMethodCallOption]
       (NewRpcMultiplexer, []) = Ret (Inr \<lparr>mValue = 42\<rparr>, tr, w')"
proof -
  have "contextFromHeaders sample_env 0 Background (header_of TestService_Unary_FullMethodName ''a'' ''e2e'' []) =
      Inr (Background\<lparr>ctxIncoming := Some Map.empty\<rparr>)"
    by (simp add: contextFromHeaders_def)
  then show ?thesis
    using example_unary[OF msg_codec_law(1) sample_err_ok sample_from_error_ok sample_grpc_ok sample_join_ok,
        of "\<lparr>mValue = 21\<rparr>" "[be32_bytes 21]" "[be32_bytes 42]" "fst (NewClientConn ''a'' ''e2e'' [])" Background NewRpcMultiplexer 0 0
          "Background\<lparr>ctxIncoming := Some Map.empty\<rparr>" "''now''" True "\<lambda>d. True" sample_ops "\<lambda>st. Block" "\<lambda>i m ctx. ctx" "\<lambda>i m ctx. ctx" True "[]"]
    by (auto simp: msg_codec_def NewClientConn_def Background_def NewRpcMultiplexer_def readErrorIfDone_def headersFromContext_def) blast
qed

theorem example_acceptor_witness:
  "\<exists>s. demo_serve_reach s \<and> svMain s = ServeReturned \<and>
     WebsocketAcceptor sample_env (\<lambda>e. - 1) (Inr ()) (\<lambda>c. svResult s) = Ret ([LogConnected, LogClosed], Some (1006, ''error''))"
proof -
  let ?s1 = "serve_return (srvHandlers demo_srv) (Some (Wrap EOF ''read error'')) demo_s0"
  have "demo_serve demo_s0 ?s1" by (rule sv_read_err) simp
  with reach_demo_s0 have r1: "demo_serve_reach ?s1" by (rule reach_step)
  let ?s2 = "?s1\<lparr>svMain := ServeReturned\<rparr>"
  have "demo_serve ?s1 ?s2" by (rule sv_returned) (simp_all add: serve_return_def newHandler_def)
  with r1 have r2: "demo_serve_reach ?s2" by (rule reach_step)
  have "svMain ?s2 = ServeReturned" and res: "svResult ?s2 = Some (Wrap EOF ''read error'')" by (simp_all add: serve_return_def)
  from example_acceptor[OF r2 this(1), of "\<lambda>e. - 1" "()"] res
  have "WebsocketAcceptor sample_env (\<lambda>e. - 1) (Inr ()) (\<lambda>c. svResult ?s2) = Ret ([LogConnected, LogClosed], Some (1006, ''error''))"
    by (simp add: sample_env_def)
  with r2 show ?thesis by (intro exI[of _ ?s2]) simp
qed

end
