(* ===== verification/Spec2Isabelle.thy ===== *)
theory Spec2Isabelle
  imports Goat_Http Goat_Proxy_Live Goat_Demux Goat_Unary Goat_Mux_Live Goat_Serve_Live Goat_System Goat_Example
begin

text \<open>
  GOAT carries gRPC calls over any transport that reads and writes messages. This development models
  the Go implementation under \<^verbatim>\<open>src/\<close> and proves what its parts promise each other.

  \<^bold>\<open>The program.\<close> A message (\<^verbatim>\<open>Rpc\<close>) has an id, a header with addresses, method, metadata and proxy route,
  and optionally a status, a body, a trailer and a reset. A \<^verbatim>\<open>ClientConn\<close> runs calls over one transport; its
  multiplexer gives each call an id and hands every response to the channel registered for its id.
  Streams add a read loop that feeds the receiver. A \<^verbatim>\<open>Server\<close> reads requests from a transport, runs unary
  calls in a worker and streams in goroutines of their own, and writes responses through one writer
  goroutine. Between them may be proxies, which route by address, and a demultiplexer, which splits one
  transport into many. Transports are channel pairs, websockets, HTTP requests and (in tests) byte pipes.

  \<^bold>\<open>The theories.\<close>
  \<^item> \<open>Goat_Prelude\<close>: outcomes of Go calls (\<open>Ret\<close>, \<open>Panic\<close>, \<open>Block\<close>), errors, contexts, durations, channels, \<^verbatim>\<open>select\<close>,
    reachability, the locale \<open>invariant_system\<close>, which every interleaving model instantiates, and the locale \<open>refinement_map\<close>.
  \<^item> \<open>Go_Strings\<close>: the functions of \<^verbatim>\<open>strings\<close>, \<^verbatim>\<open>strconv\<close> and \<^verbatim>\<open>encoding/base64\<close> the code uses, with round trips.
  \<^item> \<open>Goat_Rpc\<close>: the message structs and getters of \<^verbatim>\<open>gen/goatorepo/rpc.pb.go\<close>, the record \<open>env\<close> of the behaviour of
    the gRPC libraries and the record \<open>codec\<close> of the message codec.
  \<^item> \<open>Goat_Util\<close>: \<^verbatim>\<open>internal/util.go\<close>, metadata to and from the wire, stats callbacks.
  \<^item> \<open>Goat_Transport\<close>: \<^verbatim>\<open>channel.go\<close>, \<^verbatim>\<open>websocket.go\<close>, \<^verbatim>\<open>internal/testutil/\<close>; the locale \<open>rpc_writer\<close> is the contract of
    \<^verbatim>\<open>types.RpcReadWriter.Write\<close>, interpreted on the channel transport, the
    test connection of \<^verbatim>\<open>internal/testutil/testutil.go\<close> and the writer of a server stream.
  \<^item> \<open>Goat_Wire\<close>: a codec that satisfies what the transports rely on of protobuf (\<open>codec_ok\<close>), built from the combinators of the locale \<open>coder\<close>;
    the examples of the HTTP transport run on it.
  \<^item> \<open>Goat_Mux\<close>: \<^verbatim>\<open>internal/client/multiplexer.go\<close>, operations and the interleaving of its goroutines with the mutex.
  \<^item> \<open>Goat_Client_Stream\<close>: \<^verbatim>\<open>internal/client/stream.go\<close>, operations, the sequential reference \<open>cs_run\<close> and its refinement by the
    read loop, the receiver and the senders.
  \<^item> \<open>Goat_Client\<close>: \<^verbatim>\<open>client.go\<close> and \<^verbatim>\<open>dialoption.go\<close>, unary calls, opening of streams, request headers.
  \<^item> \<open>Goat_Server_Stream\<close>: \<^verbatim>\<open>internal/server/stream.go\<close> and \<^verbatim>\<open>transport_stream.go\<close>; the locale \<open>header_sink\<close> is what both kinds of
    header collector promise.
  \<^item> \<open>Goat_Chained\<close>: \<^verbatim>\<open>chained.go\<close>; the locale \<open>chain\<close> proves the composition law of both kinds of chain once.
  \<^item> \<open>Goat_Server\<close>: \<^verbatim>\<open>server.go\<close>, options, registration, parsing, timeouts, unary calls and the streams of a connection.
  \<^item> \<open>Goat_Conn_Table\<close>: the locale \<open>conn_table\<close>, the contract of a table of connections that makes missing ones; the lookups
    and removals of such a table are a history in which a key keeps its connection until it is removed.
  \<^item> \<open>Goat_Proxy\<close>: \<^verbatim>\<open>proxy.go\<close>. \<open>Goat_Demux\<close>: \<^verbatim>\<open>demux.go\<close>. \<open>Goat_Http\<close>: \<^verbatim>\<open>http.go\<close>.
  \<^item> \<open>Goat_Proxy_System\<close>: the goroutines of the proxy, \<^verbatim>\<open>connect\<close>, \<^verbatim>\<open>readLoop\<close> and \<^verbatim>\<open>writeLoop\<close> under \<^verbatim>\<open>readWrite\<close>, and \<^verbatim>\<open>serveClients\<close>, as a
    refinement of the step relation of \<open>Goat_Proxy\<close>.
  \<^item> \<open>Goat_Serve\<close>: the goroutines of a server connection, \<^verbatim>\<open>Serve\<close>, \<^verbatim>\<open>serve\<close> and \<^verbatim>\<open>cancelAndWaitForStreams\<close> of \<^verbatim>\<open>server.go\<close>.
  \<^item> \<open>Goat_Fair\<close>: infinite runs of a step relation, weak and strong fairness of an action, \<open>leads_to\<close> with its rules (a fair action that
    stays enabled happens, a measure that falls reaches its end), and runs that stop, for examples.
  \<^item> \<open>Goat_Mux_Live\<close>, \<open>Goat_Proxy_Live\<close>, \<open>Goat_Serve_Live\<close>: what happens eventually in the fair runs of the three systems of goroutines.
  \<^item> \<open>Goat_Unary\<close>: a unary call from the client's caller to the server's handler and back, one lemma for all outcomes.
  \<^item> \<open>Goat_System\<close>: a client (\<open>mux_step\<close>) and a server connection (\<open>serve_step\<close>) joined by a pair of channels, \<open>goat_step\<close>; the laws of
    the two systems compose to laws from end to end.
  \<^item> \<open>Goat_Example\<close>: \<^verbatim>\<open>cmd/e2e-websocket-test/main.go\<close> with the generated stubs it registers; the locale \<open>msg_stream\<close> is what its
    stream handlers rely on, interpreted on server streams over channels.
  \<^item> This theory: properties across components, from a client's call to the server's handler and back.

  \<^bold>\<open>What is shown.\<close> Unary calls deliver argument, response and status end to end; metadata and timeouts
  reach the handler; streams deliver messages, the end of input and the final status. The multiplexer
  delivers to each call the responses of its id, in order, never panics, and in fair runs eventually delivers
  what it has read while the owners wait; the client stream implements its sequential reference under every interleaving; a server
  stream's messages have the shape the client expects. Interceptor chains are compositions. Proxies
  forward to the addressed client over bounded queues, from the client a message names as its source and in order, and in fair
  runs write what is queued; responses retrace their route; the
  demultiplexer keeps one connection for an id until it is cancelled, and loses, duplicates and reorders nothing; the HTTP
  transport delivers an accepted message at most once, loses it only when its connection is closed before, and its cleaner closes exactly the stale connections. A server connection answers
  each unary call at most once, and in fair runs while it lives exactly once; it feeds its streams in order, returns only when they have ended, always with an error, and
  can always return. With a client and a server joined, in every interleaving a unary call gets at most one answer, which is
  what the server's method made of its own request, and stream messages arrive in order both ways. The example
  server's methods compute what they should through client, wire, dispatch, interceptor and stub. Where the code fails its purpose the
  theorem states the failure: the deadlocks of the multiplexer and of the server's loop, the lost close,
  the worker and the proxy's loops that block for ever, the reconnected client a proxy forgets, the panics on malformed headers, empty routes and cancelled or
  stale connections, the overflow of timeouts, the reset that looks like the end of a stream.

  \<^bold>\<open>Parameters.\<close> Code outside the repository is a parameter: the gRPC status and metadata packages (\<open>env\<close>, with the
  hypotheses \<open>err_ok\<close>, \<open>from_error_ok\<close>, \<open>join_ok\<close>, \<open>range_ok\<close>; \<open>grpc_pkg\<close> with \<open>grpc_ok\<close> and the stream wrapper with \<open>delegates\<close> for the
  example), the message codec (\<open>codec_law\<close>, \<open>codec_total\<close>), the protobuf codec of the wire (\<open>codec_ok\<close>: what is read is what was written, with empty
  slices nil), handlers, interceptors,
  stats taggers, the network; when the proxy's error group cancels its context is left open. Each hypothesis states documented behaviour; \<open>sample_env\<close>, \<open>sample_codec\<close>, \<open>sample_grpc\<close>, \<open>msg_codec\<close> and \<open>wire_marshal\<close> satisfy
  them, and the witnesses use these.

  \<^bold>\<open>Bounds.\<close> Stream ids are 64-bit words: distinctness is proved for fewer than \<open>2 ^ 64\<close> calls. Durations are signed
  64-bit words with Go's wrap-around; the HTTP cleaner's conversion of its timeout to seconds goes through
  a 53-bit float, whose normalisation doubles at most 100 times (durations need fewer). The example's counters are kept at their 32 and 64 bits. No definition uses
  fuel as a bound on behaviour: loops are step relations, structural recursions over the messages that arrive, or partial
  functions whose return is proved.

  \<^bold>\<open>Not modelled.\<close> Generated protobuf registration and mocks, type aliases, the example's listening socket and HTTP server, and
  logging. Inside the step relations application handlers are unconstrained programs. A panic that ends the process is an
  end state of the proxy's system; in the systems of the server connection and the demultiplexer the goroutine that panicked
  stops and the others may go on, which adds behaviours and hides none. Fairness of the
  scheduler is a hypothesis of the liveness theorems, never part of a step relation: weak fairness of each goroutine, and
  strong fairness for the workers that compete for the server's write channel, whose senders Go serves in order. Liveness is
  stated for the multiplexer, the proxy and the server connection each by itself, not for a client, proxies and a server joined.
\<close>

section \<open>Across client and server\<close>

subsection \<open>Request headers\<close>

lemma ToKeyValue_keys:
  assumes "range_ok env" "finite (dom (mdJoin env mds))" "kv \<in> set (ToKeyValue env mds)"
  shows "kvKey kv \<in> dom (mdJoin env mds)"
  using assms by (auto simp: ToKeyValue_def Let_def to_kv_def range_ok_def split: if_splits)

lemma find_timeout_append:
  "\<forall>kv \<in> set hs. ToLower (uniLower env) (kvKey kv) \<noteq> ''grpc-timeout'' \<Longrightarrow>
   find_timeout env (hs @ gs) = find_timeout env gs"
  by (induction hs) auto

lemma timeout_key_lower: "ToLower uni timeout_key = ''grpc-timeout''"
proof -
  have "list_all is_ascii timeout_key" and "map ascii_lower timeout_key = ''grpc-timeout''" by code_simp+
  then show ?thesis by (simp add: ToLower_def)
qed

lemma timeout_key_plain: "\<not> HasSuffix ''grpc-timeout'' bin_suffix"
  by code_simp

lemma ToMetadata_snoc_timeout:
  "ToMetadata env (hs @ [\<lparr>kvKey = timeout_key, kvValue = v\<rparr>]) =
     (case ToMetadata env hs of Inl e \<Rightarrow> Inl e | Inr m \<Rightarrow> Inr (md_append m ''grpc-timeout'' v))"
  by (simp add: ToMetadata_def ToMetadata_loop_append kv_decode_def timeout_key_lower timeout_key_plain
      split: sum.split)

text \<open>Metadata a client may attach: finitely many lower-case ASCII keys, none the reserved one.\<close>

definition plain_md :: "MD \<Rightarrow> bool" where
  "plain_md md \<longleftrightarrow> finite (dom md) \<and> (\<forall>k \<in> dom md. is_lower_ascii k \<and> k \<noteq> ''grpc-timeout'')"

lemma plain_join:
  assumes "join_ok env" "plain_md md"
  shows "finite (dom (mdJoin env [md]))" and "\<forall>k \<in> dom (mdJoin env [md]). is_lower_ascii k \<and> k \<noteq> ''grpc-timeout''"
    and "md_strip (mdJoin env [md]) = md_strip md"
proof -
  have d: "dom (mdJoin env [md]) = dom md" by (auto simp: join_okD[OF assms(1)] dom_def split: if_splits)
  then show "finite (dom (mdJoin env [md]))"
    "\<forall>k \<in> dom (mdJoin env [md]). is_lower_ascii k \<and> k \<noteq> ''grpc-timeout''"
    using assms(2) by (simp_all add: plain_md_def)
  have "mdJoin env [md] k = md k" for k
    by (cases "md k") (simp_all add: join_okD[OF assms(1)] md_get_def)
  then show "md_strip (mdJoin env [md]) = md_strip md" by (simp add: fun_eq_iff md_strip_def md_get_def)
qed

text \<open>C8: Metadata reaches the handler: what a client attaches to its outgoing context, under plain keys and
  including binary values, is the incoming metadata of the server's context, less keys without a
  value; the timeout, when there is a deadline, comes as one more key.\<close>

theorem metadata_end_to_end:
  assumes "join_ok env" and "range_ok env" and "plain_md md" and "ctxOutgoing ctx = Some md"
    and "hHeaders h = headersFromContext env now ctx"
  shows "\<exists>ctx'. contextFromHeaders env now' parent h = Inr ctx' \<and>
    ctxIncoming ctx' = Some (case ctxDeadline ctx of
        None \<Rightarrow> md_strip md
      | Some d \<Rightarrow> (md_strip md)(''grpc-timeout'' \<mapsto> [format_d (timeout_ms d now) @ ''m'']))"
proof -
  have rt: "ToMetadata env (ToKeyValue env [md]) = Inr (md_strip md)"
    using ToMetadata_ToKeyValue[OF assms(2), of "[md]"] plain_join[OF assms(1,3)] by auto
  have "md_strip md ''grpc-timeout'' = None" using assms(3) by (auto simp: plain_md_def md_strip_def dom_def)
  then have "md_append (md_strip md) ''grpc-timeout'' v = (md_strip md)(''grpc-timeout'' \<mapsto> [v])" for v
    by (simp add: md_append_def md_get_def)
  with rt assms(4,5) show ?thesis
    by (cases "ctxDeadline ctx")
      (auto simp: contextFromHeaders_def headersFromContext_def ToMetadata_snoc_timeout WithTimeout_def Let_def
        split: option.splits)
qed

text \<open>C9: The deadline reaches the handler: a client deadline at least a millisecond away gives the server,
  from the moment it reads the header, the same time left, short by less than a millisecond.\<close>

theorem timeout_end_to_end:
  assumes "join_ok env" and "range_ok env" and "\<forall>md. ctxOutgoing ctx = Some md \<longrightarrow> plain_md md"
    and "hHeaders h = headersFromContext env now ctx"
    and "ctxDeadline ctx = Some d" and "10 ^ 6 \<le> d - now" and "d - now < 2 ^ 63"
    and "ctxDeadline parent = None"
  shows "\<exists>ctx' d'. contextFromHeaders env now' parent h = Inr ctx' \<and> ctxDeadline ctx' = Some d' \<and>
    d' - now' \<le> d - now \<and> d - now < d' - now' + 10 ^ 6 \<and> ctxErr ctx' = ctxErr parent"
proof -
  let ?ms = "timeout_ms d now"
  let ?hs = "case ctxOutgoing ctx of Some md \<Rightarrow> ToKeyValue env [md] | None \<Rightarrow> []"
  note b = timeout_ms_bounds[OF assms(7,6)]
  have hs: "hHeaders h = ?hs @ [\<lparr>kvKey = timeout_key, kvValue = format_d ?ms @ ''m''\<rparr>]"
    using assms(4,5) by (simp add: headersFromContext_def)
  have "\<forall>kv \<in> set ?hs. ToLower (uniLower env) (kvKey kv) \<noteq> ''grpc-timeout''"
  proof (cases "ctxOutgoing ctx")
    case (Some md)
    with assms(3) have p: "plain_md md" by blast
    show ?thesis
      using ToKeyValue_keys[OF assms(2) plain_join(1)[OF assms(1) p]] plain_join(2)[OF assms(1) p] Some
      by fastforce
  qed simp
  moreover have "parseGrpcTimeout (format_d ?ms @ ''m'') = Some (word_of_int (?ms * 10 ^ 6))"
    using parseGrpcTimeout_format[of ?ms "CHR ''m''"] b by (simp add: wi_hom_mult)
  ultimately have f: "find_timeout env (hHeaders h) = Some (word_of_int (?ms * 10 ^ 6))"
    unfolding hs by (simp add: find_timeout_append timeout_key_lower)
  have "sint (word_of_int (?ms * 10 ^ 6) :: i64) = ?ms * 10 ^ 6"
    by (rule sint_range_id) (use b assms(7) in auto)
  with f obtain t where f: "find_timeout env (hHeaders h) = Some t" and s: "sint t = ?ms * 10 ^ 6" by blast
  have "\<exists>m. ToMetadata env (hHeaders h) = Inr m"
  proof (cases "ctxOutgoing ctx")
    case None
    then show ?thesis using hs ToMetadata_snoc_timeout[of env "[]"] by simp
  next
    case (Some md)
    with assms(3) have p: "plain_md md" by blast
    then show ?thesis
      using hs Some ToMetadata_snoc_timeout[of env "ToKeyValue env [md]"]
        ToMetadata_ToKeyValue[OF assms(2), of "[md]"] plain_join[OF assms(1) p] by auto
  qed
  then obtain m where m: "ToMetadata env (hHeaders h) = Inr m" ..
  let ?ctx' = "parent\<lparr>ctxIncoming := Some m, ctxDeadline := Some (now' + ?ms * 10 ^ 6)\<rparr>"
  have "contextFromHeaders env now' parent h = Inr ?ctx'"
    using m f assms(8) b(3) by (simp add: contextFromHeaders_def WithTimeout_def s Let_def)
  with b(1,2) show ?thesis by (intro exI[of _ ?ctx'] exI[of _ "now' + ?ms * 10 ^ 6"]) (auto simp: algebra_simps)
qed

definition demo_md :: MD where
  "demo_md = [''k'' \<mapsto> [''v'', ''w''], ''t-bin'' \<mapsto> [''x'']]"

lemma plain_demo_md [simp]: "plain_md demo_md"
proof -
  have "is_lower_ascii ''k''" "is_lower_ascii ''t-bin''" by code_simp+
  then show ?thesis by (auto simp: plain_md_def demo_md_def split: if_splits)
qed

theorem metadata_end_to_end_witness:
  "\<exists>ctx'. contextFromHeaders sample_env 5 Background
       (header_of ''/s/m'' ''a'' ''b'' (headersFromContext sample_env 0 (Background\<lparr>ctxOutgoing := Some demo_md\<rparr>))) = Inr ctx' \<and>
     ctxIncoming ctx' = Some demo_md"
proof -
  have "md_strip demo_md = demo_md" by (simp add: md_strip_def demo_md_def md_get_def fun_eq_iff)
  with metadata_end_to_end[OF sample_join_ok sample_range_ok plain_demo_md, of "Background\<lparr>ctxOutgoing := Some demo_md\<rparr>"
      "header_of ''/s/m'' ''a'' ''b'' (headersFromContext sample_env 0 (Background\<lparr>ctxOutgoing := Some demo_md\<rparr>))" 0 5 Background]
  show ?thesis by (simp add: Background_def)
qed

theorem timeout_end_to_end_witness:
  "\<exists>ctx' d'. contextFromHeaders sample_env 70 Background
       (header_of ''/s/m'' ''a'' ''b'' (headersFromContext sample_env 0 (Background\<lparr>ctxDeadline := Some 2500000\<rparr>))) = Inr ctx' \<and>
     ctxDeadline ctx' = Some d' \<and> d' - 70 \<le> 2500000 \<and> 2500000 < d' - 70 + 10 ^ 6"
  using timeout_end_to_end[OF sample_join_ok sample_range_ok, of "Background\<lparr>ctxDeadline := Some 2500000\<rparr>"
      "header_of ''/s/m'' ''a'' ''b'' (headersFromContext sample_env 0 (Background\<lparr>ctxDeadline := Some 2500000\<rparr>))"
      0 2500000 Background 70]
  by (auto simp: Background_def)

subsection \<open>Unary calls\<close>

text \<open>C1: A unary call, end to end: the server's handler is called with exactly the client's argument, and the
  client gets exactly the handler's response when it returns one without error; when it returns a
  status error, the client gets that status error; and when the response cannot be marshalled, the
  client is told the response is malformed (the marshalling error is lost).\<close>

theorem unary_end_to_end:
  assumes codec: "codec_law cd" and errs: "err_ok env" "from_error_ok env"
    and args: "Marshal cd args = Inr bs"
    and n: "statsHandlers cc = 0" "srvHandlers srv = 0" and live: "ctxErr ctx = None"
    and m: "readErrorIfDone m = None"
    and sctx: "contextFromHeaders env now' Background
        (header_of method (sourceAddress cc) (destAddress cc) (headersFromContext env now ctx)) = Inr sctx"
    and hdl: "mdHandler md (srvUnary srv) sctx (Inr args)
        (NewUnaryServerTransportStream (full_method (siName info) (MethodName md))) = Ret ((respv, appErr, k), sts)"
    and app: "appErr = None \<or> (\<exists>s. appErr = Some (StatusErr s) \<and> stCode s \<noteq> code_OK)"
  shows "\<exists>tr w'. cc_invoke env cd tag list_write (unary_peer env cd tag' now' srv info md) pick now cc ctx method args [] (m, t) =
      Ret ((case appErr of
              Some e \<Rightarrow> Inl e
            | None \<Rightarrow>
                if \<exists>r bs'. respv = Some r \<and> Marshal cd r = Inr bs' then Inr (the respv)
                else Inl (Errorf ''malformed response: no body or status'')), tr, w')"
  by (rule unary_call[OF codec errs _ args n live m sctx hdl app]) (simp add: opts_supported_def)

theorem unary_end_to_end_witness:
  "\<exists>tr w'. cc_invoke sample_env sample_codec (\<lambda>i m ctx. ctx) list_write
       (unary_peer sample_env sample_codec (\<lambda>i m ctx. ctx) 0 (NewServer ''b'' [] :: (bytes, unit) Server)
          \<lparr>siName = ''svc'', siMethods = Map.empty, siStreams = Map.empty\<rparr> demo_method)
       True 0 (fst (NewClientConn ''a'' ''b'' [])) Background ''/svc/Echo'' [42] [] (NewRpcMultiplexer, []) =
     Ret (Inr [42], tr, w')"
  using unary_end_to_end[OF sample_codec_law sample_err_ok sample_from_error_ok, of "[42]" "[[42]]"
      "fst (NewClientConn ''a'' ''b'' [])" "NewServer ''b'' [] :: (bytes, unit) Server" Background NewRpcMultiplexer 0 "''/svc/Echo''" 0
      "Background\<lparr>ctxIncoming := Some Map.empty\<rparr>" demo_method
      "\<lparr>siName = ''svc'', siMethods = Map.empty, siStreams = Map.empty\<rparr>" "Some [42]" None 1
      "NewUnaryServerTransportStream ''/svc/Echo''" "\<lambda>i m ctx. ctx" "\<lambda>i m ctx. ctx" True "[]"]
  by (simp add: sample_codec_def NewClientConn_def NewServer_def Background_def NewRpcMultiplexer_def readErrorIfDone_def
      contextFromHeaders_def headersFromContext_def demo_method_def full_method_def)

subsection \<open>Streams\<close>

text \<open>C15: Client and server agree on how a stream ends: the trailer the server sends for its handler's error
  makes the client's \<open>RecvMsg\<close> return \<^verbatim>\<open>io.EOF\<close> exactly for a nil error, and otherwise the error's
  status, with code \<open>Internal\<close> in place of OK.\<close>

theorem trailer_agreement:
  assumes "err_ok env" and "rpcTrailer rpc \<noteq> None" and "rpcStatus rpc = Some (trailer_status env trErr)"
  shows "errorIfDone env rpc =
    (True, Some (case trErr of
       None \<Rightarrow> EOF
     | Some e \<Rightarrow> (let s = fst (stFromError env e) in
          StatusErr (if stCode s = code_OK then s\<lparr>stCode := code_Internal\<rparr> else s))))"
proof (cases trErr)
  case None
  with assms show ?thesis by (simp add: errorIfDone_def trailer_status_def GetCode_def)
next
  case (Some e)
  with assms show ?thesis
    by (simp add: errorIfDone_def trailer_status_def GetCode_def GetMessage_def GetDetails_def Let_def err_okD)
qed

theorem trailer_agreement_witness:
  "errorIfDone sample_env ((ss_rpc (NewServerStream Background 1 ''m'' ''a'' ''b'' 0) [])
     \<lparr>rpcStatus := Some (trailer_status sample_env None), rpcTrailer := Some \<lparr>tMetadata = None\<rparr>\<rparr>) = (True, Some EOF)"
  using trailer_agreement[OF sample_err_ok, of "(ss_rpc (NewServerStream Background 1 ''m'' ''a'' ''b'' 0) [])
     \<lparr>rpcStatus := Some (trailer_status sample_env None), rpcTrailer := Some \<lparr>tMetadata = None\<rparr>\<rparr>" None]
  by (simp add: ss_rpc_def)

lemma goc_read_one:
  "ctxErr ctx = None \<Longrightarrow> buf (inQ t) = [rpc] \<Longrightarrow> \<exists>t'. goc_read p ctx t = Ret (Inr rpc, t')"
  by (simp add: goc_read_def on_done_def chan_recv_def)

text \<open>C10: A message crosses a stream unchanged: what a client's \<open>SendMsg\<close> puts on an empty channel, the
  server's \<open>RecvMsg\<close> at the other end of the channel decodes to the same message.\<close>

theorem stream_message_end_to_end:
  assumes "codec_law cd" and "cs_SendMsg cd (goc_write pick) td now msg cs u = Ret (None, cs', u')"
    and "\<not> csDone cs" and "\<And>v v'. td v = Ret v' \<Longrightarrow> buf (outQ v') = buf (outQ v)"
    and "buf (outQ u) = []" and "inQ t = outQ u'" and "ctxErr (ssCtx ss) = None"
  shows "\<exists>ss' t'. ss_RecvMsg env cd (goc_read p) (ss, t) = Ret ((None, Some msg), ss', t')"
proof -
  from goc.cs_SendMsg_sent[OF assms(2,3,4)] assms(5,6) obtain body where
    m: "Marshal cd msg = Inr body" and
    b: "buf (inQ t) = [(cs_rpc cs)\<lparr>rpcBody := Some \<lparr>bData = Materialize cd body\<rparr>\<rparr>]" by auto
  from goc_read_one[OF assms(7) b] obtain t' where
    "goc_read p (ssCtx ss) t = Ret (Inr ((cs_rpc cs)\<lparr>rpcBody := Some \<lparr>bData = Materialize cd body\<rparr>\<rparr>), t')" ..
  with codec_lawD[OF assms(1) m] show ?thesis
    by (simp add: ss_RecvMsg_def cs_rpc_def GetData_def Let_def)
qed

theorem stream_message_end_to_end_witness:
  "\<exists>cs' u' ss' t'. cs_SendMsg sample_codec (goc_write True) Ret 0 [7] demo_stream
       (NewGoatOverChannel (make_chan 1) (make_chan 1)) = Ret (None, cs', u') \<and>
     ss_RecvMsg sample_env sample_codec (goc_read True) (NewServerStream Background 1 ''/s/m'' ''b'' ''a'' 0,
       NewGoatOverChannel (outQ u') (make_chan 1)) = Ret ((None, Some [7]), ss', t')"
proof -
  let ?u = "NewGoatOverChannel (make_chan 1) (make_chan 1)"
  have "\<exists>cs' u'. cs_SendMsg sample_codec (goc_write True) Ret 0 [7] demo_stream ?u = Ret (None, cs', u')"
    by (simp add: cs_SendMsg_def cs_readErrorIfDone_def demo_stream_def NewStream_def sample_codec_def
        goc_write_def NewGoatOverChannel_def on_done_def Background_def chan_send_def)
  then obtain cs' u' where s: "cs_SendMsg sample_codec (goc_write True) Ret 0 [7] demo_stream ?u = Ret (None, cs', u')"
    by blast
  have "\<not> csDone demo_stream" by (simp add: demo_stream_def NewStream_def)
  from stream_message_end_to_end[OF sample_codec_law s this, of "NewGoatOverChannel (outQ u') (make_chan 1)"
      "NewServerStream Background 1 ''/s/m'' ''b'' ''a'' 0" sample_env True]
  have "\<exists>ss' t'. ss_RecvMsg sample_env sample_codec (goc_read True) (NewServerStream Background 1 ''/s/m'' ''b'' ''a'' 0,
       NewGoatOverChannel (outQ u') (make_chan 1)) = Ret ((None, Some [7]), ss', t')"
    by (simp add: NewGoatOverChannel_def NewServerStream_def Background_def)
  with s show ?thesis by blast
qed

text \<open>A client's \<open>CloseSend\<close> is the server's end of input: the server's \<open>RecvMsg\<close> returns \<^verbatim>\<open>io.EOF\<close>.\<close>

lemma close_send_end_to_end:
  assumes "cs_CloseSend env (goc_write pick) cs u = Ret (None, cs', u')"
    and "buf (outQ u) = []" and "inQ t = outQ u'" and "ctxErr (ssCtx ss) = None"
  shows "\<exists>t'. ss_RecvMsg env' cd (goc_read p) (ss, t) = Ret ((Some EOF, None), ss, t')"
proof -
  from assms(1) obtain fin where w: "goc_write pick (csCtx cs) fin u = Ret (None, u')"
    and f: "rpcTrailer fin \<noteq> None" "GetCode (rpcStatus fin) = code_OK"
    by (auto simp: cs_CloseSend_def Let_def go_bind_Ret_iff GetCode_def)
  from goc.write_nil[OF w] assms(2,3) have "buf (inQ t) = [fin]" by simp
  from goc_read_one[OF assms(4) this] obtain t' where "goc_read p (ssCtx ss) t = Ret (Inr fin, t')" ..
  with f show ?thesis by (auto simp: ss_RecvMsg_def)
qed

text \<open>A stream the server resets looks to the client as if it had completed: the reset message carries a
  trailer and no status, so \<open>RecvMsg\<close> returns \<^verbatim>\<open>io.EOF\<close>.\<close>

lemma reset_looks_like_eof:
  "errorIfDone env (reset_rpc rpc h) = (True, Some EOF)"
  by (simp add: errorIfDone_def reset_rpc_def GetCode_def)

subsection \<open>Through proxies\<close>

text \<open>C20: A unary response retraces the route of its request. A request without a route passes proxies that have room in
  their queues and know the connection it comes from by its source (\<open>pass_stranger\<close>: otherwise a proxy panics); it reaches its
  destination, and the response, through proxies of the same names in the opposite order that know the server's address,
  visits them in that order and ends at the request's source, when it is marshalled on the way. Where messages are
  passed by reference and there is more than one proxy, the last proxy panics on the empty route. A message of a
  server stream carries no route: each proxy sends it straight to the stream's destination.\<close>

theorem proxy_route_end_to_end:
  assumes "wire_ok wire" and "rpcHeader rpc = Some h" and "hProxyNext h = None" and "hProxyRecord h = []" and "ps \<noteq> []"
    and "known_as (hSource h) ps" and "hop_ids qs = rev (hop_ids ps)" and "known_as (hDestination h) qs"
  shows "\<exists>rpc1 h1. pass_proxies wire ps rpc = Ret (Some (replicate (length ps) (hDestination h), rpc1)) \<and>
    rpcHeader (wire rpc1) = Some h1 \<and> hProxyRecord h1 = hop_ids ps \<and>
    (\<exists>x. pass_proxies wire_rpc qs (unary_resp env cd fm (wire rpc1) h1 respv appErr sts) = Ret (Some (tl (rev (hop_ids ps)) @ [hSource h], x))) \<and>
    (1 < length ps \<longrightarrow> pass_proxies (\<lambda>m. m) qs (unary_resp env cd fm (wire rpc1) h1 respv appErr sts) = Panic) \<and>
    (ssSrc ss = hDestination h \<longrightarrow> (\<exists>x. pass_proxies wire qs (ss_rpc ss kvs) = Ret (Some (replicate (length ps) (ssDst ss), x))))"
proof -
  from pass_request[OF assms(1-3,6)] assms(4) obtain rpc1 where
    p: "pass_proxies wire ps rpc = Ret (Some (replicate (length ps) (hDestination h), rpc1))"
    and r1: "rpcHeader rpc1 = Some (h\<lparr>hProxyRecord := hop_ids ps\<rparr>)" by auto
  let ?h1 = "h\<lparr>hProxyRecord := hop_ids ps\<rparr>"
  have h1: "rpcHeader (wire rpc1) = Some ?h1" by (rule wire_ok_header[OF assms(1) r1]) (simp add: assms(3))
  let ?resp = "unary_resp env cd fm (wire rpc1) ?h1 respv appErr sts"
  obtain rh where rh: "rpcHeader ?resp = Some rh" "hSource rh = hDestination h" "hDestination rh = hSource h"
    "hProxyNext rh = (if 1 < length ps then Some (butlast (hop_ids ps)) else None)"
    by (simp add: unary_resp_def reply_route_def)
  have len: "length qs = length ps" using assms(7) by (metis hops_simps(3) length_rev)
  then obtain c p0 qs' where q: "qs = (c, p0) # qs'" using assms(5) by (cases qs) auto
  have ids: "tl (rev (hop_ids ps)) = hop_ids qs'" "butlast (hop_ids ps) = rev (hop_ids qs')"
    using assms(7) q by (simp_all add: butlast_rev[of "rev (hop_ids ps)", simplified] flip: assms(7))
  have resp: "(\<exists>x. pass_proxies wire_rpc qs ?resp = Ret (Some (tl (rev (hop_ids ps)) @ [hSource h], x))) \<and>
      (1 < length ps \<longrightarrow> pass_proxies (\<lambda>m. m) qs ?resp = Panic)"
  proof (cases "1 < length ps")
    case True
    then have "qs' \<noteq> []" "hProxyNext rh = Some (rev (hop_ids qs'))" using len q rh(4) ids by auto
    with pass_response[OF _ rh(1), of wire_rpc qs' c p0] pass_response[OF _ rh(1), of "\<lambda>m. m" qs' c p0] assms(8) q rh ids
    show ?thesis by (simp add: wire_ok_def)
  next
    case False
    have "Suc (length qs') = length ps" using len q by simp
    with False have "length qs' = 0" by linarith
    then have "qs' = []" by simp
    moreover have n: "hProxyNext rh = None" using False rh(4) by simp
    ultimately show ?thesis
      using pass_request[OF _ rh(1) n, of wire_rpc qs] assms(8) q rh(2,3) ids False by (auto simp: wire_ok_def)
  qed
  have "\<exists>x. pass_proxies wire qs (ss_rpc ss kvs) = Ret (Some (replicate (length ps) (ssDst ss), x))" if "ssSrc ss = hDestination h"
    using pass_request[OF assms(1), of "ss_rpc ss kvs" "header_of (ssMethod ss) (ssSrc ss) (ssDst ss) kvs" qs] that assms(8) len
    by (auto simp: ss_rpc_def)
  with p h1 resp show ?thesis by auto
qed

text \<open>A request through two proxies over a wire, and its response.\<close>

definition demo_route :: "string \<Rightarrow> string list \<Rightarrow> (string \<times> Proxy) list" where
  "demo_route client ids = map (\<lambda>pid. (client, NewProxy pid)) ids"

theorem proxy_route_end_to_end_witness:
  "\<exists>rpc1 h1 x. pass_proxies wire_rpc (demo_route ''a'' [''p1'', ''p2''])
        ((demo_request [])\<lparr>rpcHeader := Some (header_of ''/s/m'' ''a'' ''b'' [])\<rparr>) = Ret (Some ([''b'', ''b''], rpc1)) \<and>
     pass_proxies wire_rpc (demo_route ''b'' [''p2'', ''p1''])
        (unary_resp sample_env sample_codec ''/s/m'' (wire_rpc rpc1) h1 (Some []) None (NewUnaryServerTransportStream ''/s/m'')) =
       Ret (Some ([''p1'', ''a''], x))"
proof -
  have "known_as c (demo_route c ids)" "hop_ids (demo_route c ids) = ids" "length (demo_route c ids) = length ids"
    "demo_route c ids = [] \<longleftrightarrow> ids = []" for c ids
    by (auto simp: demo_route_def known_as_def hop_ids_def roomy_def NewProxy_def o_def)
  with proxy_route_end_to_end[of wire_rpc "(demo_request [])\<lparr>rpcHeader := Some (header_of ''/s/m'' ''a'' ''b'' [])\<rparr>"
      "header_of ''/s/m'' ''a'' ''b'' []" "demo_route ''a'' [''p1'', ''p2'']" "demo_route ''b'' [''p2'', ''p1'']"
      sample_env sample_codec "''/s/m''" "Some []" None "NewUnaryServerTransportStream ''/s/m''"
      "NewServerStream Background 1 ''/s/m'' ''b'' ''a'' 0" "[]"]
  show ?thesis by (auto simp: wire_ok_def)
qed

end
